(* ===== verification/Kern_Prelude.thy ===== *)
theory Kern_Prelude
  imports Main "HOL-Library.Word" "HOL-Library.Monad_Syntax"
begin

unbundle bit_operations_syntax

text \<open>
  Shared vocabulary of the development.

  A kernel function is a function from the state it works on to
  \<open>('a \<times> 'state) option\<close>.  \<^const>\<open>None\<close> means that the call does not come back: a
  \<^verbatim>\<open>KASSERT\<close> failed, \<^verbatim>\<open>panic\<close> was called, an array was indexed outside its bounds, or a
  lock was taken that somebody else holds.  A theorem that a call returns \<^const>\<open>Some\<close>
  therefore says that none of these happens.  The C return code is part of \<open>'a\<close>:
  \<open>Inl e\<close> for a nonzero errno, \<open>Inr x\<close> for 0 together with what the function hands back
  through its pointer arguments.  Sequencing is the option monad's \<open>do\<close> notation with the
  state passed explicitly.

  Memory allocation can fail at any call.  The answers the allocator gives are an input of
  the model, a list of booleans that each \<^verbatim>\<open>kmalloc\<close> consumes from the front; an exhausted
  list means that memory has run out.  A theorem for every such list covers every pattern of
  allocation failures.
\<close>

section \<open>Proof collections\<close>

named_theorems kern_simps \<open>unfolding rules for the helper operations of the kernel model\<close>
named_theorems kern_inv \<open>facts that say an operation keeps an invariant\<close>

section \<open>Error numbers\<close>

text \<open>The error numbers of \<^verbatim>\<open>kern/include/kern/errno.h\<close> the modelled code returns.\<close>

datatype errno
  = ENOSYS | ENOMEM | EAGAIN | EINTR | EFAULT | ENAMETOOLONG | EINVAL | EPERM | EACCES | EMPROC
  | ENPROC | ENOEXEC | E2BIG | ESRCH | ECHILD | ENOTDIR | EISDIR | ENOENT | ELOOP | ENOTEMPTY
  | EEXIST | EMLINK | EXDEV | ENODEV | ENXIO | EBUSY | EMFILE | ENFILE | EBADF | EIOCTL | EIO
  | ESPIPE | EPIPE | EROFS | ENOSPC | EDQUOT | EFBIG | EFTYPE | EDOM | ERANGE

section \<open>Assertions, array accesses and lists\<close>

definition kassert :: "bool \<Rightarrow> unit option" where
  "kassert b = (if b then Some () else None)"

lemma kassert_True [simp]: "kassert True = Some ()"
  by (simp add: kassert_def)

lemma kassert_False [simp]: "kassert False = None"
  by (simp add: kassert_def)

lemma kassert_eq_Some [simp]: "kassert b = Some u \<longleftrightarrow> b"
  by (simp add: kassert_def)

lemma kassert_bind_Some [simp]: "Option.bind (kassert b) f = Some r \<longleftrightarrow> b \<and> f () = Some r"
  by (cases b) simp_all

text \<open>Reading and writing a C array: outside the array the behaviour is undefined.\<close>

definition cread :: "'a list \<Rightarrow> nat \<Rightarrow> 'a option" where
  "cread xs i = (if i < length xs then Some (xs ! i) else None)"

definition cwrite :: "'a list \<Rightarrow> nat \<Rightarrow> 'a \<Rightarrow> 'a list option" where
  "cwrite xs i x = (if i < length xs then Some (xs[i := x]) else None)"

lemma cread_in [simp]: "i < length xs \<Longrightarrow> cread xs i = Some (xs ! i)"
  by (simp add: cread_def)

lemma cwrite_in [simp]: "i < length xs \<Longrightarrow> cwrite xs i x = Some (xs[i := x])"
  by (simp add: cwrite_def)

lemma cread_eq_Some: "cread xs i = Some x \<longleftrightarrow> i < length xs \<and> x = xs ! i"
  by (auto simp: cread_def)

lemma cwrite_eq_Some: "cwrite xs i x = Some ys \<longleftrightarrow> i < length xs \<and> ys = xs[i := x]"
  by (auto simp: cwrite_def)

lemmas carray_Some = cread_eq_Some cwrite_eq_Some

lemma list_update_cases:
  "i < length xs \<Longrightarrow> xs[i := x] ! j = (if j = i then x else xs ! j)"
  by (cases "j = i") simp_all

section \<open>Unsigned 32-bit arithmetic on naturals\<close>

text \<open>
  The C type \<^verbatim>\<open>unsigned\<close> is 32 bits wide on the machine OS/161 runs on.  Where a value is
  modelled as a \<^typ>\<open>nat\<close>, an addition that can wrap around is written with \<open>u32\<close>.
\<close>

definition u32 :: "nat \<Rightarrow> nat" where
  "u32 n = n mod 2 ^ 32"

lemma u32_small [simp]: "n < 2 ^ 32 \<Longrightarrow> u32 n = n"
  by (simp add: u32_def)

lemma u32_bound [simp]: "u32 n < 2 ^ 32"
  by (simp add: u32_def)

text \<open>Subtraction in 32 bits.\<close>

definition usub32 :: "nat \<Rightarrow> nat \<Rightarrow> nat" where
  "usub32 n k = u32 (n + 2 ^ 32 - k)"

lemma u32_add_mod: "u32 (m + 4294967296) = u32 m"
  by (simp add: u32_def)

lemma u32_sub:
  assumes "k \<le> n" "n < 4294967296"
  shows "u32 (n + 4294967296 - k) = n - k"
proof -
  from assms have e: "n + 4294967296 - k = (n - k) + 4294967296" and b: "n - k < 4294967296"
    by linarith+
  show ?thesis unfolding e u32_add_mod using b by simp
qed

lemma usub32_le [simp]: "k \<le> n \<Longrightarrow> n < 2 ^ 32 \<Longrightarrow> usub32 n k = n - k"
  using u32_sub [of k n] by (simp add: usub32_def)

lemma usub32_less: "usub32 n k < 2 ^ 32"
  unfolding usub32_def by (rule u32_bound)

text \<open>\<^verbatim>\<open>DIVROUNDUP\<close> and \<^verbatim>\<open>ROUNDUP\<close> of \<^verbatim>\<open>kern/include/lib.h\<close>.\<close>

definition DIVROUNDUP :: "nat \<Rightarrow> nat \<Rightarrow> nat" where
  "DIVROUNDUP a b = u32 (a + b - 1) div b"

definition ROUNDUP :: "nat \<Rightarrow> nat \<Rightarrow> nat" where
  "ROUNDUP a b = u32 (DIVROUNDUP a b * b)"

lemma DIVROUNDUP_exact: "a + b \<le> 2 ^ 32 \<Longrightarrow> 0 < b \<Longrightarrow> DIVROUNDUP a b = (a + b - 1) div b"
  by (simp add: DIVROUNDUP_def)

section \<open>The allocator's answers\<close>

type_synonym kmem = "bool list"

fun mem_take :: "kmem \<Rightarrow> bool \<times> kmem" where
  "mem_take [] = (False, [])"
| "mem_take (b # bs) = (b, bs)"

section \<open>Counting\<close>

text \<open>How often a predicate holds in a list after one entry is replaced.\<close>

definition countP :: "('a \<Rightarrow> bool) \<Rightarrow> 'a list \<Rightarrow> nat" where
  "countP P xs = length (filter P xs)"

lemma countP_Nil [simp]: "countP P [] = 0"
  by (simp add: countP_def)

lemma countP_Cons [simp]: "countP P (x # xs) = (if P x then Suc (countP P xs) else countP P xs)"
  by (simp add: countP_def)

lemma countP_le_length: "countP P xs \<le> length xs"
  by (simp add: countP_def)

lemma countP_update:
  "i < length xs \<Longrightarrow>
   countP P (xs[i := x]) + (if P (xs ! i) then 1 else 0) = countP P xs + (if P x then 1 else 0)"
proof (induction xs arbitrary: i)
  case Nil
  then show ?case by simp
next
  case (Cons y ys)
  show ?case
  proof (cases i)
    case 0
    then show ?thesis by simp
  next
    case (Suc j)
    with Cons.prems have "j < length ys" by simp
    from Cons.IH [OF this] Suc show ?thesis by simp
  qed
qed

lemma countP_pos: "i < length xs \<Longrightarrow> P (xs ! i) \<Longrightarrow> 0 < countP P xs"
  by (auto simp: countP_def filter_empty_conv intro!: nth_mem)

lemma countP_all_length: "countP P xs = length xs \<longleftrightarrow> (\<forall>i < length xs. P (xs ! i))"
proof -
  have "length (filter P xs) = length xs \<longleftrightarrow> (\<forall>x \<in> set xs. P x)"
    by (metis filter_id_conv length_filter_less order_less_irrefl)
  then show ?thesis by (simp add: countP_def all_set_conv_all_nth)
qed

section \<open>Bits of bytes\<close>

lemma mask_and_eq_0: "j < 8 \<Longrightarrow> ((w :: 8 word) AND 2 ^ j = 0) \<longleftrightarrow> \<not> bit w j"
proof -
  assume "j < 8"
  then have "bit (w AND 2 ^ j) i \<longleftrightarrow> i = j \<and> bit w j" for i
    by (auto simp: bit_and_iff bit_exp_iff)
  with \<open>j < 8\<close> show ?thesis using bit_eq_iff [of "w AND 2 ^ j" 0] by simp
qed

lemma bit_or_mask:
  "i < 8 \<Longrightarrow> bit ((w :: 8 word) OR 2 ^ j) i \<longleftrightarrow> bit w i \<or> i = j"
  by (auto simp: bit_or_iff bit_exp_iff)

lemma bit_and_not_mask:
  "i < 8 \<Longrightarrow> bit ((w :: 8 word) AND NOT (2 ^ j)) i \<longleftrightarrow> bit w i \<and> i \<noteq> j"
  by (auto simp: bit_and_iff bit_not_iff bit_exp_iff)

lemma index_split: "(i :: nat) div 8 = k div 8 \<and> i mod 8 = k mod 8 \<longleftrightarrow> i = k"
  by (metis div_mult_mod_eq)

section \<open>Loops with a state\<close>

text \<open>A loop over the elements of a list whose body may stop the program.\<close>

primrec for_each :: "'a list \<Rightarrow> ('a \<Rightarrow> 's \<Rightarrow> 's option) \<Rightarrow> 's \<Rightarrow> 's option" where
  "for_each [] f s = Some s"
| "for_each (x # xs) f s = do { s \<leftarrow> f x s; for_each xs f s }"

lemma for_each_append: "for_each (xs @ ys) f s = do { s \<leftarrow> for_each xs f s; for_each ys f s }"
  by (induction xs arbitrary: s) simp_all

text \<open>An invariant that may mention the elements handled so far.\<close>

lemma for_each_inv:
  assumes "I [] s"
    and "\<And>ys y zs s. xs = ys @ y # zs \<Longrightarrow> I ys s \<Longrightarrow> \<exists>s'. f y s = Some s' \<and> I (ys @ [y]) s'"
  shows "\<exists>s'. for_each xs f s = Some s' \<and> I xs s'"
proof -
  have "\<exists>s'. for_each zs f s = Some s' \<and> I xs s'" if "xs = ys @ zs" "I ys s" for ys zs s
    using that
  proof (induction zs arbitrary: ys s)
    case Nil
    then show ?case by simp
  next
    case (Cons z zs)
    from assms(2) [OF Cons.prems] obtain s1 where s1: "f z s = Some s1" "I (ys @ [z]) s1" by blast
    from Cons.IH [of "ys @ [z]" s1] Cons.prems(1) s1 show ?case by auto
  qed
  from this [of "[]" xs s] assms(1) show ?thesis by simp
qed

lemma upt_split:
  assumes "[a..<b] = ys @ y # zs"
  shows "y = a + length ys" "y < b"
proof -
  have len: "b - a = Suc (length ys + length zs)" using arg_cong [OF assms, of length] by simp
  have "[a..<b] ! length ys = y" by (simp add: assms)
  moreover have "[a..<b] ! length ys = a + length ys" using len by (intro nth_upt) linarith
  ultimately show "y = a + length ys" by simp
  with len show "y < b" by linarith
qed

section \<open>Sequences of calls\<close>

text \<open>The results of a sequence of calls on a state, or \<^const>\<open>None\<close> when one does not return.\<close>

fun run_ops :: "('o \<Rightarrow> 's \<Rightarrow> ('r \<times> 's) option) \<Rightarrow> 'o list \<Rightarrow> 's \<Rightarrow> ('r list \<times> 's) option" where
  "run_ops f [] s = Some ([], s)"
| "run_ops f (op # ops) s =
     do { (r, s) \<leftarrow> f op s; (rs, s) \<leftarrow> run_ops f ops s; Some (r # rs, s) }"

text \<open>
  A step-by-step simulation carries over to sequences: when every call the abstract machine
  \<open>g\<close> allows is answered by \<open>f\<close> with the same result, so is every sequence.
\<close>

lemma run_ops_simulation:
  assumes step: "\<And>op s a r a'. R s a \<Longrightarrow> g op a = Some (r, a') \<Longrightarrow>
      \<exists>s'. f op s = Some (r, s') \<and> R s' a'"
    and "R s a" and "run_ops g ops a = Some (rs, a')"
  shows "\<exists>s'. run_ops f ops s = Some (rs, s') \<and> R s' a'"
  using assms(2,3)
proof (induction ops arbitrary: s a rs)
  case Nil
  then show ?case by simp
next
  case (Cons op ops)
  from Cons.prems(2) obtain r a1 rs1 where one: "g op a = Some (r, a1)"
    and rest: "run_ops g ops a1 = Some (rs1, a')" and rs: "rs = r # rs1"
    by (auto simp: bind_eq_Some_conv)
  from step [OF Cons.prems(1) one] obtain s1 where "f op s = Some (r, s1)" "R s1 a1" by blast
  with Cons.IH [OF _ rest] rs show ?case by fastforce
qed

end
