(* ===== verification/Kern_Bitmap.thy ===== *)
theory Kern_Bitmap
  imports Kern_Prelude
begin

text \<open>
  The fixed-size bit array of \<^verbatim>\<open>kern/lib/bitmap.c\<close>, used for the blocks of an SFS volume and
  for the slots of the swap device.  The bitmap is a byte array, as in the code, and its
  abstraction is the set of marked indices.  The interface its clients rely on is the locale
  \<open>slot_allocator\<close>, interpreted at the end of the theory on the code's operations.
\<close>

section \<open>Model\<close>

record bitmap =
  bm_nbits :: nat
  bm_v :: "8 word list"

definition BITS_PER_WORD :: nat where
  "BITS_PER_WORD = 8"

definition WORD_ALLBITS :: "8 word" where
  "WORD_ALLBITS = 0xff"

text \<open>The loop that marks the bits past the end of the map in its last byte.\<close>

fun bitmap_mark_over :: "8 word list \<Rightarrow> nat \<Rightarrow> nat list \<Rightarrow> 8 word list option" where
  "bitmap_mark_over v ix [] = Some v"
| "bitmap_mark_over v ix (j # js) =
     do { w \<leftarrow> cread v ix;
          v \<leftarrow> cwrite v ix (w OR push_bit j 1);
          bitmap_mark_over v ix js }"

definition bitmap_create :: "nat \<Rightarrow> kmem \<Rightarrow> (bitmap option \<times> kmem) option" where
  "bitmap_create nbits m =
     (let words = DIVROUNDUP nbits BITS_PER_WORD;
          (ok1, m) = mem_take m
      in if \<not> ok1 then Some (None, m)
         else let (ok2, m) = mem_take m
              in if \<not> ok2 then Some (None, m)
                 else let v = replicate words (0 :: 8 word)
                      in if nbits div BITS_PER_WORD < words
                         then let ix = words - 1;
                                  overbits = nbits - ix * BITS_PER_WORD
                              in do { kassert (nbits div BITS_PER_WORD = words - 1);
                                      kassert (0 < overbits \<and> overbits < BITS_PER_WORD);
                                      v \<leftarrow> bitmap_mark_over v ix [overbits..<BITS_PER_WORD];
                                      Some (Some \<lparr>bm_nbits = nbits, bm_v = v\<rparr>, m) }
                         else Some (Some \<lparr>bm_nbits = nbits, bm_v = v\<rparr>, m))"

text \<open>
  The inner loop of \<^verbatim>\<open>bitmap_alloc\<close> over the bits of one byte; falling out of it is the
  \<^verbatim>\<open>KASSERT(0)\<close>.
\<close>

fun bitmap_alloc_bit :: "8 word \<Rightarrow> nat list \<Rightarrow> nat option" where
  "bitmap_alloc_bit w [] = None"
| "bitmap_alloc_bit w (j # js) =
     (if w AND push_bit j 1 = 0 then Some j else bitmap_alloc_bit w js)"

fun bitmap_alloc_ix :: "bitmap \<Rightarrow> nat list \<Rightarrow> ((errno + nat) \<times> bitmap) option" where
  "bitmap_alloc_ix b [] = Some (Inl ENOSPC, b)"
| "bitmap_alloc_ix b (ix # ixs) =
     do { w \<leftarrow> cread (bm_v b) ix;
          if w \<noteq> WORD_ALLBITS
          then do { j \<leftarrow> bitmap_alloc_bit w [0..<BITS_PER_WORD];
                    v \<leftarrow> cwrite (bm_v b) ix (w OR push_bit j 1);
                    let index = ix * BITS_PER_WORD + j;
                    kassert (index < bm_nbits b);
                    Some (Inr index, b\<lparr>bm_v := v\<rparr>) }
          else bitmap_alloc_ix b ixs }"

definition bitmap_alloc :: "bitmap \<Rightarrow> ((errno + nat) \<times> bitmap) option" where
  "bitmap_alloc b = bitmap_alloc_ix b [0..<DIVROUNDUP (bm_nbits b) BITS_PER_WORD]"

definition bitmap_translate :: "nat \<Rightarrow> nat \<times> 8 word" where
  "bitmap_translate bitno = (bitno div BITS_PER_WORD, push_bit (bitno mod BITS_PER_WORD) 1)"

definition bitmap_mark :: "bitmap \<Rightarrow> nat \<Rightarrow> bitmap option" where
  "bitmap_mark b index =
     (let (ix, mask) = bitmap_translate index
      in do { kassert (index < bm_nbits b);
              w \<leftarrow> cread (bm_v b) ix;
              kassert (w AND mask = 0);
              v \<leftarrow> cwrite (bm_v b) ix (w OR mask);
              Some (b\<lparr>bm_v := v\<rparr>) })"

definition bitmap_unmark :: "bitmap \<Rightarrow> nat \<Rightarrow> bitmap option" where
  "bitmap_unmark b index =
     (let (ix, mask) = bitmap_translate index
      in do { kassert (index < bm_nbits b);
              w \<leftarrow> cread (bm_v b) ix;
              kassert (w AND mask \<noteq> 0);
              v \<leftarrow> cwrite (bm_v b) ix (w AND NOT mask);
              Some (b\<lparr>bm_v := v\<rparr>) })"

definition bitmap_isset :: "bitmap \<Rightarrow> nat \<Rightarrow> 8 word option" where
  "bitmap_isset b index =
     (let (ix, mask) = bitmap_translate index
      in do { w \<leftarrow> cread (bm_v b) ix; Some (w AND mask) })"

section \<open>Well-formedness and abstraction\<close>

text \<open>The bit of index \<open>i\<close> in the byte array.\<close>

definition bm_bit :: "bitmap \<Rightarrow> nat \<Rightarrow> bool" where
  "bm_bit b i \<longleftrightarrow> bit (bm_v b ! (i div 8)) (i mod 8)"

text \<open>
  A bitmap is well formed when its array has as many bytes as the bits need and the bits of
  the last byte that are past the end are all marked, so that \<^verbatim>\<open>bitmap_alloc\<close> never hands
  one out.
\<close>

definition bitmap_ok :: "bitmap \<Rightarrow> bool" where
  "bitmap_ok b \<longleftrightarrow>
     bm_nbits b + 8 \<le> 2 ^ 32 \<and> length (bm_v b) = (bm_nbits b + 7) div 8 \<and>
     (\<forall>i. bm_nbits b \<le> i \<longrightarrow> i < 8 * length (bm_v b) \<longrightarrow> bm_bit b i)"

definition bm_marked :: "bitmap \<Rightarrow> nat set" where
  "bm_marked b = {i. i < bm_nbits b \<and> bm_bit b i}"

lemma bitmap_ok_words:
  "bitmap_ok b \<Longrightarrow> DIVROUNDUP (bm_nbits b) BITS_PER_WORD = length (bm_v b)"
  by (simp add: bitmap_ok_def BITS_PER_WORD_def DIVROUNDUP_exact)

lemma bitmap_ok_index: "bitmap_ok b \<Longrightarrow> i < bm_nbits b \<Longrightarrow> i div 8 < length (bm_v b)"
  unfolding bitmap_ok_def by (elim conjE) linarith

lemma all_bits_iff: "(w :: 8 word) = WORD_ALLBITS \<longleftrightarrow> (\<forall>j < 8. bit w j)"
proof -
  have "(WORD_ALLBITS :: 8 word) = mask 8"
    by (simp add: WORD_ALLBITS_def mask_eq_exp_minus_1)
  then show ?thesis
    by (auto simp: bit_eq_iff bit_mask_iff dest: bit_imp_le_length)
qed

lemma div8_mod8_eq: "(i :: nat) = 8 * ix + j \<Longrightarrow> j < 8 \<Longrightarrow> i div 8 = ix \<and> i mod 8 = j"
  by simp

section \<open>Setting and clearing one bit\<close>

text \<open>What a write to the byte of index \<open>k\<close> does to the abstraction.\<close>

definition bm_put :: "bitmap \<Rightarrow> nat \<Rightarrow> bool \<Rightarrow> bitmap" where
  "bm_put b k x =
     b\<lparr>bm_v := (bm_v b)[k div 8 :=
        (if x then bm_v b ! (k div 8) OR push_bit (k mod 8) 1
         else bm_v b ! (k div 8) AND NOT (push_bit (k mod 8) 1))]\<rparr>"

lemma bm_nbits_put [simp]: "bm_nbits (bm_put b k x) = bm_nbits b"
  by (simp add: bm_put_def)

lemma length_bm_put [simp]: "length (bm_v (bm_put b k x)) = length (bm_v b)"
  by (simp add: bm_put_def)

lemma bm_bit_put:
  assumes "k div 8 < length (bm_v b)" and "i div 8 < length (bm_v b)"
  shows "bm_bit (bm_put b k x) i = (if i = k then x else bm_bit b i)"
proof (cases "i div 8 = k div 8")
  case True
  then have "i mod 8 = k mod 8 \<longleftrightarrow> i = k"
    using index_split [of i k] by blast
  with True assms show ?thesis
    by (auto simp: bm_bit_def bm_put_def bit_or_mask bit_and_not_mask)
next
  case False
  then have "i \<noteq> k" by blast
  with False show ?thesis by (simp add: bm_bit_def bm_put_def)
qed

lemma bitmap_ok_put:
  assumes ok: "bitmap_ok b" and k: "k < bm_nbits b"
  shows "bitmap_ok (bm_put b k x)"
proof -
  have "bm_bit (bm_put b k x) i"
    if "bm_nbits b \<le> i" and "i < 8 * length (bm_v b)" for i
  proof -
    from that have "i div 8 < length (bm_v b)" and "i \<noteq> k"
      using k by auto
    with that have "bm_bit (bm_put b k x) i = bm_bit b i"
      by (simp add: bm_bit_put bitmap_ok_index [OF ok k])
    with that ok show ?thesis by (simp add: bitmap_ok_def)
  qed
  with ok show ?thesis by (simp add: bitmap_ok_def)
qed

lemma bm_marked_put:
  assumes ok: "bitmap_ok b" and k: "k < bm_nbits b"
  shows "bm_marked (bm_put b k x) =
     (if x then insert k (bm_marked b) else bm_marked b - {k})"
  using k by (auto simp: bm_marked_def bm_bit_put bitmap_ok_index [OF ok] split: if_splits)

lemma bitmap_mark_eq:
  assumes ok: "bitmap_ok b" and k: "k < bm_nbits b"
  shows "bitmap_mark b k = (if k \<in> bm_marked b then None else Some (bm_put b k True))"
  using k bitmap_ok_index [OF ok k]
  by (simp add: bitmap_mark_def bitmap_translate_def BITS_PER_WORD_def mask_and_eq_0
      bm_marked_def bm_bit_def bm_put_def)

lemma bitmap_unmark_eq:
  assumes ok: "bitmap_ok b" and k: "k < bm_nbits b"
  shows "bitmap_unmark b k = (if k \<in> bm_marked b then Some (bm_put b k False) else None)"
  using k bitmap_ok_index [OF ok k]
  by (simp add: bitmap_unmark_def bitmap_translate_def BITS_PER_WORD_def mask_and_eq_0
      bm_marked_def bm_bit_def bm_put_def)

section \<open>Allocation\<close>

lemma bitmap_alloc_bit_Some:
  "bitmap_alloc_bit w [i..<8] = Some j \<Longrightarrow>
   i \<le> j \<and> j < 8 \<and> \<not> bit w j \<and> (\<forall>l. i \<le> l \<and> l < j \<longrightarrow> bit w l)"
proof (induction "8 - i" arbitrary: i)
  case 0
  then show ?case by simp
next
  case (Suc n)
  then have lt: "i < 8" by simp
  then have step: "[i..<8] = i # [Suc i..<8]" by (rule upt_conv_Cons)
  show ?case
  proof (cases "bit w i")
    case False
    with Suc.prems lt step show ?thesis by (auto simp: mask_and_eq_0)
  next
    case True
    with Suc.prems lt step have "bitmap_alloc_bit w [Suc i..<8] = Some j"
      by (simp add: mask_and_eq_0)
    from Suc.hyps(1) [OF _ this] Suc.hyps(2) True show ?thesis
      by (metis Suc_diff_Suc Suc_leD diff_Suc_1' le_neq_implies_less lt not_less_eq_eq
          nat_less_le Suc_leI)
  qed
qed

lemma bitmap_alloc_bit_None:
  "bitmap_alloc_bit w js = None \<longleftrightarrow> (\<forall>j \<in> set js. w AND push_bit j 1 \<noteq> 0)"
  by (induction js) auto

lemma bitmap_alloc_bit_found:
  assumes "(w :: 8 word) \<noteq> WORD_ALLBITS"
  obtains j where "bitmap_alloc_bit w [0..<8] = Some j" and "j < 8" and "\<not> bit w j"
    and "\<forall>l < j. bit w l"
proof -
  from assms have "\<exists>j < 8. \<not> bit w j" by (simp add: all_bits_iff)
  then have "bitmap_alloc_bit w [0..<8] \<noteq> None"
    by (auto simp: bitmap_alloc_bit_None mask_and_eq_0)
  then obtain j where "bitmap_alloc_bit w [0..<8] = Some j" by blast
  with bitmap_alloc_bit_Some [OF this] that show ?thesis by blast
qed

lemma bitmap_alloc_ix_spec:
  assumes ok: "bitmap_ok b"
    and below: "\<forall>i. i < 8 * ix \<longrightarrow> i < bm_nbits b \<longrightarrow> bm_bit b i"
    and ix: "ix \<le> length (bm_v b)"
  shows "(\<exists>i < bm_nbits b. \<not> bm_bit b i \<and> (\<forall>l < i. bm_bit b l) \<and>
            bitmap_alloc_ix b [ix..<length (bm_v b)] = Some (Inr i, bm_put b i True))
       \<or> ((\<forall>i < bm_nbits b. bm_bit b i) \<and>
            bitmap_alloc_ix b [ix..<length (bm_v b)] = Some (Inl ENOSPC, b))"
  using below ix
proof (induction "length (bm_v b) - ix" arbitrary: ix)
  case 0
  then have "ix = length (bm_v b)" by simp
  moreover from 0 ok have "\<forall>i < bm_nbits b. bm_bit b i"
    using bitmap_ok_index [OF ok] by (simp add: div_less_iff_less_mult mult.commute)
  ultimately show ?case by simp
next
  case (Suc n)
  then have lt: "ix < length (bm_v b)" by simp
  then have step: "[ix..<length (bm_v b)] = ix # [Suc ix..<length (bm_v b)]"
    by (rule upt_conv_Cons)
  let ?w = "bm_v b ! ix"
  show ?case
  proof (cases "?w = WORD_ALLBITS")
    case True
    have "\<forall>i. i < 8 * Suc ix \<longrightarrow> i < bm_nbits b \<longrightarrow> bm_bit b i"
    proof (intro allI impI)
      fix i assume i: "i < 8 * Suc ix" "i < bm_nbits b"
      show "bm_bit b i"
      proof (cases "i < 8 * ix")
        case True
        with Suc.prems(1) i show ?thesis by blast
      next
        case False
        with i have "i div 8 = ix" by simp
        with \<open>?w = WORD_ALLBITS\<close> show ?thesis by (simp add: bm_bit_def all_bits_iff)
      qed
    qed
    with Suc.hyps(1) [of "Suc ix"] Suc.hyps(2) lt
    have "(\<exists>i < bm_nbits b. \<not> bm_bit b i \<and> (\<forall>l < i. bm_bit b l) \<and>
            bitmap_alloc_ix b [Suc ix..<length (bm_v b)] = Some (Inr i, bm_put b i True))
       \<or> ((\<forall>i < bm_nbits b. bm_bit b i) \<and>
            bitmap_alloc_ix b [Suc ix..<length (bm_v b)] = Some (Inl ENOSPC, b))"
      by (simp add: less_eq_Suc_le)
    with True lt step show ?thesis by simp
  next
    case False
    then obtain j where j: "bitmap_alloc_bit ?w [0..<8] = Some j" "j < 8" "\<not> bit ?w j"
      and least: "\<forall>l < j. bit ?w l"
      by (rule bitmap_alloc_bit_found)
    let ?i = "ix * 8 + j"
    have dm: "?i div 8 = ix" "?i mod 8 = j" using j(2) by simp_all
    have nb: "\<not> bm_bit b ?i" using j(3) dm by (simp add: bm_bit_def)
    have "?i < 8 * length (bm_v b)" using lt j(2) by simp
    with nb ok have inb: "?i < bm_nbits b"
      unfolding bitmap_ok_def by (meson not_less)
    have first: "\<forall>l < ?i. bm_bit b l"
    proof (intro allI impI)
      fix l assume l: "l < ?i"
      show "bm_bit b l"
      proof (cases "l < 8 * ix")
        case True
        with Suc.prems(1) l inb show ?thesis by auto
      next
        case False
        then obtain d where "l = 8 * ix + d" by (metis le_add_diff_inverse not_less)
        with l j(2) have "l div 8 = ix" "l mod 8 < j" by simp_all
        with least show ?thesis by (simp add: bm_bit_def)
      qed
    qed
    have "bitmap_alloc_ix b [ix..<length (bm_v b)] = Some (Inr ?i, bm_put b ?i True)"
      using step lt False j(1) inb dm by (simp add: BITS_PER_WORD_def bm_put_def)
    with inb nb first show ?thesis by blast
  qed
qed

text \<open>The whole allocator: the first clear bit, or \<^verbatim>\<open>ENOSPC\<close> and no change.\<close>

lemma bitmap_alloc_cases:
  assumes ok: "bitmap_ok b"
  obtains (found) i where "i < bm_nbits b" and "i \<notin> bm_marked b" and "{..<i} \<subseteq> bm_marked b"
      and "bitmap_alloc b = Some (Inr i, bm_put b i True)"
  | (full) "bm_marked b = {..<bm_nbits b}" and "bitmap_alloc b = Some (Inl ENOSPC, b)"
proof -
  from bitmap_alloc_ix_spec [OF ok, of 0]
  have "(\<exists>i < bm_nbits b. \<not> bm_bit b i \<and> (\<forall>l < i. bm_bit b l) \<and>
            bitmap_alloc b = Some (Inr i, bm_put b i True))
       \<or> ((\<forall>i < bm_nbits b. bm_bit b i) \<and> bitmap_alloc b = Some (Inl ENOSPC, b))"
    by (simp add: bitmap_alloc_def bitmap_ok_words [OF ok])
  then show ?thesis
  proof (elim disjE exE conjE)
    fix i assume "i < bm_nbits b" "\<not> bm_bit b i" "\<forall>l < i. bm_bit b l"
      "bitmap_alloc b = Some (Inr i, bm_put b i True)"
    then show ?thesis by (intro found [of i]) (auto simp: bm_marked_def)
  next
    assume "\<forall>i < bm_nbits b. bm_bit b i" "bitmap_alloc b = Some (Inl ENOSPC, b)"
    then show ?thesis by (intro full) (auto simp: bm_marked_def)
  qed
qed

section \<open>The interface of a slot allocator\<close>

text \<open>
  What the swap code and the SFS block allocator rely on: \<open>alloc\<close> returns the least index
  that is not in use and fails with \<^verbatim>\<open>ENOSPC\<close> exactly when there is none; \<open>free\<close> gives back
  an index in use.  Neither call panics.
\<close>

locale slot_allocator =
  fixes inv :: "'b \<Rightarrow> bool"
    and used :: "'b \<Rightarrow> nat set"
    and cap :: "'b \<Rightarrow> nat"
    and alloc :: "'b \<Rightarrow> ((errno + nat) \<times> 'b) option"
    and free :: "'b \<Rightarrow> nat \<Rightarrow> 'b option"
  assumes used_bound: "inv b \<Longrightarrow> used b \<subseteq> {..<cap b}"
    and alloc_free_slot: "inv b \<Longrightarrow> used b \<noteq> {..<cap b} \<Longrightarrow>
      \<exists>i b'. alloc b = Some (Inr i, b') \<and> i < cap b \<and> i \<notin> used b \<and> {..<i} \<subseteq> used b \<and>
             inv b' \<and> cap b' = cap b \<and> used b' = insert i (used b)"
    and alloc_full: "inv b \<Longrightarrow> used b = {..<cap b} \<Longrightarrow> alloc b = Some (Inl ENOSPC, b)"
    and free_used: "inv b \<Longrightarrow> i \<in> used b \<Longrightarrow>
      \<exists>b'. free b i = Some b' \<and> inv b' \<and> cap b' = cap b \<and> used b' = used b - {i}"
begin

lemma alloc_cases:
  assumes "inv b"
  obtains (ok) i b' where "alloc b = Some (Inr i, b')" "i < cap b" "i \<notin> used b"
      "{..<i} \<subseteq> used b" "inv b'" "cap b' = cap b" "used b' = insert i (used b)"
  | (full) "alloc b = Some (Inl ENOSPC, b)" "used b = {..<cap b}"
  using alloc_free_slot [OF assms] alloc_full [OF assms] by metis

lemma alloc_returns: "inv b \<Longrightarrow> \<exists>r b'. alloc b = Some (r, b') \<and> inv b' \<and> cap b' = cap b"
  by (cases b rule: alloc_cases) simp_all

lemma finite_used: "inv b \<Longrightarrow> finite (used b)"
  using used_bound finite_subset by blast

lemma alloc_error_iff:
  assumes inv: "inv b" and r: "alloc b = Some (r, b')"
  shows "r = Inl ENOSPC \<longleftrightarrow> card (used b) = cap b"
  using inv
proof (cases b rule: alloc_cases)
  case (ok i b'')
  with used_bound [OF inv] have "used b \<subset> {..<cap b}" by blast
  then have "card (used b) < cap b"
    using psubset_card_mono [of "{..<cap b}" "used b"] by simp
  moreover from r ok(1) have "r = Inr i" by simp
  ultimately show ?thesis by simp
next
  case full
  with r show ?thesis by simp
qed

text \<open>Freeing what was just allocated gives back the same set of slots.\<close>

lemma alloc_then_free:
  assumes inv: "inv b" and r: "alloc b = Some (Inr i, b')"
  shows "\<exists>b''. free b' i = Some b'' \<and> inv b'' \<and> used b'' = used b"
  using inv
proof (cases b rule: alloc_cases)
  case (ok k c)
  with r have "inv b'" "i \<in> used b'" "used b' - {i} = used b" by auto
  with free_used [of b' i] show ?thesis by auto
next
  case full
  with r show ?thesis by simp
qed

end

interpretation bm: slot_allocator bitmap_ok bm_marked bm_nbits bitmap_alloc bitmap_unmark
proof unfold_locales
  fix b assume "bitmap_ok b"
  show "bm_marked b \<subseteq> {..<bm_nbits b}" by (auto simp: bm_marked_def)
next
  fix b assume ok: "bitmap_ok b" and "bm_marked b \<noteq> {..<bm_nbits b}"
  from ok show "\<exists>i b'. bitmap_alloc b = Some (Inr i, b') \<and> i < bm_nbits b \<and> i \<notin> bm_marked b \<and>
      {..<i} \<subseteq> bm_marked b \<and> bitmap_ok b' \<and> bm_nbits b' = bm_nbits b \<and>
      bm_marked b' = insert i (bm_marked b)"
  proof (cases rule: bitmap_alloc_cases)
    case (found i)
    then show ?thesis using ok by (auto simp: bitmap_ok_put bm_marked_put)
  next
    case full
    with \<open>bm_marked b \<noteq> _\<close> show ?thesis by blast
  qed
next
  fix b assume ok: "bitmap_ok b" and "bm_marked b = {..<bm_nbits b}"
  from ok show "bitmap_alloc b = Some (Inl ENOSPC, b)"
    by (cases rule: bitmap_alloc_cases) (use \<open>bm_marked b = _\<close> in auto)
next
  fix b i assume ok: "bitmap_ok b" and i: "i \<in> bm_marked b"
  then have "i < bm_nbits b" by (simp add: bm_marked_def)
  with ok i show "\<exists>b'. bitmap_unmark b i = Some b' \<and> bitmap_ok b' \<and> bm_nbits b' = bm_nbits b \<and>
      bm_marked b' = bm_marked b - {i}"
    by (simp add: bitmap_unmark_eq bitmap_ok_put bm_marked_put)
qed

section \<open>Creation\<close>

lemma bitmap_mark_over_spec:
  assumes "ix < length v" and "\<forall>j \<in> set js. j < 8"
  shows "\<exists>w. bitmap_mark_over v ix js = Some (v[ix := w]) \<and>
     (\<forall>j < 8. bit w j \<longleftrightarrow> bit (v ! ix) j \<or> j \<in> set js)"
  using assms
proof (induction js arbitrary: v)
  case Nil
  have "bitmap_mark_over v ix [] = Some (v[ix := v ! ix])" by simp
  then show ?case by (intro exI [of _ "v ! ix"]) simp
next
  case (Cons j js)
  let ?v = "v[ix := v ! ix OR push_bit j 1]"
  from Cons.IH [of ?v] Cons.prems obtain w where
    w: "bitmap_mark_over ?v ix js = Some (?v[ix := w])"
      "\<forall>l < 8. bit w l \<longleftrightarrow> bit (?v ! ix) l \<or> l \<in> set js"
    by auto
  then have "bitmap_mark_over v ix (j # js) = Some (v[ix := w])"
    using Cons.prems by simp
  moreover have "\<forall>l < 8. bit w l \<longleftrightarrow> bit (v ! ix) l \<or> l \<in> set (j # js)"
    using w(2) Cons.prems by (auto simp: bit_or_mask)
  ultimately show ?case by blast
qed

lemma bytes_needed_cases:
  fixes n :: nat
  obtains (exact) k where "n = 8 * k" "(n + 7) div 8 = k" "n div 8 = k"
  | (over) k r where "n = 8 * k + r" "0 < r" "r < 8" "(n + 7) div 8 = Suc k" "n div 8 = k"
proof (cases "n mod 8 = 0")
  case True
  then obtain k where "n = 8 * k" by (auto elim: dvdE)
  then show ?thesis using exact [of k] by simp
next
  case False
  define k r where "k = n div 8" and "r = n mod 8"
  then have n: "n = 8 * k + r" and r: "0 < r" "r < 8" using False by simp_all
  then have "(n + 7) div 8 = Suc k" by simp
  with n r show ?thesis by (rule over) (simp add: k_def)
qed

lemma over_index:
  "(i :: nat) div 8 = k \<Longrightarrow> 8 * k + r \<le> i \<longleftrightarrow> r \<le> i mod 8"
  by (metis add_le_cancel_left mult_div_mod_eq)

lemma bitmap_create_Some:
  assumes n: "nbits + 8 \<le> 2 ^ 32" and m: "mem_take m = (True, m1)" "mem_take m1 = (True, m2)"
  shows "\<exists>b. bitmap_create nbits m = Some (Some b, m2) \<and> bitmap_ok b \<and>
     bm_nbits b = nbits \<and> bm_marked b = {}"
proof -
  have words: "DIVROUNDUP nbits 8 = (nbits + 7) div 8"
    using n by (simp add: DIVROUNDUP_exact)
  show ?thesis
  proof (cases nbits rule: bytes_needed_cases)
    case (exact k)
    let ?b = "\<lparr>bm_nbits = nbits, bm_v = replicate k 0\<rparr>"
    have "bitmap_create nbits m = Some (Some ?b, m2)"
      using m by (simp add: bitmap_create_def words BITS_PER_WORD_def exact(2,3))
    moreover have "bitmap_ok ?b" using n exact by (simp add: bitmap_ok_def)
    moreover have "bm_marked ?b = {}"
      using exact by (auto simp: bm_marked_def bm_bit_def)
    ultimately show ?thesis by (intro exI [of _ ?b]) simp
  next
    case (over k r)
    from over(1) have "nbits - k * 8 = r" by simp
    from bitmap_mark_over_spec [of k "replicate (Suc k) (0 :: 8 word)" "[r..<8]"] over
    obtain w where w: "bitmap_mark_over (replicate (Suc k) 0) k [r..<8]
         = Some ((replicate (Suc k) 0)[k := w])"
      and wb: "\<forall>j < 8. bit w j \<longleftrightarrow> r \<le> j"
      by (auto simp del: replicate_Suc)
    let ?b = "\<lparr>bm_nbits = nbits, bm_v = (replicate (Suc k) 0)[k := w]\<rparr>"
    have create: "bitmap_create nbits m = Some (Some ?b, m2)"
      using m over(2,3) w \<open>nbits - k * 8 = r\<close>
      by (simp add: bitmap_create_def words BITS_PER_WORD_def over(4,5) del: replicate_Suc)
    have bits: "bm_bit ?b i \<longleftrightarrow> nbits \<le> i" if "i div 8 < Suc k" for i
    proof (cases "i div 8 = k")
      case True
      with wb over(1) show ?thesis
        by (simp add: bm_bit_def over_index del: replicate_Suc)
    next
      case False
      with that over(1) have "i < nbits" by linarith
      with False that show ?thesis
        by (simp add: bm_bit_def nth_list_update del: replicate_Suc)
    qed
    have "bitmap_ok ?b"
      using n bits over(4) by (auto simp: bitmap_ok_def simp del: replicate_Suc)
    moreover have "bm_marked ?b = {}"
    proof -
      have "i div 8 < Suc k" if "i < nbits" for i using that over by linarith
      with bits show ?thesis by (fastforce simp: bm_marked_def)
    qed
    ultimately show ?thesis using create by (intro exI [of _ ?b]) simp
  qed
qed

section \<open>Refinement of the set of marked indices\<close>

text \<open>
  A client's calls on a bitmap and their results, run on the code's bitmap and on the abstract
  set.  The set is \<open>None\<close> on a call that breaks the contract: marking a marked bit, unmarking
  an unmarked one, or an index past the end.
\<close>

datatype bmop = BAlloc | BMark nat | BUnmark nat | BIsset nat

datatype bmres = RAlloc "errno + nat" | RUnit | RSet bool

definition bitmap_do :: "bmop \<Rightarrow> bitmap \<Rightarrow> (bmres \<times> bitmap) option" where
  "bitmap_do op b = (case op of
     BAlloc \<Rightarrow> do { (r, b) \<leftarrow> bitmap_alloc b; Some (RAlloc r, b) }
   | BMark i \<Rightarrow> do { b \<leftarrow> bitmap_mark b i; Some (RUnit, b) }
   | BUnmark i \<Rightarrow> do { b \<leftarrow> bitmap_unmark b i; Some (RUnit, b) }
   | BIsset i \<Rightarrow> do { w \<leftarrow> bitmap_isset b i; Some (RSet (w \<noteq> 0), b) })"

definition set_do :: "nat \<Rightarrow> bmop \<Rightarrow> nat set \<Rightarrow> (bmres \<times> nat set) option" where
  "set_do n op S = (case op of
     BAlloc \<Rightarrow> (case find (\<lambda>i. i \<notin> S) [0..<n] of
                  None \<Rightarrow> Some (RAlloc (Inl ENOSPC), S)
                | Some i \<Rightarrow> Some (RAlloc (Inr i), insert i S))
   | BMark i \<Rightarrow> if i < n \<and> i \<notin> S then Some (RUnit, insert i S) else None
   | BUnmark i \<Rightarrow> if i < n \<and> i \<in> S then Some (RUnit, S - {i}) else None
   | BIsset i \<Rightarrow> if i < n then Some (RSet (i \<in> S), S) else None)"

lemma find_first_free:
  assumes "i < n" "i \<notin> S" "{..<i} \<subseteq> S"
  shows "find (\<lambda>i. i \<notin> S) [0..<n] = Some i"
  unfolding find_Some_iff using assms by (intro exI [of _ i]) auto

lemma bitmap_do_refines:
  assumes ok: "bitmap_ok b" and spec: "set_do (bm_nbits b) op (bm_marked b) = Some (r, S)"
  shows "\<exists>b'. bitmap_do op b = Some (r, b') \<and> bitmap_ok b' \<and> bm_nbits b' = bm_nbits b \<and>
     bm_marked b' = S"
proof (cases op)
  case BAlloc
  from ok show ?thesis
  proof (cases b rule: bm.alloc_cases)
    case (ok i b')
    then show ?thesis using spec BAlloc
      by (simp add: set_do_def bitmap_do_def find_first_free)
  next
    case full
    then have "find (\<lambda>i. i \<notin> bm_marked b) [0..<bm_nbits b] = None"
      by (auto simp: find_None_iff)
    with full ok spec BAlloc show ?thesis by (simp add: set_do_def bitmap_do_def)
  qed
next
  case (BMark i)
  with spec ok show ?thesis
    by (auto simp: set_do_def bitmap_do_def bitmap_mark_eq bitmap_ok_put bm_marked_put
        split: if_splits)
next
  case (BUnmark i)
  with spec ok show ?thesis
    by (auto simp: set_do_def bitmap_do_def bitmap_unmark_eq bitmap_ok_put bm_marked_put
        split: if_splits)
next
  case (BIsset i)
  with spec ok bitmap_ok_index [OF ok, of i] show ?thesis
    by (auto simp: set_do_def bitmap_do_def bitmap_isset_def bitmap_translate_def
        BITS_PER_WORD_def mask_and_eq_0 bm_marked_def bm_bit_def split: if_splits)
qed

lemma bitmap_run_refines:
  assumes "bitmap_ok b" and "run_ops (set_do (bm_nbits b)) ops (bm_marked b) = Some (rs, S)"
  shows "\<exists>b'. run_ops bitmap_do ops b = Some (rs, b') \<and> bitmap_ok b' \<and> bm_marked b' = S"
proof -
  let ?R = "\<lambda>c T. bitmap_ok c \<and> bm_nbits c = bm_nbits b \<and> bm_marked c = T"
  have "\<exists>c'. run_ops bitmap_do ops b = Some (rs, c') \<and> ?R c' S"
  proof (rule run_ops_simulation [where R = ?R and g = "set_do (bm_nbits b)"])
    fix op c T r T'
    assume "?R c T" "set_do (bm_nbits b) op T = Some (r, T')"
    with bitmap_do_refines [of c op r T']
    show "\<exists>c'. bitmap_do op c = Some (r, c') \<and> ?R c' T'" by auto
  qed (use assms in auto)
  then show ?thesis by blast
qed

section \<open>Properties\<close>

text \<open>
  C3. A bitmap made by \<^verbatim>\<open>bitmap_create\<close> behaves, over any sequence of \<^verbatim>\<open>bitmap_alloc\<close>,
  \<^verbatim>\<open>bitmap_mark\<close>, \<^verbatim>\<open>bitmap_unmark\<close> and \<^verbatim>\<open>bitmap_isset\<close> calls that respects the contract, as the
  set of marked indices, which is empty at first: the results are those of the set (the least
  free index, or \<^verbatim>\<open>ENOSPC\<close> when there is none) and no assertion of the code fails.
\<close>

theorem bitmap_refines_set:
  assumes "bitmap_create nbits m = Some (Some b, m')" and "nbits + 8 \<le> 2 ^ 32"
    and "run_ops (set_do nbits) ops {} = Some (rs, S)"
  shows "\<exists>b'. run_ops bitmap_do ops b = Some (rs, b') \<and> bm_marked b' = S"
proof -
  from assms(1) obtain m1 where "mem_take m = (True, m1)" "mem_take m1 = (True, m')"
    by (auto simp: bitmap_create_def Let_def bind_eq_Some_conv split: prod.splits if_splits)
  from bitmap_create_Some [OF assms(2) this] assms(1)
  have "bitmap_ok b" "bm_nbits b = nbits" "bm_marked b = {}" by auto
  with bitmap_run_refines [of b ops rs S] assms(3) show ?thesis by auto
qed

theorem bitmap_refines_set_witness:
  "\<exists>b'. run_ops bitmap_do [BMark 0, BAlloc, BUnmark 0, BAlloc, BIsset 9]
      \<lparr>bm_nbits = 10, bm_v = [0, 0xfc]\<rparr>
    = Some ([RUnit, RAlloc (Inr 1), RUnit, RAlloc (Inr 0), RSet False], b') \<and> bm_marked b' = {0, 1}"
proof (rule bitmap_refines_set [where m = "[True, True]" and m' = "[]" and nbits = 10])
  show "bitmap_create 10 [True, True] = Some (Some \<lparr>bm_nbits = 10, bm_v = [0, 0xfc]\<rparr>, [])"
    by (simp add: bitmap_create_def BITS_PER_WORD_def DIVROUNDUP_exact upt_rec)
      (simp add: numeral_2_eq_2)
qed (simp_all add: set_do_def upt_rec insert_commute)

end
