(* ===== verification/Kern_Array.thy ===== *)
theory Kern_Array
  imports Kern_Prelude
begin

text \<open>
  The resizable pointer array of \<^verbatim>\<open>kern/lib/array.c\<close> and \<^verbatim>\<open>kern/include/array.h\<close>, with assertion
  checking on (\<^verbatim>\<open>ARRAYS_CHECKED\<close>).  An element that was never stored is \<^const>\<open>None\<close> in the
  backing block; what the code would read from it is not modelled, so reading it has no result.
  The block's real size is that of the \<^verbatim>\<open>kmalloc\<close> request, which is computed in 32 bits.
\<close>

section \<open>Model\<close>

record 'a array =
  arr_v :: "'a option list"
  arr_num :: nat
  arr_max :: nat

definition array_init :: "'a array" where
  "array_init = \<lparr>arr_v = [], arr_num = 0, arr_max = 0\<rparr>"

definition array_create :: "kmem \<Rightarrow> 'a array option \<times> kmem" where
  "array_create m = (let (ok, m) = mem_take m in (if ok then Some array_init else None, m))"

definition array_cleanup :: "'a array \<Rightarrow> 'a array option" where
  "array_cleanup a = do { kassert (arr_num a = 0); Some (a\<lparr>arr_v := []\<rparr>) }"

definition array_destroy :: "'a array \<Rightarrow> unit option" where
  "array_destroy a = do { array_cleanup a; Some () }"

definition array_num :: "'a array \<Rightarrow> nat" where
  "array_num a = arr_num a"

definition array_get :: "'a array \<Rightarrow> nat \<Rightarrow> 'a option" where
  "array_get a index =
     do { kassert (index < arr_num a); x \<leftarrow> cread (arr_v a) index; x }"

definition array_set :: "'a array \<Rightarrow> nat \<Rightarrow> 'a \<Rightarrow> 'a array option" where
  "array_set a index val =
     do { kassert (index < arr_num a);
          v \<leftarrow> cwrite (arr_v a) index (Some val);
          Some (a\<lparr>arr_v := v\<rparr>) }"

text \<open>
  The doubling loop.  Its arithmetic is that of \<^verbatim>\<open>unsigned\<close>, so for a request above \<open>2 ^ 31\<close>
  it never ends: \<^const>\<open>None\<close> is then the value of the loop.
\<close>

partial_function (option) array_newmax :: "nat \<Rightarrow> nat \<Rightarrow> nat option" where
  "array_newmax num newmax =
     (if newmax < num
      then array_newmax num (if newmax \<noteq> 0 then u32 (newmax * 2) else 4)
      else Some newmax)"

definition array_preallocate ::
    "'a array \<Rightarrow> nat \<Rightarrow> kmem \<Rightarrow> ((errno + unit) \<times> 'a array \<times> kmem) option" where
  "array_preallocate a num m =
     (if arr_max a < num
      then do {
        newmax \<leftarrow> array_newmax num (arr_max a);
        let (ok, m) = mem_take m;
        if \<not> ok then Some (Inl ENOMEM, a, m)
        else do {
          let n = u32 (newmax * 4) div 4;
          kassert (arr_num a \<le> n \<and> arr_num a \<le> length (arr_v a));
          let newptr = take (arr_num a) (arr_v a) @ replicate (n - arr_num a) None;
          Some (Inr (), a\<lparr>arr_v := newptr, arr_max := newmax\<rparr>, m) } }
      else Some (Inr (), a, m))"

definition array_setsize ::
    "'a array \<Rightarrow> nat \<Rightarrow> kmem \<Rightarrow> ((errno + unit) \<times> 'a array \<times> kmem) option" where
  "array_setsize a num m =
     do { (result, a, m) \<leftarrow> array_preallocate a num m;
          case result of
            Inl e \<Rightarrow> Some (Inl e, a, m)
          | Inr _ \<Rightarrow> Some (Inr (), a\<lparr>arr_num := num\<rparr>, m) }"

definition array_add ::
    "'a array \<Rightarrow> 'a \<Rightarrow> kmem \<Rightarrow> ((errno + nat) \<times> 'a array \<times> kmem) option" where
  "array_add a val m =
     do { let index = arr_num a;
          (ret, a, m) \<leftarrow> array_setsize a (u32 (index + 1)) m;
          case ret of
            Inl e \<Rightarrow> Some (Inl e, a, m)
          | Inr _ \<Rightarrow> do { v \<leftarrow> cwrite (arr_v a) index (Some val);
                         Some (Inr index, a\<lparr>arr_v := v\<rparr>, m) } }"

definition array_remove :: "'a array \<Rightarrow> nat \<Rightarrow> 'a array option" where
  "array_remove a index =
     do { kassert (arr_num a \<le> arr_max a);
          kassert (index < arr_num a);
          let num_to_move = arr_num a - (index + 1);
          kassert (index + 1 + num_to_move \<le> length (arr_v a));
          let v = take index (arr_v a) @ take num_to_move (drop (index + 1) (arr_v a))
                  @ drop (index + num_to_move) (arr_v a);
          Some (a\<lparr>arr_v := v, arr_num := arr_num a - 1\<rparr>) }"

section \<open>The doubling loop\<close>

text \<open>The capacities the loop goes through: 0, or 4 doubled some number of times.\<close>

definition is_cap :: "nat \<Rightarrow> bool" where
  "is_cap n \<longleftrightarrow> n = 0 \<or> (\<exists>k \<le> 29. n = 2 ^ (k + 2))"

lemma pow2_le: "k \<le> j \<Longrightarrow> (2 :: nat) ^ k \<le> 2 ^ j"
  by (rule power_increasing) simp_all

lemma pow2_less_imp: "(2 :: nat) ^ k < 2 ^ j \<Longrightarrow> k < j"
  by (rule power_less_imp_less_exp [of 2]) simp_all

lemma is_cap_next:
  assumes "is_cap n" and "n < num" and "num \<le> 2 ^ 31"
  shows "is_cap (if n \<noteq> 0 then u32 (n * 2) else 4)"
    and "n < (if n \<noteq> 0 then u32 (n * 2) else 4)"
    and "n \<noteq> 0 \<Longrightarrow> u32 (n * 2) = 2 * n"
proof -
  have small: "\<exists>k \<le> 28. n = 2 ^ (k + 2)" if "n \<noteq> 0"
  proof -
    from that assms(1) obtain k where k: "k \<le> 29" "n = 2 ^ (k + 2)" by (auto simp: is_cap_def)
    with assms have "(2 :: nat) ^ (k + 2) < 2 ^ 31" by simp
    then have "k + 2 < 31" by (rule pow2_less_imp)
    with k show ?thesis by (intro exI [of _ k]) simp
  qed
  then have "n \<le> 2 ^ 30" using pow2_le [of _ 28] by (cases "n = 0") auto
  then have u: "u32 (n * 2) = 2 * n" by (simp add: u32_def)
  then show "n \<noteq> 0 \<Longrightarrow> u32 (n * 2) = 2 * n" by simp
  show "n < (if n \<noteq> 0 then u32 (n * 2) else 4)" using u by simp
  show "is_cap (if n \<noteq> 0 then u32 (n * 2) else 4)"
  proof (cases "n = 0")
    case True
    have "(4 :: nat) = 2 ^ (0 + 2)" by simp
    with True show ?thesis unfolding is_cap_def by force
  next
    case False
    with small obtain k where "k \<le> 28" "n = 2 ^ (k + 2)" by blast
    then have "Suc k \<le> 29" "2 * n = 2 ^ (Suc k + 2)" by simp_all
    then have "is_cap (2 * n)" unfolding is_cap_def by blast
    with u False show ?thesis by simp
  qed
qed

text \<open>The loop ends for every request up to \<open>2 ^ 31\<close>, with less than twice what was asked.\<close>

lemma array_newmax_returns:
  assumes "is_cap n" and "num \<le> 2 ^ 31"
  shows "\<exists>y. array_newmax num n = Some y \<and> is_cap y \<and> num \<le> y \<and> n \<le> y \<and>
     (y = n \<or> y = 4 \<or> y < 2 * num)"
  using assms(1)
proof (induction "num - n" arbitrary: n rule: less_induct)
  case less
  show ?case
  proof (cases "n < num")
    case False
    with less.prems show ?thesis by (simp add: array_newmax.simps)
  next
    case True
    let ?n = "if n \<noteq> 0 then u32 (n * 2) else 4"
    note nxt = is_cap_next [OF less.prems True assms(2)]
    from True nxt have "num - ?n < num - n" by simp
    from less.hyps [OF this nxt(1)] obtain y where
      y: "array_newmax num ?n = Some y" "is_cap y" "num \<le> y" "?n \<le> y"
        "y = ?n \<or> y = 4 \<or> y < 2 * num" by blast
    moreover have "array_newmax num n = array_newmax num ?n"
      using True by (subst array_newmax.simps) simp
    moreover have "y = n \<or> y = 4 \<or> y < 2 * num"
      using y(5) nxt(3) True by (auto split: if_splits)
    moreover have "n \<le> y" using nxt(2) y(4) by simp
    ultimately show ?thesis by auto
  qed
qed

section \<open>Well-formedness and abstraction\<close>

definition array_ok :: "'a array \<Rightarrow> bool" where
  "array_ok a \<longleftrightarrow> is_cap (arr_max a) \<and> arr_max a \<le> 2 ^ 29 \<and> length (arr_v a) = arr_max a \<and>
     arr_num a \<le> arr_max a"

definition arr_abs :: "'a array \<Rightarrow> 'a option list" where
  "arr_abs a = take (arr_num a) (arr_v a)"

lemma length_arr_abs: "array_ok a \<Longrightarrow> length (arr_abs a) = arr_num a"
  by (simp add: array_ok_def arr_abs_def)

lemma array_ok_init: "array_ok array_init" "arr_abs array_init = []"
  by (simp_all add: array_ok_def array_init_def is_cap_def arr_abs_def)

lemma is_cap_bound:
  assumes "is_cap y" and "y = n \<or> y = 4 \<or> y < 2 * num" and "n \<le> 2 ^ 29" and "num \<le> 2 ^ 29"
  shows "y \<le> 2 ^ 29"
proof (cases "y = 0 \<or> y = n \<or> y = 4")
  case True
  with assms(3) show ?thesis by auto
next
  case False
  with assms obtain k where k: "y = 2 ^ (k + 2)" "y < 2 ^ 30" by (auto simp: is_cap_def)
  then have "(2 :: nat) ^ (k + 2) < 2 ^ 30" by simp
  then have "k + 2 < 30" by (rule pow2_less_imp)
  then show ?thesis using k(1) pow2_le [of "k + 2" 29] by simp
qed

lemma array_preallocate_cases:
  assumes ok: "array_ok a" and num: "num \<le> 2 ^ 29"
  obtains (grown) a' m' where "array_preallocate a num m = Some (Inr (), a', m')" "array_ok a'"
      "num \<le> arr_max a'" "arr_num a' = arr_num a" "arr_abs a' = arr_abs a"
      "arr_max a' = arr_max a \<or> arr_max a' = 4 \<or> arr_max a' < 2 * num"
  | (nomem) m' where "array_preallocate a num m = Some (Inl ENOMEM, a, m')"
      "arr_max a < num" "mem_take m = (False, m')"
proof (cases "arr_max a < num")
  case False
  with ok grown [of a m] show ?thesis by (simp add: array_preallocate_def)
next
  case True
  from ok num array_newmax_returns [of "arr_max a" num]
  obtain y where y: "array_newmax num (arr_max a) = Some y" "is_cap y" "num \<le> y"
      "arr_max a \<le> y" "y = arr_max a \<or> y = 4 \<or> y < 2 * num"
    by (auto simp: array_ok_def)
  have y29: "y \<le> 2 ^ 29" using is_cap_bound [OF y(2,5) _ num] ok by (simp add: array_ok_def)
  then have n: "u32 (y * 4) div 4 = y" by (simp add: u32_def)
  obtain b m' where b: "mem_take m = (b, m')" by fastforce
  show ?thesis
  proof (cases b)
    case False
    with True y(1) b nomem show ?thesis by (simp add: array_preallocate_def)
  next
    case b': True
    let ?a = "a\<lparr>arr_v := take (arr_num a) (arr_v a) @ replicate (y - arr_num a) None,
                arr_max := y\<rparr>"
    have "arr_num a \<le> y" using ok y(4) by (simp add: array_ok_def)
    with True y(1) b b' n ok have "array_preallocate a num m = Some (Inr (), ?a, m')"
      by (simp add: array_preallocate_def array_ok_def)
    moreover have "array_ok ?a" "arr_abs ?a = arr_abs a"
      using ok y y29 \<open>arr_num a \<le> y\<close> by (simp_all add: array_ok_def arr_abs_def)
    ultimately show ?thesis using grown [of ?a m'] y(3,5) by simp
  qed
qed

lemma array_add_cases:
  assumes ok: "array_ok a" and num: "arr_num a < 2 ^ 29"
  obtains (grown) a' m' where "array_add a x m = Some (Inr (arr_num a), a', m')" "array_ok a'"
      "arr_abs a' = arr_abs a @ [Some x]"
      "arr_max a' = arr_max a \<or> arr_max a' = 4 \<or> arr_max a' < 2 * (arr_num a + 1)"
  | (nomem) m' where "array_add a x m = Some (Inl ENOMEM, a, m')"
      "arr_num a = arr_max a" "mem_take m = (False, m')"
proof -
  have u: "u32 (arr_num a + 1) = arr_num a + 1" using num by (simp add: u32_def)
  have "arr_num a + 1 \<le> 2 ^ 29" using num by simp
  with ok show ?thesis
  proof (cases rule: array_preallocate_cases [where m = m])
    case (grown a1 m1)
    let ?a = "a1\<lparr>arr_num := arr_num a + 1, arr_v := (arr_v a1)[arr_num a := Some x]\<rparr>"
    have lt: "arr_num a < length (arr_v a1)" using grown by (simp add: array_ok_def)
    have "array_add a x m = Some (Inr (arr_num a), ?a, m1)"
      using grown lt u by (simp add: array_add_def array_setsize_def Let_def)
    moreover have "array_ok ?a" using grown by (simp add: array_ok_def)
    moreover have "arr_abs ?a = arr_abs a @ [Some x]"
      using grown(4,5) lt by (simp add: arr_abs_def take_Suc_conv_app_nth)
    ultimately show ?thesis using that(1) [of ?a m1] grown(6) by simp
  next
    case (nomem m')
    then have "array_add a x m = Some (Inl ENOMEM, a, m')"
      using u by (simp add: array_add_def array_setsize_def Let_def)
    moreover have "arr_num a = arr_max a" using nomem ok by (simp add: array_ok_def)
    ultimately show ?thesis using that(2) nomem by blast
  qed
qed

lemma array_get_eq:
  "array_ok a \<Longrightarrow> i < arr_num a \<Longrightarrow> array_get a i = arr_abs a ! i"
  by (simp add: array_get_def array_ok_def arr_abs_def)

lemma array_set_eq:
  assumes "array_ok a" and "i < arr_num a"
  shows "\<exists>a'. array_set a i x = Some a' \<and> array_ok a' \<and> arr_num a' = arr_num a \<and>
     arr_abs a' = (arr_abs a)[i := Some x]"
  using assms by (simp add: array_set_def array_ok_def arr_abs_def take_update_swap)

lemma array_remove_eq:
  assumes "array_ok a" and "i < arr_num a"
  shows "\<exists>a'. array_remove a i = Some a' \<and> array_ok a' \<and>
     arr_abs a' = take i (arr_abs a) @ drop (Suc i) (arr_abs a)"
proof -
  let ?n = "arr_num a - (i + 1)"
  let ?v = "take i (arr_v a) @ take ?n (drop (i + 1) (arr_v a)) @ drop (i + ?n) (arr_v a)"
  let ?a = "a\<lparr>arr_v := ?v, arr_num := arr_num a - 1\<rparr>"
  have "array_remove a i = Some ?a"
    using assms by (simp add: array_remove_def array_ok_def)
  moreover have "array_ok ?a" using assms by (auto simp: array_ok_def min_def)
  moreover have "arr_abs ?a = take i (arr_abs a) @ drop (Suc i) (arr_abs a)"
  proof -
    from assms(2) obtain n where "arr_num a = Suc (i + n)" by (metis less_iff_Suc_add)
    with assms(1) show ?thesis by (auto simp add: array_ok_def arr_abs_def drop_take)
  qed
  ultimately show ?thesis by blast
qed

section \<open>The interface of a growable list\<close>

text \<open>
  What the users of an array rely on (the known-device list, the loaded vnodes of a volume):
  a list that is appended to, read by index and from which an entry is excised.
\<close>

locale growable =
  fixes inv :: "'s \<Rightarrow> bool"
    and cont :: "'s \<Rightarrow> 'a option list"
    and num :: "'s \<Rightarrow> nat"
    and get :: "'s \<Rightarrow> nat \<Rightarrow> 'a option"
    and remove :: "'s \<Rightarrow> nat \<Rightarrow> 's option"
  assumes num_length: "inv s \<Longrightarrow> num s = length (cont s)"
    and get_nth: "inv s \<Longrightarrow> i < length (cont s) \<Longrightarrow> get s i = cont s ! i"
    and remove_nth: "inv s \<Longrightarrow> i < length (cont s) \<Longrightarrow>
      \<exists>s'. remove s i = Some s' \<and> inv s' \<and> cont s' = take i (cont s) @ drop (Suc i) (cont s)"
begin

text \<open>The search loop clients run over an array: the first index that holds \<open>x\<close>.\<close>

fun search :: "'s \<Rightarrow> 'a \<Rightarrow> nat list \<Rightarrow> nat option option" where
  "search s x [] = Some None"
| "search s x (i # ixs) = do { y \<leftarrow> get s i; if y = x then Some (Some i) else search s x ixs }"

lemma search_correct:
  assumes inv: "inv s" and ini: "None \<notin> set (cont s)" and ixs: "\<forall>i \<in> set ixs. i < num s"
  shows "search s x ixs = Some (find (\<lambda>i. cont s ! i = Some x) ixs)"
  using ixs
proof (induction ixs)
  case (Cons i ixs)
  then have i: "i < length (cont s)" using num_length [OF inv] by simp
  with ini obtain y where y: "cont s ! i = Some y"
    by (metis not_None_eq nth_mem)
  with get_nth [OF inv i] have "get s i = Some y" by simp
  with y Cons show ?case by auto
qed simp

lemma remove_count:
  assumes "inv s" and "i < length (cont s)" and "remove s i = Some s'"
  shows "num s' = num s - 1" and "cont s ! i = Some x \<Longrightarrow>
     count_list (cont s') (Some x) = count_list (cont s) (Some x) - 1"
proof -
  from remove_nth [OF assms(1,2)] assms(3)
  have s': "inv s'" "cont s' = take i (cont s) @ drop (Suc i) (cont s)" by auto
  from s' num_length assms(1,2) show "num s' = num s - 1" by simp
  assume "cont s ! i = Some x"
  then have "cont s = take i (cont s) @ Some x # drop (Suc i) (cont s)"
    using id_take_nth_drop [OF assms(2)] by simp
  then have "count_list (cont s) (Some x) =
      count_list (take i (cont s) @ Some x # drop (Suc i) (cont s)) (Some x)"
    by (rule arg_cong)
  also have "\<dots> = Suc (count_list (cont s') (Some x))" by (simp add: s'(2))
  finally show "count_list (cont s') (Some x) = count_list (cont s) (Some x) - 1" by simp
qed

end

interpretation ar: growable array_ok arr_abs array_num array_get array_remove
proof unfold_locales
  fix s :: "'a array" and i
  assume ok: "array_ok s"
  then show "array_num s = length (arr_abs s)" by (simp add: array_num_def length_arr_abs)
  assume "i < length (arr_abs s)"
  then have i: "i < arr_num s" using ok by (simp add: length_arr_abs)
  then show "array_get s i = arr_abs s ! i" using ok by (simp add: array_get_eq)
  show "\<exists>s'. array_remove s i = Some s' \<and> array_ok s' \<and>
     arr_abs s' = take i (arr_abs s) @ drop (Suc i) (arr_abs s)"
    using array_remove_eq [OF ok i] .
qed

section \<open>Properties\<close>

text \<open>
  C8. \<^verbatim>\<open>array_add\<close> on a well-formed array either appends the value, at the index it returns and
  with the earlier elements untouched, growing the block to less than twice what is needed, or
  returns \<^verbatim>\<open>ENOMEM\<close> and leaves the array as it was; the latter only when the array was full and
  the allocation failed.  In particular the doubling loop ends.
\<close>

theorem array_add_appends:
  assumes "array_ok a" and "arr_num a < 2 ^ 29"
  shows "(\<exists>a' m'. array_add a x m = Some (Inr (arr_num a), a', m') \<and> array_ok a' \<and>
            arr_abs a' = arr_abs a @ [Some x] \<and>
            (arr_max a' \<le> 4 \<or> arr_max a' = arr_max a \<or> arr_max a' < 2 * arr_num a'))
       \<or> (\<exists>m'. array_add a x m = Some (Inl ENOMEM, a, m') \<and> arr_num a = arr_max a \<and>
            mem_take m = (False, m'))"
  using assms
proof (cases rule: array_add_cases [where x = x and m = m])
  case (grown a' m')
  then have "arr_num a' = arr_num a + 1"
    using length_arr_abs [of a'] length_arr_abs [OF assms(1)] by simp
  with grown show ?thesis by auto
qed auto

theorem array_add_appends_witness:
  "array_ok \<lparr>arr_v = [Some 1, Some 2, Some 3, Some (4 :: nat)], arr_num = 4, arr_max = 4\<rparr> \<and>
   (\<exists>a' m'. array_add \<lparr>arr_v = [Some 1, Some 2, Some 3, Some (4 :: nat)], arr_num = 4,
        arr_max = 4\<rparr> 5 [True] = Some (Inr 4, a', m') \<and>
      arr_abs a' = [Some 1, Some 2, Some 3, Some 4, Some 5])"
proof -
  let ?a = "\<lparr>arr_v = [Some 1, Some 2, Some 3, Some (4 :: nat)], arr_num = 4, arr_max = 4\<rparr>"
  have "(4 :: nat) = 2 ^ (0 + 2)" by simp
  then have "is_cap 4" unfolding is_cap_def by force
  then have ok: "array_ok ?a" by (simp add: array_ok_def)
  with array_add_appends [OF ok, of 5 "[True]"] show ?thesis by (auto simp: arr_abs_def)
qed

end
