(* ===== verification/Kern_Threadlist.thy ===== *)
theory Kern_Threadlist
  imports Kern_Prelude
begin

text \<open>
  The doubly linked thread lists of \<^verbatim>\<open>kern/thread/threadlist.c\<close>.  A list has two bookend nodes
  that are always on it; every thread embeds one node.  The pointers are modelled by an explicit
  store: an address is a bookend of a list or the node of a thread, and following a null or
  dangling pointer has no result.  \<^verbatim>\<open>DEBUGASSERT\<close> is compiled out by \<^verbatim>\<open>kern/include/lib.h\<close>, so
  only the \<^verbatim>\<open>KASSERT\<close>s are checks here.

  The abstraction gives each list the sequence of the threads on it.  The locale
  \<open>thread_queues\<close> is the interface the scheduler and the wait channels use.
\<close>

section \<open>Model\<close>

datatype 'l tln = TlHead 'l | TlTail 'l | TlThread nat

record 'l threadlistnode =
  tln_prev :: "'l tln option"
  tln_next :: "'l tln option"
  tln_self :: "nat option"

record 'l threadlists =
  tl_node :: "'l tln \<rightharpoonup> 'l threadlistnode"
  tl_count :: "'l \<Rightarrow> nat"

text \<open>Loads and stores of one field through a pointer.\<close>

definition tln_load :: "'l tln option \<Rightarrow> 'l threadlists \<Rightarrow> 'l threadlistnode option" where
  "tln_load p s = do { a \<leftarrow> p; tl_node s a }"

definition store_prev ::
    "'l tln option \<Rightarrow> 'l tln option \<Rightarrow> 'l threadlists \<Rightarrow> 'l threadlists option" where
  "store_prev p v s = do { a \<leftarrow> p; n \<leftarrow> tl_node s a;
      Some (s\<lparr>tl_node := (tl_node s)(a \<mapsto> n\<lparr>tln_prev := v\<rparr>)\<rparr>) }"

definition store_next ::
    "'l tln option \<Rightarrow> 'l tln option \<Rightarrow> 'l threadlists \<Rightarrow> 'l threadlists option" where
  "store_next p v s = do { a \<leftarrow> p; n \<leftarrow> tl_node s a;
      Some (s\<lparr>tl_node := (tl_node s)(a \<mapsto> n\<lparr>tln_next := v\<rparr>)\<rparr>) }"

definition store_count :: "'l \<Rightarrow> nat \<Rightarrow> 'l threadlists \<Rightarrow> 'l threadlists" where
  "store_count i n s = s\<lparr>tl_count := (tl_count s)(i := n)\<rparr>"

definition threadlistnode_init :: "nat \<Rightarrow> 'l threadlists \<Rightarrow> 'l threadlists" where
  "threadlistnode_init t s = s\<lparr>tl_node := (tl_node s)
     (TlThread t \<mapsto> \<lparr>tln_prev = None, tln_next = None, tln_self = Some t\<rparr>)\<rparr>"

definition threadlistnode_cleanup :: "nat \<Rightarrow> 'l threadlists \<Rightarrow> unit option" where
  "threadlistnode_cleanup t s =
     do { n \<leftarrow> tln_load (Some (TlThread t)) s;
          kassert (tln_next n = None);
          kassert (tln_prev n = None);
          kassert (tln_self n \<noteq> None) }"

definition threadlist_init :: "'l \<Rightarrow> 'l threadlists \<Rightarrow> 'l threadlists" where
  "threadlist_init i s = store_count i 0 (s\<lparr>tl_node := (tl_node s)
     (TlHead i \<mapsto> \<lparr>tln_prev = None, tln_next = Some (TlTail i), tln_self = None\<rparr>,
      TlTail i \<mapsto> \<lparr>tln_prev = Some (TlHead i), tln_next = None, tln_self = None\<rparr>)\<rparr>)"

definition threadlist_isempty :: "'l \<Rightarrow> 'l threadlists \<Rightarrow> bool" where
  "threadlist_isempty i s \<longleftrightarrow> tl_count s i = 0"

definition threadlist_cleanup :: "'l \<Rightarrow> 'l threadlists \<Rightarrow> unit option" where
  "threadlist_cleanup i s =
     do { kassert (threadlist_isempty i s); kassert (tl_count s i = 0) }"

definition threadlist_insertafternode ::
    "'l tln \<Rightarrow> nat \<Rightarrow> 'l threadlists \<Rightarrow> 'l threadlists option" where
  "threadlist_insertafternode onlist t s =
     (let addee = Some (TlThread t)
      in do { s \<leftarrow> store_prev addee (Some onlist) s;
              n \<leftarrow> tln_load (Some onlist) s;
              s \<leftarrow> store_next addee (tln_next n) s;
              a \<leftarrow> tln_load addee s;
              s \<leftarrow> store_next (tln_prev a) addee s;
              a \<leftarrow> tln_load addee s;
              store_prev (tln_next a) addee s })"

definition threadlist_insertbeforenode ::
    "nat \<Rightarrow> 'l tln \<Rightarrow> 'l threadlists \<Rightarrow> 'l threadlists option" where
  "threadlist_insertbeforenode t onlist s =
     (let addee = Some (TlThread t)
      in do { n \<leftarrow> tln_load (Some onlist) s;
              s \<leftarrow> store_prev addee (tln_prev n) s;
              s \<leftarrow> store_next addee (Some onlist) s;
              a \<leftarrow> tln_load addee s;
              s \<leftarrow> store_next (tln_prev a) addee s;
              a \<leftarrow> tln_load addee s;
              store_prev (tln_next a) addee s })"

definition threadlist_removenode ::
    "'l tln option \<Rightarrow> 'l threadlists \<Rightarrow> 'l threadlists option" where
  "threadlist_removenode tln s =
     do { n \<leftarrow> tln_load tln s;
          s \<leftarrow> store_next (tln_prev n) (tln_next n) s;
          n \<leftarrow> tln_load tln s;
          s \<leftarrow> store_prev (tln_next n) (tln_prev n) s;
          s \<leftarrow> store_prev tln None s;
          store_next tln None s }"

definition count_inc :: "'l \<Rightarrow> 'l threadlists \<Rightarrow> 'l threadlists" where
  "count_inc i s = store_count i (u32 (tl_count s i + 1)) s"

definition count_dec :: "'l \<Rightarrow> 'l threadlists \<Rightarrow> 'l threadlists" where
  "count_dec i s = store_count i (u32 (tl_count s i + 2 ^ 32 - 1)) s"

definition threadlist_addhead :: "'l \<Rightarrow> nat \<Rightarrow> 'l threadlists \<Rightarrow> 'l threadlists option" where
  "threadlist_addhead tll t s =
     do { s \<leftarrow> threadlist_insertafternode (TlHead tll) t s; Some (count_inc tll s) }"

definition threadlist_addtail :: "'l \<Rightarrow> nat \<Rightarrow> 'l threadlists \<Rightarrow> 'l threadlists option" where
  "threadlist_addtail tll t s =
     do { s \<leftarrow> threadlist_insertbeforenode t (TlTail tll) s; Some (count_inc tll s) }"

definition threadlist_remhead ::
    "'l \<Rightarrow> 'l threadlists \<Rightarrow> (nat option \<times> 'l threadlists) option" where
  "threadlist_remhead tll s =
     do { h \<leftarrow> tln_load (Some (TlHead tll)) s;
          let tln = tln_next h;
          n \<leftarrow> tln_load tln s;
          if tln_next n = None then Some (None, s)
          else do { s \<leftarrow> threadlist_removenode tln s;
                    let s = count_dec tll s;
                    n \<leftarrow> tln_load tln s;
                    Some (tln_self n, s) } }"

definition threadlist_remtail ::
    "'l \<Rightarrow> 'l threadlists \<Rightarrow> (nat option \<times> 'l threadlists) option" where
  "threadlist_remtail tll s =
     do { h \<leftarrow> tln_load (Some (TlTail tll)) s;
          let tln = tln_prev h;
          n \<leftarrow> tln_load tln s;
          if tln_prev n = None then Some (None, s)
          else do { s \<leftarrow> threadlist_removenode tln s;
                    let s = count_dec tll s;
                    n \<leftarrow> tln_load tln s;
                    Some (tln_self n, s) } }"

definition threadlist_insertafter ::
    "'l \<Rightarrow> nat \<Rightarrow> nat \<Rightarrow> 'l threadlists \<Rightarrow> 'l threadlists option" where
  "threadlist_insertafter tll onlist addee s =
     do { s \<leftarrow> threadlist_insertafternode (TlThread onlist) addee s; Some (count_inc tll s) }"

definition threadlist_insertbefore ::
    "'l \<Rightarrow> nat \<Rightarrow> nat \<Rightarrow> 'l threadlists \<Rightarrow> 'l threadlists option" where
  "threadlist_insertbefore tll addee onlist s =
     do { s \<leftarrow> threadlist_insertbeforenode addee (TlThread onlist) s; Some (count_inc tll s) }"

definition threadlist_remove :: "'l \<Rightarrow> nat \<Rightarrow> 'l threadlists \<Rightarrow> 'l threadlists option" where
  "threadlist_remove tll t s =
     do { s \<leftarrow> threadlist_removenode (Some (TlThread t)) s; Some (count_dec tll s) }"

section \<open>Chains of nodes\<close>

text \<open>
  The links as functions of the address, and sequences of nodes whose neighbours point at each
  other.
\<close>

definition nxt :: "'l threadlists \<Rightarrow> 'l tln \<Rightarrow> 'l tln option" where
  "nxt s a = do { n \<leftarrow> tl_node s a; tln_next n }"

definition prv :: "'l threadlists \<Rightarrow> 'l tln \<Rightarrow> 'l tln option" where
  "prv s a = do { n \<leftarrow> tl_node s a; tln_prev n }"

definition slf :: "'l threadlists \<Rightarrow> 'l tln \<Rightarrow> nat option option" where
  "slf s a = map_option tln_self (tl_node s a)"

fun chain :: "('a \<Rightarrow> 'a option) \<Rightarrow> ('a \<Rightarrow> 'a option) \<Rightarrow> 'a list \<Rightarrow> bool" where
  "chain n p (a # b # xs) \<longleftrightarrow> n a = Some b \<and> p b = Some a \<and> chain n p (b # xs)"
| "chain n p [a] \<longleftrightarrow> True"
| "chain n p [] \<longleftrightarrow> True"

lemma chain_append:
  "chain n p (xs @ a # ys) \<longleftrightarrow> chain n p (xs @ [a]) \<and> chain n p (a # ys)"
proof (induction xs)
  case (Cons x xs)
  then show ?case by (cases xs) auto
qed simp

lemma chain_cong:
  assumes "chain n p xs" and "\<And>a. a \<in> set (butlast xs) \<Longrightarrow> n' a = n a"
    and "\<And>b. b \<in> set (tl xs) \<Longrightarrow> p' b = p b"
  shows "chain n' p' xs"
  using assms
proof (induction n p xs rule: chain.induct)
  case (1 n p a b xs)
  have "chain n' p' (b # xs)"
    using 1(2,3,4) by (intro "1.IH") auto
  with 1 show ?case by simp
qed simp_all

lemma chain_seg_cong:
  assumes "chain n p (xs @ [a])" and "\<And>c. c \<in> set xs \<Longrightarrow> n' c = n c"
    and "\<And>c. c \<in> set xs \<or> c = a \<Longrightarrow> p' c = p c"
  shows "chain n' p' (xs @ [a])"
proof (rule chain_cong [OF assms(1)])
  fix c assume "c \<in> set (tl (xs @ [a]))"
  then have "c \<in> set xs \<or> c = a" by (cases xs) auto
  then show "p' c = p c" by (rule assms(3))
qed (use assms(2) in simp)

lemma chain_from_cong:
  assumes "chain n p (b # ys)" and "\<And>c. c \<in> set ys \<or> c = b \<Longrightarrow> n' c = n c"
    and "\<And>c. c \<in> set ys \<Longrightarrow> p' c = p c"
  shows "chain n' p' (b # ys)"
proof (rule chain_cong [OF assms(1)])
  fix c assume "c \<in> set (butlast (b # ys))"
  then have "c \<in> set ys \<or> c = b" by (auto dest: in_set_butlastD split: if_splits)
  then show "n' c = n c" by (rule assms(2))
qed (use assms(3) in simp)

lemma chain_link:
  assumes "chain n p (xs @ a # b # ys)" and "distinct (xs @ a # b # ys)"
    and "x \<notin> set (xs @ a # b # ys)"
  shows "chain (n(x := Some b, a := Some x)) (p(x := Some a, b := Some x)) (xs @ a # x # b # ys)"
proof -
  let ?n = "n(x := Some b, a := Some x)" and ?p = "p(x := Some a, b := Some x)"
  from iffD1 [OF chain_append assms(1)]
  have old: "chain n p (xs @ [a])" "chain n p (b # ys)" by simp_all
  have "chain ?n ?p (xs @ [a])"
    by (rule chain_seg_cong [OF old(1)]) (use assms(2,3) in auto)
  moreover have "chain ?n ?p (b # ys)"
    by (rule chain_from_cong [OF old(2)]) (use assms(2,3) in auto)
  ultimately show ?thesis using assms(2,3) by (subst chain_append) auto
qed

lemma chain_unlink:
  assumes "chain n p (xs @ a # x # b # ys)" and "distinct (xs @ a # x # b # ys)"
  shows "chain (n(a := Some b, x := None)) (p(b := Some a, x := None)) (xs @ a # b # ys)"
proof -
  let ?n = "n(a := Some b, x := None)" and ?p = "p(b := Some a, x := None)"
  from iffD1 [OF chain_append assms(1)]
  have old: "chain n p (xs @ [a])" "chain n p (b # ys)" by simp_all
  have "chain ?n ?p (xs @ [a])"
    by (rule chain_seg_cong [OF old(1)]) (use assms(2) in auto)
  moreover have "chain ?n ?p (b # ys)"
    by (rule chain_from_cong [OF old(2)]) (use assms(2) in auto)
  ultimately show ?thesis using assms(2) by (subst chain_append) auto
qed

section \<open>What the pointer operations write\<close>

definition node_at :: "'l threadlists \<Rightarrow> 'l tln \<Rightarrow> bool" where
  "node_at s a \<longleftrightarrow> tl_node s a \<noteq> None"

lemma node_atE:
  assumes "node_at s a"
  obtains n where "tl_node s a = Some n" "tln_next n = nxt s a" "tln_prev n = prv s a"
    "slf s a = Some (tln_self n)"
  using assms by (auto simp: node_at_def nxt_def prv_def slf_def)

text \<open>\<open>relinks s s' n p\<close>: the store \<open>s'\<close> is \<open>s\<close> with the links given by \<open>n\<close> and \<open>p\<close>.\<close>

definition relinks ::
    "'l threadlists \<Rightarrow> 'l threadlists \<Rightarrow> ('l tln \<Rightarrow> 'l tln option) \<Rightarrow> ('l tln \<Rightarrow> 'l tln option) \<Rightarrow> bool"
  where "relinks s s' n p \<longleftrightarrow>
     nxt s' = n \<and> prv s' = p \<and> slf s' = slf s \<and> tl_count s' = tl_count s"

lemma relinks_node_at: "relinks s s' n p \<Longrightarrow> node_at s' a \<longleftrightarrow> node_at s a"
  by (metis relinks_def node_at_def slf_def option.map_disc_iff)

lemmas link_unfold = threadlist_insertafternode_def threadlist_insertbeforenode_def
  threadlist_removenode_def store_prev_def store_next_def tln_load_def relinks_def
  nxt_def prv_def slf_def fun_eq_iff Let_def

lemma insertafternode_relinks:
  assumes "node_at s a" "node_at s b" "node_at s (TlThread t)" and "nxt s a = Some b"
    and "a \<noteq> TlThread t" "b \<noteq> TlThread t" "a \<noteq> b"
  shows "\<exists>s'. threadlist_insertafternode a t s = Some s' \<and>
     relinks s s' ((nxt s)(TlThread t := Some b, a := Some (TlThread t)))
       ((prv s)(TlThread t := Some a, b := Some (TlThread t)))"
  using assms by (auto simp: node_at_def link_unfold)

lemma insertbeforenode_relinks:
  assumes "node_at s a" "node_at s b" "node_at s (TlThread t)" and "prv s b = Some a"
    and "a \<noteq> TlThread t" "b \<noteq> TlThread t" "a \<noteq> b"
  shows "\<exists>s'. threadlist_insertbeforenode t b s = Some s' \<and>
     relinks s s' ((nxt s)(TlThread t := Some b, a := Some (TlThread t)))
       ((prv s)(TlThread t := Some a, b := Some (TlThread t)))"
  using assms by (auto simp: node_at_def link_unfold)

lemma removenode_relinks:
  assumes "node_at s a" "node_at s b" "node_at s x" and "prv s x = Some a" "nxt s x = Some b"
    and "a \<noteq> x" "b \<noteq> x" "a \<noteq> b"
  shows "\<exists>s'. threadlist_removenode (Some x) s = Some s' \<and>
     relinks s s' ((nxt s)(a := Some b, x := None)) ((prv s)(b := Some a, x := None))"
  using assms by (auto simp: node_at_def link_unfold)

section \<open>The abstraction: a sequence of threads for every list\<close>

definition tl_nodes :: "'l \<Rightarrow> nat list \<Rightarrow> 'l tln list" where
  "tl_nodes i ts = TlHead i # map TlThread ts @ [TlTail i]"

definition tl_seg :: "'l threadlists \<Rightarrow> 'l \<Rightarrow> nat list \<Rightarrow> bool" where
  "tl_seg s i ts \<longleftrightarrow> chain (nxt s) (prv s) (tl_nodes i ts) \<and> prv s (TlHead i) = None \<and>
     nxt s (TlTail i) = None \<and> tl_count s i = length ts"

text \<open>
  \<open>tl_rel T L s A\<close>: in the store \<open>s\<close> the threads \<open>T\<close> have initialised nodes, every list of \<open>L\<close>
  is initialised and holds exactly the threads \<open>A i\<close> in that order, no thread is on two lists,
  and a thread on no list has null links.
\<close>

definition tl_rel :: "nat set \<Rightarrow> 'l set \<Rightarrow> 'l threadlists \<Rightarrow> ('l \<Rightarrow> nat list) \<Rightarrow> bool" where
  "tl_rel T L s A \<longleftrightarrow>
     finite T \<and> card T < 2 ^ 32 \<and>
     (\<forall>t \<in> T. slf s (TlThread t) = Some (Some t)) \<and>
     (\<forall>i \<in> L. slf s (TlHead i) = Some None \<and> slf s (TlTail i) = Some None \<and>
        tl_seg s i (A i) \<and> distinct (A i) \<and> set (A i) \<subseteq> T) \<and>
     (\<forall>i \<in> L. \<forall>j \<in> L. i \<noteq> j \<longrightarrow> set (A i) \<inter> set (A j) = {}) \<and>
     (\<forall>t \<in> T. (\<forall>i \<in> L. t \<notin> set (A i)) \<longrightarrow> nxt s (TlThread t) = None \<and> prv s (TlThread t) = None)"

lemma node_at_slf: "node_at s a \<longleftrightarrow> slf s a \<noteq> None"
  by (simp add: node_at_def slf_def)

text \<open>The two neighbours of a position in a list.\<close>

definition before :: "'l \<Rightarrow> nat list \<Rightarrow> 'l tln" where
  "before i l1 = last (TlHead i # map TlThread l1)"

definition after :: "'l \<Rightarrow> nat list \<Rightarrow> 'l tln" where
  "after i l2 = hd (map TlThread l2 @ [TlTail i])"

lemma before_simps [simp]: "before i [] = TlHead i" "before i (l @ [t]) = TlThread t"
  by (simp_all add: before_def)

lemma after_simps [simp]: "after i [] = TlTail i" "after i (t # l) = TlThread t"
  by (simp_all add: after_def)

lemma tl_nodes_split:
  obtains xs ys where "tl_nodes i (l1 @ l2) = xs @ before i l1 # after i l2 # ys"
    and "tl_nodes i (l1 @ t # l2) = xs @ before i l1 # TlThread t # after i l2 # ys"
proof
  let ?x = "TlHead i # map TlThread l1" and ?y = "map TlThread l2 @ [TlTail i]"
  have x: "?x = butlast ?x @ [before i l1]" unfolding before_def by (rule append_butlast_last_id [symmetric]) simp
  have y: "?y = after i l2 # tl ?y" unfolding after_def by (rule list.collapse [symmetric]) simp
  have "tl_nodes i (l1 @ l2) = ?x @ ?y" by (simp add: tl_nodes_def)
  also have "\<dots> = (butlast ?x @ [before i l1]) @ (after i l2 # tl ?y)"
    by (rule arg_cong2 [where f = "(@)", OF x y])
  finally show "tl_nodes i (l1 @ l2) = butlast ?x @ before i l1 # after i l2 # tl ?y" by simp
  have "tl_nodes i (l1 @ t # l2) = ?x @ [TlThread t] @ ?y" by (simp add: tl_nodes_def)
  also have "\<dots> = (butlast ?x @ [before i l1]) @ [TlThread t] @ (after i l2 # tl ?y)"
    by (rule arg_cong2 [where f = "\<lambda>u v. u @ [TlThread t] @ v", OF x y])
  finally show "tl_nodes i (l1 @ t # l2) =
      butlast ?x @ before i l1 # TlThread t # after i l2 # tl ?y" by simp
qed

lemma distinct_tl_nodes: "distinct (tl_nodes i ts) \<longleftrightarrow> distinct ts"
  by (auto simp: tl_nodes_def distinct_map inj_on_def)

lemma set_tl_nodes: "set (tl_nodes i ts) = {TlHead i, TlTail i} \<union> TlThread ` set ts"
  by (auto simp: tl_nodes_def)

lemma before_after_in: "before i l1 \<in> set (tl_nodes i (l1 @ l2))" "after i l2 \<in> set (tl_nodes i (l1 @ l2))"
  by (rule tl_nodes_split [of i l1 l2]; simp)+

lemma tl_rel_node_at:
  assumes "tl_rel T L s A" "i \<in> L" "a \<in> set (tl_nodes i (A i))"
  shows "node_at s a"
  using assms by (fastforce simp: tl_rel_def set_tl_nodes node_at_slf)

text \<open>Only the links of list \<open>i\<close> and of one thread change: every other list is untouched.\<close>

lemma tl_seg_frame:
  assumes "tl_seg s j ts" and "\<forall>a \<in> set (tl_nodes j ts). nxt s' a = nxt s a \<and> prv s' a = prv s a"
    and "tl_count s' j = tl_count s j"
  shows "tl_seg s' j ts"
proof -
  have "chain (nxt s) (prv s) (tl_nodes j ts)" using assms(1) by (simp add: tl_seg_def)
  then have "chain (nxt s') (prv s') (tl_nodes j ts)"
  proof (rule chain_cong)
    show "nxt s' a = nxt s a" if "a \<in> set (butlast (tl_nodes j ts))" for a
      using that assms(2) by (blast dest: in_set_butlastD)
    show "prv s' a = prv s a" if "a \<in> set (tl (tl_nodes j ts))" for a
      using that assms(2) by (auto simp: tl_nodes_def)
  qed
  moreover have "nxt s' (TlTail j) = nxt s (TlTail j)" "prv s' (TlHead j) = prv s (TlHead j)"
    using assms(2) by (simp_all add: set_tl_nodes)
  ultimately show ?thesis using assms(1,3) by (simp add: tl_seg_def)
qed

lemma tl_rel_update:
  assumes rel: "tl_rel T L s A" and i: "i \<in> L" and slf: "slf s' = slf s"
    and seg: "tl_seg s' i l'" "distinct l'" "set l' \<subseteq> T" "set l' \<subseteq> insert t (set (A i))"
    and t: "\<forall>j \<in> L. j \<noteq> i \<longrightarrow> t \<notin> set (A j)"
    and links: "\<And>a. a \<notin> insert (TlThread t) (set (tl_nodes i (A i))) \<Longrightarrow>
      nxt s' a = nxt s a \<and> prv s' a = prv s a"
    and count: "\<And>j. j \<noteq> i \<Longrightarrow> tl_count s' j = tl_count s j"
    and null: "\<And>u. u \<in> insert t (set (A i)) \<Longrightarrow> u \<notin> set l' \<Longrightarrow>
      nxt s' (TlThread u) = None \<and> prv s' (TlThread u) = None"
  shows "tl_rel T L s' (A(i := l'))"
proof -
  have disj: "set (A j) \<inter> insert t (set (A i)) = {}" if "j \<in> L" "j \<noteq> i" for j
    using that t rel i by (auto simp: tl_rel_def)
  have other: "tl_seg s' j (A j)" if "j \<in> L" "j \<noteq> i" for j
  proof (rule tl_seg_frame)
    show "tl_seg s j (A j)" using rel that by (simp add: tl_rel_def)
    show "\<forall>a \<in> set (tl_nodes j (A j)). nxt s' a = nxt s a \<and> prv s' a = prv s a"
      using disj [OF that] that(2) by (intro ballI links) (auto simp: set_tl_nodes)
    show "tl_count s' j = tl_count s j" using count that(2) by blast
  qed
  have free: "nxt s' (TlThread u) = None \<and> prv s' (TlThread u) = None"
    if "u \<in> T" "\<forall>j \<in> L. u \<notin> set ((A(i := l')) j)" for u
  proof (cases "u \<in> insert t (set (A i))")
    case True
    with that i show ?thesis by (intro null) auto
  next
    case False
    with that i have "\<forall>j \<in> L. u \<notin> set (A j)" by (metis fun_upd_apply insertCI)
    with rel that(1) have "nxt s (TlThread u) = None \<and> prv s (TlThread u) = None"
      by (simp add: tl_rel_def)
    with links [of "TlThread u"] False show ?thesis by (auto simp: set_tl_nodes)
  qed
  have apart: "set ((A(i := l')) j) \<inter> set ((A(i := l')) k) = {}"
    if "j \<in> L" "k \<in> L" "j \<noteq> k" for j k
    using that disj [of j] disj [of k] seg(4) rel unfolding tl_rel_def
    by (cases "j = i"; cases "k = i") (simp_all, blast+)
  show ?thesis
    using rel slf seg(1-3) other free apart unfolding tl_rel_def by simp
qed

lemma after_not_head [simp]: "after i l \<noteq> TlHead j"
  by (cases l) simp_all

lemma before_not_tail [simp]: "before i l \<noteq> TlTail j"
  by (cases l rule: rev_cases) simp_all

text \<open>Putting thread \<open>t\<close> on list \<open>i\<close> between two neighbours, and taking it off.\<close>

lemma count_inc_views:
  "nxt (count_inc i s) = nxt s" "prv (count_inc i s) = prv s" "slf (count_inc i s) = slf s"
  "tl_count (count_inc i s) = (tl_count s)(i := u32 (tl_count s i + 1))"
  by (auto simp: count_inc_def store_count_def nxt_def prv_def slf_def fun_eq_iff)

lemma count_dec_views:
  "nxt (count_dec i s) = nxt s" "prv (count_dec i s) = prv s" "slf (count_dec i s) = slf s"
  "tl_count (count_dec i s) = (tl_count s)(i := u32 (tl_count s i + 2 ^ 32 - 1))"
  by (auto simp: count_dec_def store_count_def nxt_def prv_def slf_def fun_eq_iff)

lemma u32_inc: "n + 1 < 2 ^ 32 \<Longrightarrow> u32 (n + 1) = n + 1"
  by (rule u32_small)

lemma u32_dec: "0 < n \<Longrightarrow> n < 2 ^ 32 \<Longrightarrow> u32 (n + 2 ^ 32 - 1) = n - 1"
proof -
  assume "0 < n" "n < 2 ^ 32"
  then obtain k where "n = Suc k" "k < 2 ^ 32" by (cases n) simp_all
  then show ?thesis by (simp add: u32_def)
qed

lemma tl_rel_length:
  assumes "tl_rel T L s A" and "i \<in> L"
  shows "length (A i) \<le> card T" "length (A i) < 2 ^ 32" "tl_count s i = length (A i)"
proof -
  have "card (set (A i)) \<le> card T" using assms by (auto simp: tl_rel_def intro: card_mono)
  then show "length (A i) \<le> card T" "length (A i) < 2 ^ 32"
    using assms by (auto simp: tl_rel_def distinct_card)
  show "tl_count s i = length (A i)" using assms by (simp add: tl_rel_def tl_seg_def)
qed

lemma tl_rel_insert:
  assumes rel: "tl_rel T L s A" and i: "i \<in> L" and t: "t \<in> T" and free: "\<forall>j \<in> L. t \<notin> set (A j)"
    and Ai: "A i = l1 @ l2"
    and s': "relinks s s' ((nxt s)(TlThread t := Some (after i l2), before i l1 := Some (TlThread t)))
       ((prv s)(TlThread t := Some (before i l1), after i l2 := Some (TlThread t)))"
  shows "tl_rel T L (count_inc i s') (A(i := l1 @ t # l2))"
proof -
  let ?s = "count_inc i s'" and ?a = "before i l1" and ?b = "after i l2"
  have lk: "nxt ?s = (nxt s)(TlThread t := Some ?b, ?a := Some (TlThread t))"
    "prv ?s = (prv s)(TlThread t := Some ?a, ?b := Some (TlThread t))" "slf ?s = slf s"
    "tl_count ?s = (tl_count s)(i := u32 (tl_count s i + 1))"
    using s' by (simp_all add: relinks_def count_inc_views)
  obtain xs ys where nodes: "tl_nodes i (A i) = xs @ ?a # ?b # ys"
      "tl_nodes i (l1 @ t # l2) = xs @ ?a # TlThread t # ?b # ys"
    using tl_nodes_split [of i l1 l2 t] Ai by metis
  have dist: "distinct (A i)" and sub: "set (A i) \<subseteq> T" and seg: "tl_seg s i (A i)"
    using rel i by (auto simp: tl_rel_def)
  have ti: "t \<notin> set (A i)" using free i by blast
  have "chain (nxt s) (prv s) (xs @ ?a # ?b # ys)" using seg nodes(1) by (simp add: tl_seg_def)
  moreover have "distinct (xs @ ?a # ?b # ys)"
    using dist nodes(1) distinct_tl_nodes [of i "A i"] by simp
  moreover have "TlThread t \<notin> set (xs @ ?a # ?b # ys)"
    using ti unfolding nodes(1) [symmetric] by (auto simp: set_tl_nodes)
  ultimately have "chain (nxt ?s) (prv ?s) (tl_nodes i (l1 @ t # l2))"
    unfolding lk nodes(2) by (rule chain_link)
  moreover have "card (set (A i)) < card T"
    using sub t ti rel by (intro psubset_card_mono) (auto simp: tl_rel_def)
  then have "tl_count s i + 1 < 2 ^ 32"
    using tl_rel_length [OF rel i] dist rel by (simp add: tl_rel_def distinct_card)
  ultimately have newseg: "tl_seg ?s i (l1 @ t # l2)"
    using seg Ai by (simp add: tl_seg_def lk u32_inc [unfolded Suc_eq_plus1 [symmetric]] before_not_tail [symmetric] after_not_head [symmetric])
  show ?thesis
  proof (rule tl_rel_update [OF rel i, where t = t])
    show "distinct (l1 @ t # l2)" "set (l1 @ t # l2) \<subseteq> T"
      "set (l1 @ t # l2) \<subseteq> insert t (set (A i))"
      using dist Ai ti t sub by auto
    fix a assume "a \<notin> insert (TlThread t) (set (tl_nodes i (A i)))"
    then show "nxt ?s a = nxt s a \<and> prv ?s a = prv s a" using nodes(1) by (auto simp: lk)
  next
    fix u assume "u \<in> insert t (set (A i))" "u \<notin> set (l1 @ t # l2)"
    then show "nxt ?s (TlThread u) = None \<and> prv ?s (TlThread u) = None" using Ai by simp
  qed (use newseg lk free in auto)
qed

lemma tl_rel_delete:
  assumes rel: "tl_rel T L s A" and i: "i \<in> L" and Ai: "A i = l1 @ t # l2"
    and s': "relinks s s' ((nxt s)(before i l1 := Some (after i l2), TlThread t := None))
       ((prv s)(after i l2 := Some (before i l1), TlThread t := None))"
  shows "tl_rel T L (count_dec i s') (A(i := l1 @ l2))"
proof -
  let ?s = "count_dec i s'" and ?a = "before i l1" and ?b = "after i l2"
  have lk: "nxt ?s = (nxt s)(?a := Some ?b, TlThread t := None)"
    "prv ?s = (prv s)(?b := Some ?a, TlThread t := None)" "slf ?s = slf s"
    "tl_count ?s = (tl_count s)(i := u32 (tl_count s i + 2 ^ 32 - 1))"
    using s' by (simp_all add: relinks_def count_dec_views)
  obtain xs ys where nodes: "tl_nodes i (l1 @ l2) = xs @ ?a # ?b # ys"
      "tl_nodes i (A i) = xs @ ?a # TlThread t # ?b # ys"
    using tl_nodes_split [of i l1 l2 t] Ai by metis
  have dist: "distinct (A i)" and sub: "set (A i) \<subseteq> T" and seg: "tl_seg s i (A i)"
    using rel i by (auto simp: tl_rel_def)
  have "chain (nxt s) (prv s) (xs @ ?a # TlThread t # ?b # ys)"
    using seg nodes(2) by (simp add: tl_seg_def)
  moreover have "distinct (xs @ ?a # TlThread t # ?b # ys)"
    using dist nodes(2) distinct_tl_nodes [of i "A i"] by simp
  ultimately have "chain (nxt ?s) (prv ?s) (tl_nodes i (l1 @ l2))"
    unfolding lk nodes(1) by (rule chain_unlink)
  moreover have "u32 (tl_count s i + 2 ^ 32 - 1) = length (l1 @ l2)"
    using tl_rel_length [OF rel i] Ai by (subst u32_dec) simp_all
  ultimately have newseg: "tl_seg ?s i (l1 @ l2)"
    using seg by (simp add: tl_seg_def lk before_not_tail [symmetric] after_not_head [symmetric])
  show ?thesis
  proof (rule tl_rel_update [OF rel i, where t = t])
    show "distinct (l1 @ l2)" "set (l1 @ l2) \<subseteq> T" "set (l1 @ l2) \<subseteq> insert t (set (A i))"
      using dist Ai sub by auto
    show "\<forall>j \<in> L. j \<noteq> i \<longrightarrow> t \<notin> set (A j)"
      using rel i Ai unfolding tl_rel_def by (metis disjoint_iff in_set_conv_decomp)
    fix a assume "a \<notin> insert (TlThread t) (set (tl_nodes i (A i)))"
    then show "nxt ?s a = nxt s a \<and> prv ?s a = prv s a" using nodes(2) by (auto simp: lk)
  next
    fix u assume "u \<in> insert t (set (A i))" "u \<notin> set (l1 @ l2)"
    then have "u = t" using Ai by auto
    then show "nxt ?s (TlThread u) = None \<and> prv ?s (TlThread u) = None" by (simp add: lk)
  qed (use newseg lk in auto)
qed

section \<open>The operations on lists\<close>

lemma tl_rel_neighbours:
  assumes rel: "tl_rel T L s A" and i: "i \<in> L" and Ai: "A i = l1 @ l2"
  shows "nxt s (before i l1) = Some (after i l2)" "prv s (after i l2) = Some (before i l1)"
    "node_at s (before i l1)" "node_at s (after i l2)" "before i l1 \<noteq> after i l2"
proof -
  obtain xs ys where nodes: "tl_nodes i (A i) = xs @ before i l1 # after i l2 # ys"
    using tl_nodes_split [of i l1 l2] Ai by metis
  have seg: "tl_seg s i (A i)" "distinct (tl_nodes i (A i))"
    using rel i by (auto simp: tl_rel_def distinct_tl_nodes)
  then show "before i l1 \<noteq> after i l2" using nodes by simp
  have "chain (nxt s) (prv s) (xs @ before i l1 # after i l2 # ys)"
    using seg(1) nodes by (simp add: tl_seg_def)
  from iffD1 [OF chain_append this]
  show "nxt s (before i l1) = Some (after i l2)" "prv s (after i l2) = Some (before i l1)"
    by simp_all
  show "node_at s (before i l1)" "node_at s (after i l2)"
    using tl_rel_node_at [OF rel i] nodes by simp_all
qed

lemma tl_rel_thread_node: "tl_rel T L s A \<Longrightarrow> t \<in> T \<Longrightarrow> node_at s (TlThread t)"
  by (simp add: tl_rel_def node_at_slf)

lemma neighbours_not_thread:
  assumes "t \<notin> set (l1 @ l2)"
  shows "before i l1 \<noteq> TlThread t" "after i l2 \<noteq> TlThread t"
proof -
  from assms show "before i l1 \<noteq> TlThread t" by (cases l1 rule: rev_cases) auto
  from assms show "after i l2 \<noteq> TlThread t" by (cases l2) auto
qed

lemma insertafter_rel:
  assumes rel: "tl_rel T L s A" and i: "i \<in> L"
    and t: "t \<in> T" and free: "\<forall>j \<in> L. t \<notin> set (A j)" and Ai: "A i = l1 @ l2"
  shows "\<exists>s'. threadlist_insertafternode (before i l1) t s = Some s' \<and>
     tl_rel T L (count_inc i s') (A(i := l1 @ t # l2))"
proof -
  have "t \<notin> set (l1 @ l2)" using free i Ai by metis
  note facts = tl_rel_neighbours [OF rel i Ai] neighbours_not_thread [OF this]
    tl_rel_thread_node [OF rel t]
  from insertafternode_relinks [OF facts(3,4,8,1,6,7,5)] tl_rel_insert [OF rel i t free Ai]
  show ?thesis by blast
qed

lemma insertbefore_rel:
  assumes rel: "tl_rel T L s A" and i: "i \<in> L"
    and t: "t \<in> T" and free: "\<forall>j \<in> L. t \<notin> set (A j)" and Ai: "A i = l1 @ l2"
  shows "\<exists>s'. threadlist_insertbeforenode t (after i l2) s = Some s' \<and>
     tl_rel T L (count_inc i s') (A(i := l1 @ t # l2))"
proof -
  have "t \<notin> set (l1 @ l2)" using free i Ai by metis
  note facts = tl_rel_neighbours [OF rel i Ai] neighbours_not_thread [OF this]
    tl_rel_thread_node [OF rel t]
  from insertbeforenode_relinks [OF facts(3,4,8,2,6,7,5)] tl_rel_insert [OF rel i t free Ai]
  show ?thesis by blast
qed

lemma removenode_rel:
  assumes rel: "tl_rel T L s A" and i: "i \<in> L"
    and Ai: "A i = l1 @ t # l2"
  shows "\<exists>s'. threadlist_removenode (Some (TlThread t)) s = Some s' \<and> slf s' = slf s \<and>
     tl_rel T L (count_dec i s') (A(i := l1 @ l2))"
proof -
  have "A i = (l1 @ [t]) @ l2" using Ai by simp
  note up = tl_rel_neighbours [OF rel i this, simplified]
  note down = tl_rel_neighbours [OF rel i Ai, simplified]
  have "distinct (tl_nodes i (A i))" using rel i by (simp add: tl_rel_def distinct_tl_nodes)
  then have "before i l1 \<noteq> after i l2"
    using tl_nodes_split [of i l1 l2 t] Ai by (metis distinct.simps(2) distinct_append list.set_intros(1,2))
  from removenode_relinks [OF down(3) up(4,3) down(2) up(1) down(5) up(5) [symmetric] this]
    tl_rel_delete [OF rel i Ai]
  show ?thesis by (auto simp: relinks_def)
qed

lemma addhead_rel:
  assumes rel: "tl_rel T L s A" and i: "i \<in> L"
    and "t \<in> T" and "\<forall>j \<in> L. t \<notin> set (A j)"
  shows "\<exists>s'. threadlist_addhead i t s = Some s' \<and> tl_rel T L s' (A(i := t # A i))"
  using insertafter_rel [OF assms, of "[]" "A i"] by (auto simp: threadlist_addhead_def)

lemma addtail_rel:
  assumes rel: "tl_rel T L s A" and i: "i \<in> L"
    and "t \<in> T" and "\<forall>j \<in> L. t \<notin> set (A j)"
  shows "\<exists>s'. threadlist_addtail i t s = Some s' \<and> tl_rel T L s' (A(i := A i @ [t]))"
  using insertbefore_rel [OF assms, of "A i" "[]"] by (auto simp: threadlist_addtail_def)

lemma insertafter_thread_rel:
  assumes rel: "tl_rel T L s A" and i: "i \<in> L"
    and "t \<in> T" and "\<forall>j \<in> L. t \<notin> set (A j)" and "A i = l1 @ u # l2"
  shows "\<exists>s'. threadlist_insertafter i u t s = Some s' \<and>
     tl_rel T L s' (A(i := l1 @ u # t # l2))"
  using insertafter_rel [OF assms(1-4), of "l1 @ [u]" l2] assms(5)
  by (auto simp: threadlist_insertafter_def)

lemma insertbefore_thread_rel:
  assumes rel: "tl_rel T L s A" and i: "i \<in> L"
    and "t \<in> T" and "\<forall>j \<in> L. t \<notin> set (A j)" and "A i = l1 @ u # l2"
  shows "\<exists>s'. threadlist_insertbefore i t u s = Some s' \<and>
     tl_rel T L s' (A(i := l1 @ t # u # l2))"
  using insertbefore_rel [OF assms(1-4), of l1 "u # l2"] assms(5)
  by (auto simp: threadlist_insertbefore_def)

lemma remove_rel:
  assumes rel: "tl_rel T L s A" and i: "i \<in> L"
    and "A i = l1 @ t # l2"
  shows "\<exists>s'. threadlist_remove i t s = Some s' \<and> tl_rel T L s' (A(i := l1 @ l2))"
  using removenode_rel [OF assms] by (auto simp: threadlist_remove_def)

lemma load_after:
  assumes rel: "tl_rel T L s A" and i: "i \<in> L"
    and "A i = l1 @ l2"
  shows "\<exists>n. tln_load (Some (before i l1)) s = Some n \<and> tln_next n = Some (after i l2)"
  using tl_rel_neighbours [OF assms] by (elim node_atE) (simp add: tln_load_def)

lemma load_before:
  assumes rel: "tl_rel T L s A" and i: "i \<in> L"
    and "A i = l1 @ l2"
  shows "\<exists>n. tln_load (Some (after i l2)) s = Some n \<and> tln_prev n = Some (before i l1)"
  using tl_rel_neighbours [OF assms] by (elim node_atE) (simp add: tln_load_def)

lemma load_self:
  assumes rel: "tl_rel T L s A" and i: "i \<in> L"
    and "slf s' = slf s" and "t \<in> set (A i)"
  shows "\<exists>n. tln_load (Some (TlThread t)) (count_dec i s') = Some n \<and> tln_self n = Some t"
proof -
  have "slf (count_dec i s') (TlThread t) = Some (Some t)"
    using assms rel i by (auto simp: tl_rel_def count_dec_views)
  then show ?thesis by (auto simp: slf_def tln_load_def)
qed

lemma load_tail:
  assumes rel: "tl_rel T L s A" and i: "i \<in> L"
  shows "\<exists>n. tln_load (Some (TlTail i)) s = Some n \<and> tln_next n = None"
  using rel i tl_rel_neighbours(4) [OF rel i, of "A i" "[]"]
  by (auto simp: tl_rel_def tl_seg_def nxt_def tln_load_def node_at_def)

lemma load_head:
  assumes rel: "tl_rel T L s A" and i: "i \<in> L"
  shows "\<exists>n. tln_load (Some (TlHead i)) s = Some n \<and> tln_prev n = None"
  using rel i tl_rel_neighbours(3) [OF rel i, of "[]" "A i"]
  by (auto simp: tl_rel_def tl_seg_def prv_def tln_load_def node_at_def)

lemma remhead_rel:
  assumes rel: "tl_rel T L s A" and i: "i \<in> L"
  shows "\<exists>s'. threadlist_remhead i s = Some (case A i of [] \<Rightarrow> (None, s') | t # _ \<Rightarrow> (Some t, s')) \<and>
     tl_rel T L s' (A(i := tl (A i)))"
proof (cases "A i")
  case Nil
  then have "A(i := tl (A i)) = A" by auto
  with Nil load_after [OF rel i, of "[]" "[]"] load_tail [OF rel i] rel show ?thesis
    by (auto simp: threadlist_remhead_def)
next
  case (Cons t ts)
  from removenode_rel [OF rel i, of "[]" t ts] Cons obtain s' where
    s': "threadlist_removenode (Some (TlThread t)) s = Some s'" "slf s' = slf s"
      "tl_rel T L (count_dec i s') (A(i := ts))" by auto
  from load_after [OF rel i, of "[]" "A i"] Cons load_after [OF rel i, of "[t]" ts] load_self [OF rel i s'(2), of t] s'
  have "threadlist_remhead i s = Some (Some t, count_dec i s')"
    by (auto simp: threadlist_remhead_def before_def Let_def)
  with Cons s'(3) show ?thesis by auto
qed

lemma remtail_rel:
  assumes rel: "tl_rel T L s A" and i: "i \<in> L"
  shows "\<exists>s'. threadlist_remtail i s
      = Some (case A i of [] \<Rightarrow> (None, s') | _ # _ \<Rightarrow> (Some (last (A i)), s')) \<and>
     tl_rel T L s' (A(i := butlast (A i)))"
proof (cases "A i" rule: rev_cases)
  case Nil
  then have "A(i := butlast (A i)) = A" by auto
  with Nil load_before [OF rel i, of "[]" "[]"] load_head [OF rel i] rel show ?thesis
    by (auto simp: threadlist_remtail_def)
next
  case (snoc ts t)
  from removenode_rel [OF rel i, of ts t "[]"] snoc obtain s' where
    s': "threadlist_removenode (Some (TlThread t)) s = Some s'" "slf s' = slf s"
      "tl_rel T L (count_dec i s') (A(i := ts))" by auto
  from load_before [OF rel i, of "A i" "[]"] snoc load_before [OF rel i, of ts "[t]"] load_self [OF rel i s'(2), of t] s'
  have "threadlist_remtail i s = Some (Some t, count_dec i s')"
    by (auto simp: threadlist_remtail_def Let_def)
  with snoc s'(3) show ?thesis by (cases ts) auto
qed

lemma isempty_rel:
  assumes rel: "tl_rel T L s A" and i: "i \<in> L"
  shows "threadlist_isempty i s \<longleftrightarrow> A i = []"
  using tl_rel_length(3) [OF rel i] by (simp add: threadlist_isempty_def)

section \<open>The interface of the thread queues\<close>

text \<open>
  What the scheduler and the wait channels rely on: a family of queues of threads, no thread on
  two of them, threads appended at the tail and taken from the head.
\<close>

locale thread_queues =
  fixes rel :: "'s \<Rightarrow> ('l \<Rightarrow> nat list) \<Rightarrow> bool"
    and threads :: "nat set"
    and lists :: "'l set"
    and addtail :: "'l \<Rightarrow> nat \<Rightarrow> 's \<Rightarrow> 's option"
    and remhead :: "'l \<Rightarrow> 's \<Rightarrow> (nat option \<times> 's) option"
    and isempty :: "'l \<Rightarrow> 's \<Rightarrow> bool"
  assumes addtail_ok: "rel s A \<Longrightarrow> i \<in> lists \<Longrightarrow> t \<in> threads \<Longrightarrow> \<forall>j \<in> lists. t \<notin> set (A j) \<Longrightarrow>
      \<exists>s'. addtail i t s = Some s' \<and> rel s' (A(i := A i @ [t]))"
    and remhead_empty: "rel s A \<Longrightarrow> i \<in> lists \<Longrightarrow> A i = [] \<Longrightarrow> remhead i s = Some (None, s)"
    and remhead_ok: "rel s A \<Longrightarrow> i \<in> lists \<Longrightarrow> A i = t # ts \<Longrightarrow>
      \<exists>s'. remhead i s = Some (Some t, s') \<and> rel s' (A(i := ts))"
    and isempty_iff: "rel s A \<Longrightarrow> i \<in> lists \<Longrightarrow> isempty i s \<longleftrightarrow> A i = []"
    and content: "rel s A \<Longrightarrow> i \<in> lists \<Longrightarrow> set (A i) \<subseteq> threads \<and> distinct (A i)"
    and apart: "rel s A \<Longrightarrow> i \<in> lists \<Longrightarrow> j \<in> lists \<Longrightarrow> i \<noteq> j \<Longrightarrow> set (A i) \<inter> set (A j) = {}"
begin

text \<open>Adding a batch of threads to one queue keeps their order behind those already there.\<close>

fun addtail_all :: "'l \<Rightarrow> nat list \<Rightarrow> 's \<Rightarrow> 's option" where
  "addtail_all i [] s = Some s"
| "addtail_all i (t # ts) s = do { s \<leftarrow> addtail i t s; addtail_all i ts s }"

lemma addtail_all_ok:
  assumes "rel s A" and i: "i \<in> lists" and "set ts \<subseteq> threads" and "distinct ts"
    and "\<forall>j \<in> lists. set ts \<inter> set (A j) = {}"
  shows "\<exists>s'. addtail_all i ts s = Some s' \<and> rel s' (A(i := A i @ ts))"
  using assms(1,3-5)
proof (induction ts arbitrary: s A)
  case (Cons t ts)
  then obtain s1 where s1: "addtail i t s = Some s1" "rel s1 (A(i := A i @ [t]))"
    using addtail_ok [OF Cons.prems(1) i, of t] by auto
  have "\<forall>j \<in> lists. set ts \<inter> set ((A(i := A i @ [t])) j) = {}" using Cons.prems by auto
  from Cons.IH [OF s1(2) _ _ this, unfolded fun_upd_upd fun_upd_same] Cons.prems(2,3) s1(1)
  show ?case by simp
qed simp

text \<open>Taking as many threads as a queue holds gives them back in order and empties it.\<close>

fun remhead_n :: "nat \<Rightarrow> 'l \<Rightarrow> 's \<Rightarrow> (nat option list \<times> 's) option" where
  "remhead_n 0 i s = Some ([], s)"
| "remhead_n (Suc n) i s =
     do { (t, s) \<leftarrow> remhead i s; (ts, s) \<leftarrow> remhead_n n i s; Some (t # ts, s) }"

lemma remhead_n_ok:
  assumes "rel s A" and i: "i \<in> lists" and "A i = ts"
  shows "\<exists>s'. remhead_n (length ts) i s = Some (map Some ts, s') \<and> rel s' (A(i := []))"
  using assms(1,3)
proof (induction ts arbitrary: s A)
  case Nil
  then show ?case by (metis fun_upd_triv list.map(1) list.size(3) remhead_n.simps(1))
next
  case (Cons t ts)
  from remhead_ok [OF Cons.prems(1) i Cons.prems(2)] obtain s1 where
    s1: "remhead i s = Some (Some t, s1)" "rel s1 (A(i := ts))" by blast
  from Cons.IH [OF s1(2), unfolded fun_upd_upd fun_upd_same] obtain s2 where
    "remhead_n (length ts) i s1 = Some (map Some ts, s2)" "rel s2 (A(i := []))" by blast
  with s1(1) show ?case by (simp add: fun_upd_def)
qed

lemma fifo:
  assumes "rel s A" and "i \<in> lists" and "A i = []" and "set ts \<subseteq> threads" and "distinct ts"
    and "\<forall>j \<in> lists. set ts \<inter> set (A j) = {}"
  shows "\<exists>s1 s2. addtail_all i ts s = Some s1 \<and>
     remhead_n (length ts) i s1 = Some (map Some ts, s2) \<and> rel s2 A"
proof -
  from addtail_all_ok [OF assms(1,2,4-6)] assms(3) obtain s1 where
    s1: "addtail_all i ts s = Some s1" "rel s1 (A(i := ts))" by auto
  from remhead_n_ok [OF s1(2) assms(2)] s1(1) assms(3) show ?thesis
    by (auto simp: fun_upd_idem)
qed

end

interpretation tlq: thread_queues "tl_rel T L" T L
    threadlist_addtail threadlist_remhead threadlist_isempty
  for T :: "nat set" and L :: "'l set"
proof unfold_locales
  fix s :: "'l threadlists" and A i j t ts
  assume rel: "tl_rel T L s A" and i: "i \<in> L"
  show "\<exists>s'. threadlist_addtail i t s = Some s' \<and> tl_rel T L s' (A(i := A i @ [t]))"
    if "t \<in> T" "\<forall>j \<in> L. t \<notin> set (A j)" using addtail_rel [OF rel i that] .
  show "threadlist_remhead i s = Some (None, s)" if "A i = []"
    using load_after [OF rel i, of "[]" "[]"] load_tail [OF rel i] that
    by (auto simp: threadlist_remhead_def)
  show "\<exists>s'. threadlist_remhead i s = Some (Some t, s') \<and> tl_rel T L s' (A(i := ts))"
    if "A i = t # ts" using remhead_rel [OF rel i] that by simp
  show "threadlist_isempty i s \<longleftrightarrow> A i = []" using isempty_rel [OF rel i] .
  show "set (A i) \<subseteq> T \<and> distinct (A i)" using rel i by (simp add: tl_rel_def)
  show "set (A i) \<inter> set (A j) = {}" if "j \<in> L" "i \<noteq> j"
    using rel i that by (simp add: tl_rel_def)
qed

section \<open>Sequences of list operations\<close>

datatype 'l tlop = AddHead 'l nat | AddTail 'l nat | RemHead 'l | RemTail 'l
  | InsAfter 'l nat nat | InsBefore 'l nat nat | Remove 'l nat | IsEmpty 'l | CleanupNode nat

datatype tlres = TlUnit | TlGot "nat option" | TlEmpty bool

definition threadlist_do :: "'l tlop \<Rightarrow> 'l threadlists \<Rightarrow> (tlres \<times> 'l threadlists) option" where
  "threadlist_do op s = (case op of
     AddHead i t \<Rightarrow> do { s \<leftarrow> threadlist_addhead i t s; Some (TlUnit, s) }
   | AddTail i t \<Rightarrow> do { s \<leftarrow> threadlist_addtail i t s; Some (TlUnit, s) }
   | RemHead i \<Rightarrow> do { (t, s) \<leftarrow> threadlist_remhead i s; Some (TlGot t, s) }
   | RemTail i \<Rightarrow> do { (t, s) \<leftarrow> threadlist_remtail i s; Some (TlGot t, s) }
   | InsAfter i u t \<Rightarrow> do { s \<leftarrow> threadlist_insertafter i u t s; Some (TlUnit, s) }
   | InsBefore i t u \<Rightarrow> do { s \<leftarrow> threadlist_insertbefore i t u s; Some (TlUnit, s) }
   | Remove i t \<Rightarrow> do { s \<leftarrow> threadlist_remove i t s; Some (TlUnit, s) }
   | IsEmpty i \<Rightarrow> Some (TlEmpty (threadlist_isempty i s), s)
   | CleanupNode t \<Rightarrow> do { threadlistnode_cleanup t s; Some (TlUnit, s) })"

text \<open>
  The same operations on sequences of threads.  Adding asks for a thread on no list, inserting
  next to a thread and removing it ask for a thread on that list.
\<close>

definition seqs_do :: "nat set \<Rightarrow> 'l set \<Rightarrow> 'l tlop \<Rightarrow> ('l \<Rightarrow> nat list) \<Rightarrow>
    (tlres \<times> ('l \<Rightarrow> nat list)) option" where
  "seqs_do T L op A =
     (let off = (\<lambda>t. t \<in> T \<and> (\<forall>j \<in> L. t \<notin> set (A j)));
          put = (\<lambda>i l. Some (TlUnit, A(i := l)))
      in case op of
        AddHead i t \<Rightarrow> if i \<in> L \<and> off t then put i (t # A i) else None
      | AddTail i t \<Rightarrow> if i \<in> L \<and> off t then put i (A i @ [t]) else None
      | RemHead i \<Rightarrow> if i \<in> L then (case A i of [] \<Rightarrow> Some (TlGot None, A)
                                   | t # ts \<Rightarrow> Some (TlGot (Some t), A(i := ts))) else None
      | RemTail i \<Rightarrow> if i \<in> L then (case A i of [] \<Rightarrow> Some (TlGot None, A)
                      | t # ts \<Rightarrow> Some (TlGot (Some (last (A i))), A(i := butlast (A i)))) else None
      | InsAfter i u t \<Rightarrow> if i \<in> L \<and> off t \<and> u \<in> set (A i)
                         then put i (takeWhile (\<lambda>x. x \<noteq> u) (A i) @ u # t
                                     # tl (dropWhile (\<lambda>x. x \<noteq> u) (A i))) else None
      | InsBefore i t u \<Rightarrow> if i \<in> L \<and> off t \<and> u \<in> set (A i)
                          then put i (takeWhile (\<lambda>x. x \<noteq> u) (A i) @ t
                                      # dropWhile (\<lambda>x. x \<noteq> u) (A i)) else None
      | Remove i t \<Rightarrow> if i \<in> L \<and> t \<in> set (A i) then put i (remove1 t (A i)) else None
      | IsEmpty i \<Rightarrow> if i \<in> L then Some (TlEmpty (A i = []), A) else None
      | CleanupNode t \<Rightarrow> if off t then Some (TlUnit, A) else None)"

lemma takeWhile_split:
  assumes "u \<in> set l"
  shows "l = takeWhile (\<lambda>x. x \<noteq> u) l @ u # tl (dropWhile (\<lambda>x. x \<noteq> u) l)"
    and "dropWhile (\<lambda>x. x \<noteq> u) l = u # tl (dropWhile (\<lambda>x. x \<noteq> u) l)"
  using assms by (induction l) auto

lemma remove1_split:
  assumes "u \<in> set l"
  obtains l1 l2 where "l = l1 @ u # l2" "remove1 u l = l1 @ l2"
  using assms by (metis remove1_append remove1.simps(2) split_list_first)

lemma cleanup_node_rel:
  assumes "tl_rel T L s A" and "t \<in> T" and "\<forall>j \<in> L. t \<notin> set (A j)"
  shows "threadlistnode_cleanup t s = Some ()"
proof -
  from assms have "slf s (TlThread t) = Some (Some t)" "nxt s (TlThread t) = None"
    "prv s (TlThread t) = None" by (simp_all add: tl_rel_def)
  then show ?thesis
    by (auto simp: threadlistnode_cleanup_def tln_load_def slf_def nxt_def prv_def)
qed

lemma threadlist_do_refines:
  assumes rel: "tl_rel T L s A" and spec: "seqs_do T L op A = Some (r, A')"
  shows "\<exists>s'. threadlist_do op s = Some (r, s') \<and> tl_rel T L s' A'"
proof (cases op)
  case (AddHead i t)
  then show ?thesis using spec addhead_rel [OF rel, of i t]
    by (auto simp: seqs_do_def threadlist_do_def split: if_splits)
next
  case (AddTail i t)
  then show ?thesis using spec addtail_rel [OF rel, of i t]
    by (auto simp: seqs_do_def threadlist_do_def split: if_splits)
next
  case (RemHead i)
  then have "i \<in> L" using spec by (simp add: seqs_do_def split: if_splits)
  then show ?thesis using RemHead spec tlq.remhead_empty [OF rel] tlq.remhead_ok [OF rel, of i] rel
    by (cases "A i") (auto simp: seqs_do_def threadlist_do_def)
next
  case (RemTail i)
  then have i: "i \<in> L" using spec by (simp add: seqs_do_def split: if_splits)
  from remtail_rel [OF rel i] RemTail i spec show ?thesis
    by (cases "A i") (auto simp: seqs_do_def threadlist_do_def fun_upd_idem)
next
  case (InsAfter i u t)
  then have "i \<in> L" "t \<in> T" "\<forall>j \<in> L. t \<notin> set (A j)" "u \<in> set (A i)"
    using spec by (auto simp: seqs_do_def split: if_splits)
  from insertafter_thread_rel [OF rel this(1-3) takeWhile_split(1) [OF this(4)]] InsAfter spec this
  show ?thesis by (auto simp: seqs_do_def threadlist_do_def)
next
  case (InsBefore i t u)
  then have *: "i \<in> L" "t \<in> T" "\<forall>j \<in> L. t \<notin> set (A j)" "u \<in> set (A i)"
    using spec by (auto simp: seqs_do_def split: if_splits)
  from insertbefore_thread_rel [OF rel *(1-3) takeWhile_split(1) [OF *(4)]] InsBefore spec *
  show ?thesis using takeWhile_split(2) [OF *(4)]
    by (auto simp: seqs_do_def threadlist_do_def)
next
  case (Remove i t)
  then have *: "i \<in> L" "t \<in> set (A i)" using spec by (auto simp: seqs_do_def split: if_splits)
  obtain l1 l2 where Ai: "A i = l1 @ t # l2" "remove1 t (A i) = l1 @ l2"
    using remove1_split [OF *(2)] .
  with remove_rel [OF rel *(1) Ai(1)] Remove spec * show ?thesis
    by (auto simp: seqs_do_def threadlist_do_def)
next
  case (IsEmpty i)
  then show ?thesis using spec rel isempty_rel [OF rel, of i]
    by (auto simp: seqs_do_def threadlist_do_def split: if_splits)
next
  case (CleanupNode t)
  then show ?thesis using spec rel cleanup_node_rel [OF rel, of t]
    by (auto simp: seqs_do_def threadlist_do_def split: if_splits)
qed

text \<open>A fresh store: thread nodes and lists as their \<^verbatim>\<open>_init\<close> functions leave them.\<close>

fun init_all :: "nat list \<Rightarrow> 'l list \<Rightarrow> 'l threadlists" where
  "init_all [] [] = \<lparr>tl_node = (\<lambda>_. None), tl_count = (\<lambda>_. 0)\<rparr>"
| "init_all [] (i # is) = threadlist_init i (init_all [] is)"
| "init_all (t # ts) is = threadlistnode_init t (init_all ts is)"

lemma init_all_node:
  "tl_node (init_all ts ls) a = (case a of
     TlHead i \<Rightarrow> if i \<in> set ls
                then Some \<lparr>tln_prev = None, tln_next = Some (TlTail i), tln_self = None\<rparr> else None
   | TlTail i \<Rightarrow> if i \<in> set ls
                then Some \<lparr>tln_prev = Some (TlHead i), tln_next = None, tln_self = None\<rparr> else None
   | TlThread t \<Rightarrow> if t \<in> set ts
                then Some \<lparr>tln_prev = None, tln_next = None, tln_self = Some t\<rparr> else None)"
  by (induction ts ls rule: init_all.induct)
    (auto simp: threadlist_init_def threadlistnode_init_def store_count_def split: tln.splits)

lemma init_all_count: "tl_count (init_all ts ls) i = 0"
  by (induction ts ls rule: init_all.induct)
    (auto simp: threadlist_init_def threadlistnode_init_def store_count_def)

lemma init_all_rel:
  assumes "card (set ts) < 2 ^ 32"
  shows "tl_rel (set ts) (set ls) (init_all ts ls) (\<lambda>_. [])"
  using assms by (auto simp: tl_rel_def tl_seg_def tl_nodes_def nxt_def prv_def slf_def
      init_all_node init_all_count)

section \<open>Properties\<close>

text \<open>
  C4. The pointer code of \<^verbatim>\<open>threadlist.c\<close> implements lists: after the nodes of some threads and
  some lists are initialised, any sequence of list calls that only adds a thread that is on no
  list and only removes, or inserts next to, a thread that is on the list named, returns what
  the same operations on sequences return (which thread, whether empty), with no null pointer
  followed and no assertion failing; a thread taken off has null links again, so cleaning its
  node up succeeds.
\<close>

theorem threadlist_refines_sequences:
  assumes "card (set ts) < 2 ^ 32"
    and "run_ops (seqs_do (set ts) (set ls)) ops (\<lambda>_. []) = Some (rs, A)"
  shows "\<exists>s. run_ops threadlist_do ops (init_all ts ls) = Some (rs, s) \<and>
     (\<forall>i \<in> set ls. tl_count s i = length (A i) \<and> chain (nxt s) (prv s) (tl_nodes i (A i)))"
proof -
  have "\<exists>s. run_ops threadlist_do ops (init_all ts ls) = Some (rs, s) \<and>
      tl_rel (set ts) (set ls) s A"
    by (rule run_ops_simulation [where R = "tl_rel (set ts) (set ls)", OF threadlist_do_refines
          init_all_rel [OF assms(1)] assms(2)])
  then show ?thesis by (auto simp: tl_rel_def tl_seg_def)
qed

theorem threadlist_refines_sequences_witness:
  "\<exists>s. run_ops threadlist_do
       [AddTail ''run'' 7, AddTail ''run'' 8, AddHead ''wait'' 9, InsAfter ''run'' 7 3,
        RemHead ''run'', RemTail ''run'', CleanupNode 8, Remove ''wait'' 9, IsEmpty ''wait'']
       (init_all [3, 7, 8, 9] [''run'', ''wait''])
     = Some ([TlUnit, TlUnit, TlUnit, TlUnit, TlGot (Some 7), TlGot (Some 8), TlUnit, TlUnit,
         TlEmpty True], s) \<and> tl_count s ''run'' = 1"
proof -
  have "run_ops (seqs_do (set [3, 7, 8, 9]) (set [''run'', ''wait'']))
       [AddTail ''run'' 7, AddTail ''run'' 8, AddHead ''wait'' 9, InsAfter ''run'' 7 3,
        RemHead ''run'', RemTail ''run'', CleanupNode 8, Remove ''wait'' 9, IsEmpty ''wait'']
       (\<lambda>_. []) = Some ([TlUnit, TlUnit, TlUnit, TlUnit, TlGot (Some 7), TlGot (Some 8), TlUnit,
         TlUnit, TlEmpty True], (\<lambda>_. [])(''run'' := [3], ''wait'' := []))"
    by (simp add: seqs_do_def fun_upd_twist)
  from threadlist_refines_sequences [OF _ this] show ?thesis by (auto simp: card_insert_if)
qed

end
