(* ===== verification/Kern_Pid.thy ===== *)
theory Kern_Pid
  imports Kern_Prelude
begin

text \<open>
  Process ids and exit statuses: \<^verbatim>\<open>kern/proc/pid.c\<close>.  The process table is an array of
  \<^verbatim>\<open>PROCS_MAX\<close> slots indexed by the pid modulo the table size.

  Every function is modelled with its lock operations and assertions; the pid of the calling
  process (\<^verbatim>\<open>curproc->p_pid\<close>) is an argument.  A thread asleep on the condition variable of an
  entry is named by the pid of its process, since a user process has one thread.  \<^verbatim>\<open>pid_wait\<close> is
  split at its \<^verbatim>\<open>cv_wait\<close>: \<open>pid_wait\<close> runs up to it and \<open>pid_wait_resume\<close> runs from the moment the
  lock is taken again.

  The second half of the theory composes the calls into a transition system of processes that
  create, wait for, disown and outlive each other, and shows that no assertion of the module can
  fail in any reachable state, that a pid is never handed out twice, and that the status a
  process exits with is the one its parent's wait returns.
\<close>

section \<open>Model\<close>

definition PROCS_MAX :: nat where "PROCS_MAX = 128"
definition PID_MIN :: int where "PID_MIN = 2"
definition PID_MAX :: int where "PID_MAX = 32767"
definition INVALID_PID :: int where "INVALID_PID = 0"
definition KERNEL_PID :: int where "KERNEL_PID = 1"
definition WNOHANG :: int where "WNOHANG = 1"

lemmas pid_consts [simp] = PROCS_MAX_def PID_MIN_def PID_MAX_def INVALID_PID_def KERNEL_PID_def
  WNOHANG_def

record pidinfo =
  pi_pid :: int
  pi_ppid :: int
  pi_exited :: bool
  pi_exitstatus :: int
  pi_cv :: "int list"

record pidtab =
  pt_lock :: bool
  pt_info :: "pidinfo option list"
  pt_nextpid :: int
  pt_nprocs :: int
  pt_mem :: kmem

definition pidlock_acquire :: "pidtab \<Rightarrow> pidtab option" where
  "pidlock_acquire t = do { kassert (\<not> pt_lock t); Some (t\<lparr>pt_lock := True\<rparr>) }"

definition pidlock_release :: "pidtab \<Rightarrow> pidtab option" where
  "pidlock_release t = do { kassert (pt_lock t); Some (t\<lparr>pt_lock := False\<rparr>) }"

definition pidinfo_create :: "int \<Rightarrow> int \<Rightarrow> kmem \<Rightarrow> (pidinfo option \<times> kmem) option" where
  "pidinfo_create pid ppid m =
     do { kassert (pid \<noteq> INVALID_PID);
          let (ok, m) = mem_take m;
          if \<not> ok then Some (None, m)
          else let (cv_ok, m) = mem_take m
               in if \<not> cv_ok then Some (None, m)
                  else Some (Some \<lparr>pi_pid = pid, pi_ppid = ppid, pi_exited = False,
                                   pi_exitstatus = 0xbeef, pi_cv = []\<rparr>, m) }"

text \<open>\<^verbatim>\<open>cv_destroy\<close> asserts, in \<^verbatim>\<open>wchan_destroy\<close>, that nobody sleeps on the condition variable.\<close>

definition pidinfo_destroy :: "pidinfo \<Rightarrow> unit option" where
  "pidinfo_destroy pi =
     do { kassert (pi_exited pi); kassert (pi_ppid pi = INVALID_PID); kassert (pi_cv pi = []) }"

definition pid_bootstrap :: "kmem \<Rightarrow> pidtab option" where
  "pid_bootstrap m =
     do { let (ok, m) = mem_take m;
          kassert ok;
          let info = replicate PROCS_MAX None;
          (pi, m) \<leftarrow> pidinfo_create KERNEL_PID INVALID_PID m;
          kassert (pi \<noteq> None);
          info \<leftarrow> cwrite info (nat KERNEL_PID) pi;
          Some \<lparr>pt_lock = False, pt_info = info, pt_nextpid = PID_MIN, pt_nprocs = 1,
                pt_mem = m\<rparr> }"

definition pslot :: "int \<Rightarrow> nat" where
  "pslot pid = nat (pid mod int PROCS_MAX)"

definition pi_get :: "int \<Rightarrow> pidtab \<Rightarrow> pidinfo option option" where
  "pi_get pid t =
     do { kassert (0 \<le> pid);
          kassert (pid \<noteq> INVALID_PID);
          kassert (pt_lock t);
          pi \<leftarrow> cread (pt_info t) (pslot pid);
          case pi of
            None \<Rightarrow> Some None
          | Some p \<Rightarrow> Some (if pi_pid p \<noteq> pid then None else Some p) }"

definition pi_put :: "int \<Rightarrow> pidinfo \<Rightarrow> pidtab \<Rightarrow> pidtab option" where
  "pi_put pid pi t =
     do { kassert (pt_lock t);
          kassert (pid \<noteq> INVALID_PID);
          old \<leftarrow> cread (pt_info t) (pslot pid);
          kassert (old = None);
          info \<leftarrow> cwrite (pt_info t) (pslot pid) (Some pi);
          Some (t\<lparr>pt_info := info, pt_nprocs := pt_nprocs t + 1\<rparr>) }"

definition pi_drop :: "int \<Rightarrow> pidtab \<Rightarrow> pidtab option" where
  "pi_drop pid t =
     do { kassert (pt_lock t);
          slot \<leftarrow> cread (pt_info t) (pslot pid);
          pi \<leftarrow> slot;
          kassert (pi_pid pi = pid);
          pidinfo_destroy pi;
          info \<leftarrow> cwrite (pt_info t) (pslot pid) None;
          Some (t\<lparr>pt_info := info, pt_nprocs := pt_nprocs t - 1\<rparr>) }"

text \<open>Writing through a pointer into the table: the entry of slot \<open>i\<close> is replaced.\<close>

definition pi_store :: "nat \<Rightarrow> pidinfo \<Rightarrow> pidtab \<Rightarrow> pidtab option" where
  "pi_store i pi t = do { info \<leftarrow> cwrite (pt_info t) i (Some pi); Some (t\<lparr>pt_info := info\<rparr>) }"

definition inc_nextpid :: "int \<Rightarrow> int" where
  "inc_nextpid nextpid = (if PID_MAX < nextpid + 1 then PID_MIN else nextpid + 1)"

text \<open>The search for a free slot; the assertion on \<open>count\<close> is the code's own bound.\<close>

function pid_alloc_loop :: "pidinfo option list \<Rightarrow> nat \<Rightarrow> int \<Rightarrow> int option" where
  "pid_alloc_loop info count nextpid =
     (if pslot nextpid < length info
      then if info ! pslot nextpid \<noteq> None
           then if count < PROCS_MAX * 2 + 5
                then pid_alloc_loop info (count + 1) (inc_nextpid nextpid)
                else None
           else Some nextpid
      else None)"
  by pat_completeness auto
termination
  by (relation "measure (\<lambda>(_, count, _). PROCS_MAX * 2 + 5 - count)") auto

declare pid_alloc_loop.simps [simp del]

definition pid_alloc :: "int \<Rightarrow> pidtab \<Rightarrow> ((errno + int) \<times> pidtab) option" where
  "pid_alloc curpid t =
     do { kassert (curpid \<noteq> INVALID_PID);
          t \<leftarrow> pidlock_acquire t;
          if pt_nprocs t = int PROCS_MAX
          then do { t \<leftarrow> pidlock_release t; Some (Inl EAGAIN, t) }
          else do {
            pid \<leftarrow> pid_alloc_loop (pt_info t) 0 (pt_nextpid t);
            let t = t\<lparr>pt_nextpid := pid\<rparr>;
            (pi, m) \<leftarrow> pidinfo_create pid curpid (pt_mem t);
            let t = t\<lparr>pt_mem := m\<rparr>;
            case pi of
              None \<Rightarrow> do { t \<leftarrow> pidlock_release t; Some (Inl ENOMEM, t) }
            | Some p \<Rightarrow> do { t \<leftarrow> pi_put pid p t;
                            let t = t\<lparr>pt_nextpid := inc_nextpid (pt_nextpid t)\<rparr>;
                            t \<leftarrow> pidlock_release t;
                            Some (Inr pid, t) } } }"

definition pid_unalloc :: "int \<Rightarrow> int \<Rightarrow> pidtab \<Rightarrow> pidtab option" where
  "pid_unalloc curpid theirpid t =
     do { kassert (PID_MIN \<le> theirpid \<and> theirpid \<le> PID_MAX);
          t \<leftarrow> pidlock_acquire t;
          them \<leftarrow> pi_get theirpid t;
          p \<leftarrow> them;
          kassert (\<not> pi_exited p);
          kassert (pi_ppid p = curpid);
          t \<leftarrow> pi_store (pslot theirpid)
                (p\<lparr>pi_exitstatus := 0xdead, pi_exited := True, pi_ppid := INVALID_PID\<rparr>) t;
          t \<leftarrow> pi_drop theirpid t;
          pidlock_release t }"

definition pid_disown :: "int \<Rightarrow> int \<Rightarrow> pidtab \<Rightarrow> pidtab option" where
  "pid_disown curpid theirpid t =
     do { kassert (PID_MIN \<le> theirpid \<and> theirpid \<le> PID_MAX);
          t \<leftarrow> pidlock_acquire t;
          them \<leftarrow> pi_get theirpid t;
          p \<leftarrow> them;
          kassert (pi_ppid p = curpid);
          t \<leftarrow> pi_store (pslot theirpid) (p\<lparr>pi_ppid := INVALID_PID\<rparr>) t;
          t \<leftarrow> (if pi_exited p then pi_drop (pi_pid p) t else Some t);
          pidlock_release t }"

text \<open>The loop of \<^verbatim>\<open>pid_setexitstatus\<close> over the table.\<close>

fun disown_children :: "int \<Rightarrow> nat list \<Rightarrow> pidtab \<Rightarrow> pidtab option" where
  "disown_children curpid [] t = Some t"
| "disown_children curpid (i # is) t =
     do { slot \<leftarrow> cread (pt_info t) i;
          t \<leftarrow> (case slot of
                 None \<Rightarrow> Some t
               | Some p \<Rightarrow>
                   if pi_ppid p = curpid
                   then do { t \<leftarrow> pi_store i (p\<lparr>pi_ppid := INVALID_PID\<rparr>) t;
                             if pi_exited p then pi_drop (pi_pid p) t else Some t }
                   else Some t);
          disown_children curpid is t }"

text \<open>
  The result is the new \<^verbatim>\<open>curproc->p_pid\<close> and the processes the broadcast wakes.
\<close>

definition pid_setexitstatus ::
    "int \<Rightarrow> int \<Rightarrow> pidtab \<Rightarrow> ((int \<times> int list) \<times> pidtab) option" where
  "pid_setexitstatus curpid status t =
     do { t \<leftarrow> pidlock_acquire t;
          kassert (curpid \<noteq> INVALID_PID);
          t \<leftarrow> disown_children curpid [0..<PROCS_MAX] t;
          them \<leftarrow> pi_get curpid t;
          us \<leftarrow> them;
          let us = us\<lparr>pi_exitstatus := status, pi_exited := True\<rparr>;
          t \<leftarrow> pi_store (pslot curpid) us t;
          (woken, t) \<leftarrow>
            (if pi_ppid us = INVALID_PID
             then do { t \<leftarrow> pi_drop curpid t; Some ([], t) }
             else do { t \<leftarrow> pi_store (pslot curpid) (us\<lparr>pi_cv := []\<rparr>) t; Some (pi_cv us, t) });
          t \<leftarrow> pidlock_release t;
          Some ((INVALID_PID, woken), t) }"

text \<open>
  What \<^verbatim>\<open>pid_wait\<close> comes to: an error, nothing yet (\<^verbatim>\<open>WNOHANG\<close>), the status and the pid stored
  through those of the two pointers that are not null, or the caller asleep.
\<close>

datatype waitres = WFail errno | WNothing | WGot "int option" "int option" | WSleep

definition pid_wait_finish ::
    "int \<Rightarrow> pidinfo \<Rightarrow> bool \<Rightarrow> bool \<Rightarrow> pidtab \<Rightarrow> (waitres \<times> pidtab) option" where
  "pid_wait_finish theirpid them status ret t =
     do { let got = WGot (if status then Some (pi_exitstatus them) else None)
                         (if ret then Some theirpid else None);
          t \<leftarrow> pi_store (pslot theirpid) (them\<lparr>pi_ppid := 0\<rparr>) t;
          t \<leftarrow> pi_drop (pi_pid them) t;
          t \<leftarrow> pidlock_release t;
          Some (got, t) }"

definition pid_wait ::
    "int \<Rightarrow> int \<Rightarrow> bool \<Rightarrow> int \<Rightarrow> bool \<Rightarrow> pidtab \<Rightarrow> (waitres \<times> pidtab) option" where
  "pid_wait curpid theirpid status flags ret t =
     do { kassert (curpid \<noteq> INVALID_PID);
          if theirpid = curpid then Some (WFail EINVAL, t)
          else if theirpid = INVALID_PID \<or> theirpid < 0 then Some (WFail ENOSYS, t)
          else if flags \<noteq> 0 \<and> flags \<noteq> WNOHANG then Some (WFail EINVAL, t)
          else do {
            t \<leftarrow> pidlock_acquire t;
            them \<leftarrow> pi_get theirpid t;
            case them of
              None \<Rightarrow> do { t \<leftarrow> pidlock_release t; Some (WFail ESRCH, t) }
            | Some p \<Rightarrow> do {
                kassert (pi_pid p = theirpid);
                if pi_ppid p \<noteq> curpid
                then do { t \<leftarrow> pidlock_release t; Some (WFail EPERM, t) }
                else if \<not> pi_exited p
                then if flags = WNOHANG
                     then do { t \<leftarrow> pidlock_release t; kassert ret; Some (WNothing, t) }
                     else do { t \<leftarrow> pi_store (pslot theirpid) (p\<lparr>pi_cv := pi_cv p @ [curpid]\<rparr>) t;
                               t \<leftarrow> pidlock_release t;
                               Some (WSleep, t) }
                else pid_wait_finish theirpid p status ret t } } }"

text \<open>
  After the \<^verbatim>\<open>cv_wait\<close>: the pointer \<^verbatim>\<open>them\<close> taken before it is followed again, which has a result
  only if the entry is still there.
\<close>

definition pid_wait_resume ::
    "int \<Rightarrow> bool \<Rightarrow> bool \<Rightarrow> pidtab \<Rightarrow> (waitres \<times> pidtab) option" where
  "pid_wait_resume theirpid status ret t =
     do { t \<leftarrow> pidlock_acquire t;
          slot \<leftarrow> cread (pt_info t) (pslot theirpid);
          p \<leftarrow> slot;
          kassert (pi_pid p = theirpid);
          kassert (pi_exited p);
          pid_wait_finish theirpid p status ret t }"

section \<open>The table as a map from pids to entries\<close>

definition pent :: "pidtab \<Rightarrow> int \<rightharpoonup> pidinfo" where
  "pent t pid = (case pt_info t ! pslot pid of
       None \<Rightarrow> None | Some p \<Rightarrow> if pi_pid p = pid then Some p else None)"

text \<open>
  The table's own invariant, without the lock: entries are in the slot of their pid, pids are in
  range, the count of processes is that of the occupied slots.
\<close>

definition ptab_ok :: "pidtab \<Rightarrow> bool" where
  "ptab_ok t \<longleftrightarrow> length (pt_info t) = PROCS_MAX \<and>
     PID_MIN \<le> pt_nextpid t \<and> pt_nextpid t \<le> PID_MAX \<and>
     pt_nprocs t = int (countP (\<lambda>e. e \<noteq> None) (pt_info t)) \<and>
     (\<forall>i < PROCS_MAX. \<forall>p. pt_info t ! i = Some p \<longrightarrow>
        KERNEL_PID \<le> pi_pid p \<and> pi_pid p \<le> PID_MAX \<and> pslot (pi_pid p) = i)"

lemma pslot_bound [simp]: "pslot pid < 128"
  by (simp add: pslot_def)

lemma ptab_ok_length [simp]: "ptab_ok t \<Longrightarrow> length (pt_info t) = 128"
  by (simp add: ptab_ok_def)

lemma ptab_ok_entry:
  "ptab_ok t \<Longrightarrow> i < 128 \<Longrightarrow> pt_info t ! i = Some p \<Longrightarrow>
   1 \<le> pi_pid p \<and> pi_pid p \<le> 32767 \<and> pslot (pi_pid p) = i"
  by (simp add: ptab_ok_def)

lemma pent_SomeD:
  "ptab_ok t \<Longrightarrow> pent t c = Some p \<Longrightarrow>
   pt_info t ! pslot c = Some p \<and> pi_pid p = c \<and> 1 \<le> c \<and> c \<le> PID_MAX"
  by (auto simp: pent_def dest: ptab_ok_entry [OF _ pslot_bound]
      split: option.splits if_splits)

lemma pent_slot:
  "ptab_ok t \<Longrightarrow> i < 128 \<Longrightarrow> pt_info t ! i = Some p \<Longrightarrow> pent t (pi_pid p) = Some p \<and> pslot (pi_pid p) = i"
  by (auto simp: pent_def ptab_ok_def)

lemma ptab_ok_lock [simp]: "ptab_ok (t\<lparr>pt_lock := b\<rparr>) = ptab_ok t"
  by (simp add: ptab_ok_def)

lemma pent_simps [simp]:
  "pent (t\<lparr>pt_lock := b\<rparr>) = pent t" "pent (t\<lparr>pt_mem := m\<rparr>) = pent t"
  "pent (t\<lparr>pt_nextpid := n\<rparr>) = pent t" "pent (t\<lparr>pt_nprocs := k\<rparr>) = pent t"
  by (simp_all add: pent_def fun_eq_iff)

text \<open>Replacing the entry of a pid, and removing it.\<close>

definition put_ent :: "int \<Rightarrow> pidinfo option \<Rightarrow> pidtab \<Rightarrow> pidtab" where
  "put_ent c e t = t\<lparr>pt_info := (pt_info t)[pslot c := e]\<rparr>"

lemma pent_put_ent:
  assumes "ptab_ok t" and "pt_info t ! pslot c = None \<or> pent t c \<noteq> None"
    and "\<And>p. e = Some p \<Longrightarrow> pi_pid p = c"
  shows "pent (put_ent c e t) = (pent t)(c := e)"
proof
  fix x
  show "pent (put_ent c e t) x = ((pent t)(c := e)) x"
    using assms by (cases "pslot x = pslot c"; cases e)
      (auto simp: pent_def put_ent_def split: option.splits if_splits)
qed

lemma ptab_ok_put_ent:
  assumes ok: "ptab_ok t" and e: "\<And>p. e = Some p \<Longrightarrow> pi_pid p = c \<and> 1 \<le> c \<and> c \<le> PID_MAX"
    and n: "k = pt_nprocs t + (if e = None then 0 else 1)
              - (if pt_info t ! pslot c = None then 0 else 1)"
  shows "ptab_ok (put_ent c e t\<lparr>pt_nprocs := k\<rparr>)"
proof -
  have "pslot c < length (pt_info t)" using ok by simp
  from countP_update [OF this, of "\<lambda>e. e \<noteq> None" e] n ok
  have "k = int (countP (\<lambda>e. e \<noteq> None) ((pt_info t)[pslot c := e]))"
    by (auto simp: ptab_ok_def split: if_splits)
  with ok e show ?thesis
    by (auto simp: ptab_ok_def put_ent_def list_update_cases)
qed

section \<open>Every call in terms of the map\<close>

lemma pi_get_eq:
  assumes "ptab_ok t" "pt_lock t" "1 \<le> c"
  shows "pi_get c t = Some (pent t c)"
  using assms by (auto simp: pi_get_def pent_def split: option.splits)

lemma pi_store_eq: "ptab_ok t \<Longrightarrow> pi_store (pslot c) p t = Some (put_ent c (Some p) t)"
  by (simp add: pi_store_def put_ent_def)

lemma put_ent_fields [simp]:
  "pt_lock (put_ent c e t) = pt_lock t" "pt_nprocs (put_ent c e t) = pt_nprocs t"
  "pt_nextpid (put_ent c e t) = pt_nextpid t" "pt_mem (put_ent c e t) = pt_mem t"
  by (simp_all add: put_ent_def)

text \<open>Storing into an existing entry keeps the table well formed.\<close>

lemma store_ent:
  assumes ok: "ptab_ok t" and c: "pent t c = Some q" and p: "pi_pid p = c"
  shows "ptab_ok (put_ent c (Some p) t)" "pent (put_ent c (Some p) t) = (pent t)(c \<mapsto> p)"
proof -
  note q = pent_SomeD [OF ok c]
  have "ptab_ok (put_ent c (Some p) t\<lparr>pt_nprocs := pt_nprocs t\<rparr>)"
    using ok by (rule ptab_ok_put_ent) (use q p in auto)
  moreover have "put_ent c (Some p) t\<lparr>pt_nprocs := pt_nprocs t\<rparr> = put_ent c (Some p) t"
    by (simp add: put_ent_def)
  ultimately show "ptab_ok (put_ent c (Some p) t)" by simp
  show "pent (put_ent c (Some p) t) = (pent t)(c \<mapsto> p)"
    using ok c p by (intro pent_put_ent) auto
qed

text \<open>\<open>drop_ent\<close>: the table without the entry of a pid.\<close>

definition drop_ent :: "int \<Rightarrow> pidtab \<Rightarrow> pidtab" where
  "drop_ent c t = put_ent c None t\<lparr>pt_nprocs := pt_nprocs t - 1\<rparr>"

lemma drop_ent_fields [simp]:
  "pt_lock (drop_ent c t) = pt_lock t" "pt_nextpid (drop_ent c t) = pt_nextpid t"
  "pt_mem (drop_ent c t) = pt_mem t"
  by (simp_all add: drop_ent_def)

lemma drop_ent:
  assumes ok: "ptab_ok t" and c: "pent t c = Some q"
  shows "ptab_ok (drop_ent c t)" "pent (drop_ent c t) = (pent t)(c := None)"
proof -
  note q = pent_SomeD [OF ok c]
  show "ptab_ok (drop_ent c t)"
    unfolding drop_ent_def using ok by (rule ptab_ok_put_ent) (use q in auto)
  show "pent (drop_ent c t) = (pent t)(c := None)"
    unfolding drop_ent_def using pent_put_ent [OF ok, of c None] c by simp
qed

lemma pi_drop_eq:
  assumes ok: "ptab_ok t" "pt_lock t" and c: "pent t c = Some p"
    and p: "pi_exited p" "pi_ppid p = 0" "pi_cv p = []"
  shows "pi_drop c t = Some (drop_ent c t)"
  using pent_SomeD [OF ok(1) c] ok p
  by (simp add: pi_drop_def pidinfo_destroy_def drop_ent_def put_ent_def)

text \<open>Storing a dead, disowned entry and dropping it is just dropping it.\<close>

lemma drop_after_store [simp]: "drop_ent c (put_ent c e t) = drop_ent c t"
  by (simp add: drop_ent_def put_ent_def)

lemma store_then_drop:
  assumes ok: "ptab_ok t" "pt_lock t" and c: "pent t c = Some q"
    and p: "pi_pid p = c" "pi_exited p" "pi_ppid p = 0" "pi_cv p = []"
  shows "pi_drop c (put_ent c (Some p) t) = Some (drop_ent c t)"
  using pi_drop_eq [of "put_ent c (Some p) t" c p] store_ent [OF ok(1) c p(1)] ok(2) p by simp

lemma ptab_ok_nextpid:
  "ptab_ok t \<Longrightarrow> 2 \<le> n \<Longrightarrow> n \<le> 32767 \<Longrightarrow> ptab_ok (t\<lparr>pt_nextpid := n, pt_mem := m\<rparr>)"
  by (simp add: ptab_ok_def)

lemma drop_ent_lock [simp]: "drop_ent c (t\<lparr>pt_lock := b\<rparr>) = (drop_ent c t)\<lparr>pt_lock := b\<rparr>"
  by (simp add: drop_ent_def put_ent_def)

lemma put_ent_lock [simp]: "put_ent c e (t\<lparr>pt_lock := b\<rparr>) = (put_ent c e t)\<lparr>pt_lock := b\<rparr>"
  by (simp add: put_ent_def)

lemma unlocked_id: "\<not> pt_lock t \<Longrightarrow> t\<lparr>pt_lock := False\<rparr> = t"
  by simp

subsection \<open>Unallocating, disowning\<close>

lemma pid_unalloc_eq:
  assumes ok: "ptab_ok t" "\<not> pt_lock t" and c: "pent t c = Some p"
    and p: "\<not> pi_exited p" "pi_ppid p = cur" "pi_cv p = []" "2 \<le> c"
  shows "pid_unalloc cur c t = Some (drop_ent c t)"
proof -
  let ?t = "t\<lparr>pt_lock := True\<rparr>"
  let ?p = "p\<lparr>pi_exitstatus := 0xdead, pi_exited := True, pi_ppid := INVALID_PID\<rparr>"
  note q = pent_SomeD [OF ok(1) c]
  have ok': "ptab_ok ?t" "pt_lock ?t" "pent ?t c = Some p" using ok c by simp_all
  have "pi_drop c (put_ent c (Some ?p) ?t) = Some (drop_ent c ?t)"
    by (rule store_then_drop [OF ok']) (use p q in simp_all)
  then show ?thesis
    using ok(2) p q pi_get_eq [OF ok'(1,2), of c] ok'(3) pi_store_eq [OF ok'(1), of c]
    by (simp add: pid_unalloc_def pidlock_acquire_def pidlock_release_def drop_ent_def put_ent_def)
qed

lemma pid_disown_eq:
  assumes ok: "ptab_ok t" "\<not> pt_lock t" and c: "pent t c = Some p"
    and p: "pi_ppid p = cur" "pi_exited p \<longrightarrow> pi_cv p = []" "2 \<le> c"
  shows "pid_disown cur c t =
     Some (if pi_exited p then drop_ent c t else put_ent c (Some (p\<lparr>pi_ppid := 0\<rparr>)) t)"
proof -
  let ?t = "t\<lparr>pt_lock := True\<rparr>"
  let ?p = "p\<lparr>pi_ppid := INVALID_PID\<rparr>"
  note q = pent_SomeD [OF ok(1) c]
  have ok': "ptab_ok ?t" "pt_lock ?t" "pent ?t c = Some p" using ok c by simp_all
  have "pi_drop c (put_ent c (Some ?p) ?t) = Some (drop_ent c ?t)" if "pi_exited p"
    by (rule store_then_drop [OF ok']) (use p q that in simp_all)
  then show ?thesis
    using ok(2) p q pi_get_eq [OF ok'(1,2), of c] ok'(3) pi_store_eq [OF ok'(1), of c]
    by (simp add: pid_disown_def pidlock_acquire_def pidlock_release_def drop_ent_def put_ent_def)
qed

subsection \<open>Waiting\<close>

lemma pid_wait_finish_eq:
  assumes ok: "ptab_ok t" "pt_lock t" and c: "pent t c = Some p"
    and p: "pi_exited p" "pi_cv p = []"
  shows "pid_wait_finish c p status ret t =
     Some (WGot (if status then Some (pi_exitstatus p) else None) (if ret then Some c else None),
       (drop_ent c t)\<lparr>pt_lock := False\<rparr>)"
proof -
  note q = pent_SomeD [OF ok(1) c]
  have "pi_drop c (put_ent c (Some (p\<lparr>pi_ppid := 0\<rparr>)) t) = Some (drop_ent c t)"
    by (rule store_then_drop [OF ok c]) (use p q in simp_all)
  then show ?thesis using q ok(2) pi_store_eq [OF ok(1), of c]
    by (simp add: pid_wait_finish_def pidlock_release_def Let_def)
qed

text \<open>All the branches of \<^verbatim>\<open>pid_wait\<close>, up to a sleep.\<close>

definition wait_errno :: "int \<Rightarrow> int \<Rightarrow> int \<Rightarrow> pidtab \<Rightarrow> errno option" where
  "wait_errno cur c flags t =
     (if c = cur then Some EINVAL else if c \<le> 0 then Some ENOSYS
      else if flags \<noteq> 0 \<and> flags \<noteq> 1 then Some EINVAL
      else case pent t c of None \<Rightarrow> Some ESRCH
           | Some p \<Rightarrow> if pi_ppid p \<noteq> cur then Some EPERM else None)"

lemma pid_wait_eq:
  assumes ok: "ptab_ok t" "\<not> pt_lock t" and cur: "cur \<noteq> 0"
    and dead: "\<And>p. pent t c = Some p \<Longrightarrow> pi_exited p \<Longrightarrow> pi_cv p = []"
    and ret: "flags = 1 \<longrightarrow> ret"
  shows "pid_wait cur c status flags ret t =
     (case wait_errno cur c flags t of Some e \<Rightarrow> Some (WFail e, t)
      | None \<Rightarrow> (case pent t c of None \<Rightarrow> None | Some p \<Rightarrow>
          if pi_exited p
          then Some (WGot (if status then Some (pi_exitstatus p) else None)
                          (if ret then Some c else None), drop_ent c t)
          else if flags = 1 then Some (WNothing, t)
          else Some (WSleep, put_ent c (Some (p\<lparr>pi_cv := pi_cv p @ [cur]\<rparr>)) t)))"
proof (cases "c = cur \<or> c \<le> 0 \<or> (flags \<noteq> 0 \<and> flags \<noteq> 1)")
  case True
  then show ?thesis using cur by (auto simp: pid_wait_def wait_errno_def)
next
  case False
  let ?t = "t\<lparr>pt_lock := True\<rparr>"
  have ok': "ptab_ok ?t" "pt_lock ?t" using ok by simp_all
  have get: "pi_get c ?t = Some (pent t c)" using pi_get_eq [OF ok', of c] False by simp
  have lk: "t\<lparr>pt_lock := False\<rparr> = t" using ok(2) by simp
  show ?thesis
  proof (cases "pent t c")
    case None
    with False get ok(2) cur lk show ?thesis
      by (simp add: pid_wait_def wait_errno_def pidlock_acquire_def pidlock_release_def)
  next
    case (Some p)
    note q = pent_SomeD [OF ok(1) Some]
    have fin: "pid_wait_finish c p status ret ?t =
        Some (WGot (if status then Some (pi_exitstatus p) else None) (if ret then Some c else None),
          drop_ent c t)" if "pi_exited p"
      using pid_wait_finish_eq [OF ok', of c p status ret] that dead Some ok(2)
      by (simp add: drop_ent_def put_ent_def)
    from Some False get ok(2) cur lk q ret fin pi_store_eq [OF ok'(1), of c] show ?thesis
      by (simp add: pid_wait_def wait_errno_def pidlock_acquire_def pidlock_release_def)
        (auto simp: put_ent_def)
  qed
qed

lemma pid_wait_resume_eq:
  assumes ok: "ptab_ok t" "\<not> pt_lock t" and c: "pent t c = Some p"
    and p: "pi_exited p" "pi_cv p = []"
  shows "pid_wait_resume c status ret t =
     Some (WGot (if status then Some (pi_exitstatus p) else None) (if ret then Some c else None),
       drop_ent c t)"
proof -
  let ?t = "t\<lparr>pt_lock := True\<rparr>"
  have ok': "ptab_ok ?t" "pt_lock ?t" "pent ?t c = Some p" using ok c by simp_all
  from pid_wait_finish_eq [OF ok' p, of status ret] pent_SomeD [OF ok(1) c] ok p
  show ?thesis
    by (simp add: pid_wait_resume_def pidlock_acquire_def drop_ent_def put_ent_def)
qed

subsection \<open>Allocating\<close>

lemma alloc_loop_free: "length info = 128 \<Longrightarrow> info ! pslot n = None \<Longrightarrow> pid_alloc_loop info count n = Some n"
  by (subst pid_alloc_loop.simps) simp

lemma alloc_loop_step:
  "length info = 128 \<Longrightarrow> info ! pslot n \<noteq> None \<Longrightarrow> count < 261 \<Longrightarrow> n < 32767 \<Longrightarrow>
   pid_alloc_loop info count n = pid_alloc_loop info (Suc count) (n + 1)"
  by (subst pid_alloc_loop.simps) (simp add: inc_nextpid_def)

lemma alloc_loop_wrap:
  "length info = 128 \<Longrightarrow> info ! pslot 32767 \<noteq> None \<Longrightarrow> count < 261 \<Longrightarrow>
   pid_alloc_loop info count 32767 = pid_alloc_loop info (Suc count) 2"
  by (subst pid_alloc_loop.simps) (simp add: inc_nextpid_def)

text \<open>From \<open>n\<close> the loop finds a free slot if there is one at \<open>n + d\<close> before the wrap.\<close>

lemma alloc_loop_ahead:
  assumes len: "length info = 128"
  shows "info ! pslot (n + int d) = None \<Longrightarrow> n + int d \<le> 32767 \<Longrightarrow> count + d \<le> 261 \<Longrightarrow>
    \<exists>r. pid_alloc_loop info count n = Some r \<and> n \<le> r \<and> r \<le> 32767 \<and> info ! pslot r = None"
proof (induction d arbitrary: n count)
  case 0
  then show ?case using alloc_loop_free [OF len] by auto
next
  case (Suc d)
  show ?case
  proof (cases "info ! pslot n = None")
    case True
    with Suc.prems show ?thesis using alloc_loop_free [OF len True] by auto
  next
    case False
    have "n + 1 + int d = n + int (Suc d)" by simp
    with Suc.IH [of "n + 1" "Suc count"] Suc.prems obtain r where
      "pid_alloc_loop info (Suc count) (n + 1) = Some r" "n + 1 \<le> r" "r \<le> 32767"
      "info ! pslot r = None" by auto
    moreover have "pid_alloc_loop info count n = pid_alloc_loop info (Suc count) (n + 1)"
      using Suc.prems by (intro alloc_loop_step [OF len False]) auto
    ultimately show ?thesis by auto
  qed
qed

text \<open>Otherwise it comes to the wrap, having used one count for every pid up to the largest.\<close>

lemma alloc_loop_to_end:
  assumes len: "length info = 128"
  shows "n + int d = 32767 \<Longrightarrow> count + d < 261 \<Longrightarrow>
    (\<exists>r. pid_alloc_loop info count n = Some r \<and> n \<le> r \<and> r \<le> 32767 \<and> info ! pslot r = None) \<or>
    pid_alloc_loop info count n = pid_alloc_loop info (count + d + 1) 2"
proof (induction d arbitrary: n count)
  case 0
  then show ?case using alloc_loop_free [OF len, of n] alloc_loop_wrap [OF len]
    by (cases "info ! pslot n = None") auto
next
  case (Suc d)
  show ?case
  proof (cases "info ! pslot n = None")
    case True
    with Suc.prems show ?thesis using alloc_loop_free [OF len True] by auto
  next
    case False
    have "pid_alloc_loop info count n = pid_alloc_loop info (Suc count) (n + 1)"
      using Suc.prems by (intro alloc_loop_step [OF len False]) auto
    moreover from Suc.IH [of "n + 1" "Suc count"] Suc.prems
    have "(\<exists>r. pid_alloc_loop info (Suc count) (n + 1) = Some r \<and> n + 1 \<le> r \<and> r \<le> 32767 \<and>
          info ! pslot r = None) \<or>
      pid_alloc_loop info (Suc count) (n + 1) = pid_alloc_loop info (Suc count + d + 1) 2" by auto
    ultimately show ?thesis by auto
  qed
qed

lemma slot_ahead:
  assumes "f < 128"
  obtains d where "d < 128" "pslot (n + int d) = f"
proof
  let ?d = "nat ((int f - n) mod 128)"
  have d: "int ?d = (int f - n) mod 128" by simp
  then show "?d < 128" by linarith
  have "(n + int ?d) mod 128 = int f mod 128"
    unfolding d by (simp add: mod_add_right_eq)
  with assms show "pslot (n + int ?d) = f" by (simp add: pslot_def)
qed

lemma alloc_loop_finds:
  assumes len: "length info = 128" and f: "f < 128" "info ! f = None"
    and n: "2 \<le> n" "n \<le> 32767"
  shows "\<exists>r. pid_alloc_loop info 0 n = Some r \<and> 2 \<le> r \<and> r \<le> 32767 \<and> info ! pslot r = None"
proof -
  obtain d where d: "d < 128" "pslot (n + int d) = f" using slot_ahead [OF f(1)] .
  obtain e where e: "e < 128" "pslot (2 + int e) = f" using slot_ahead [OF f(1)] .
  show ?thesis
  proof (cases "n + int d \<le> 32767")
    case True
    with alloc_loop_ahead [OF len, of n d 0] d f(2) n show ?thesis by auto
  next
    case False
    let ?k = "nat (32767 - n)"
    have k: "n + int ?k = 32767" "?k < 128" using n False d(1) by auto
    have "\<exists>r. pid_alloc_loop info (?k + 1) 2 = Some r \<and> 2 \<le> r \<and> r \<le> 32767 \<and> info ! pslot r = None"
      using alloc_loop_ahead [OF len, of 2 e "?k + 1"] e f(2) k(2) by auto
    with alloc_loop_to_end [OF len k(1), of 0] k(2) n show ?thesis by auto
  qed
qed

lemma free_slot:
  assumes "ptab_ok t" and "pt_nprocs t \<noteq> 128"
  obtains f where "f < 128" "pt_info t ! f = None"
proof -
  have "countP (\<lambda>e. e \<noteq> None) (pt_info t) \<noteq> length (pt_info t)"
    using assms by (auto simp: ptab_ok_def)
  then obtain f where "f < length (pt_info t)" "pt_info t ! f = None"
    by (auto simp: countP_all_length)
  with that assms(1) show ?thesis by simp
qed

definition new_pidinfo :: "int \<Rightarrow> int \<Rightarrow> pidinfo" where
  "new_pidinfo pid ppid = \<lparr>pi_pid = pid, pi_ppid = ppid, pi_exited = False,
     pi_exitstatus = 0xbeef, pi_cv = []\<rparr>"

lemma pidinfo_create_cases:
  assumes "pid \<noteq> 0"
  obtains m' where "pidinfo_create pid ppid m = Some (None, m')"
  | m' where "pidinfo_create pid ppid m = Some (Some (new_pidinfo pid ppid), m')"
proof -
  obtain a m1 where m1: "mem_take m = (a, m1)" by fastforce
  obtain b m2 where m2: "mem_take m1 = (b, m2)" by fastforce
  show ?thesis
  proof (cases "a \<and> b")
    case True
    with assms m1 m2 that(2) show ?thesis by (simp add: pidinfo_create_def new_pidinfo_def)
  next
    case False
    with assms m1 m2 have "pidinfo_create pid ppid m = Some (None, if a then m2 else m1)"
      by (simp add: pidinfo_create_def)
    with that(1) show ?thesis by blast
  qed
qed

lemma ptab_ok_insert:
  assumes ok: "ptab_ok t" and c: "pt_info t ! pslot c = None" and p: "pi_pid p = c" "1 \<le> c" "c \<le> 32767"
  shows "ptab_ok (put_ent c (Some p) t\<lparr>pt_nprocs := pt_nprocs t + 1\<rparr>)"
    and "pent (put_ent c (Some p) t) = (pent t)(c \<mapsto> p)"
proof -
  show "ptab_ok (put_ent c (Some p) t\<lparr>pt_nprocs := pt_nprocs t + 1\<rparr>)"
    using ok by (rule ptab_ok_put_ent) (use c p in auto)
  show "pent (put_ent c (Some p) t) = (pent t)(c \<mapsto> p)"
    using ok c p by (intro pent_put_ent) auto
qed

lemma pid_alloc_cases:
  assumes ok: "ptab_ok t" "\<not> pt_lock t" and cur: "cur \<noteq> 0"
  obtains (full) "pt_nprocs t = 128" "pid_alloc cur t = Some (Inl EAGAIN, t)"
  | (nomem) t' where "pt_nprocs t \<noteq> 128" "pid_alloc cur t = Some (Inl ENOMEM, t')"
      "ptab_ok t'" "\<not> pt_lock t'" "pent t' = pent t" "pt_nprocs t' = pt_nprocs t"
  | (alloced) c t' where "pt_nprocs t \<noteq> 128" "pid_alloc cur t = Some (Inr c, t')"
      "ptab_ok t'" "\<not> pt_lock t'" "2 \<le> c" "c \<le> 32767" "pent t c = None"
      "pent t' = (pent t)(c \<mapsto> new_pidinfo c cur)" "pt_nprocs t' = pt_nprocs t + 1"
proof (cases "pt_nprocs t = 128")
  case True
  with full ok cur show ?thesis
    by (simp add: pid_alloc_def pidlock_acquire_def pidlock_release_def)
next
  case False
  obtain f where f: "f < 128" "pt_info t ! f = None" using free_slot [OF ok(1) False] .
  have "2 \<le> pt_nextpid t" "pt_nextpid t \<le> 32767" using ok(1) by (simp_all add: ptab_ok_def)
  from alloc_loop_finds [OF ptab_ok_length [OF ok(1)] f this] obtain r where
    r: "pid_alloc_loop (pt_info t) 0 (pt_nextpid t) = Some r" "2 \<le> r" "r \<le> 32767"
      "pt_info t ! pslot r = None" by blast
  have "r \<noteq> 0" using r(2) by simp
  then show ?thesis
  proof (cases rule: pidinfo_create_cases [of r cur "pt_mem t"])
    case (1 m')
    let ?t = "t\<lparr>pt_nextpid := r, pt_mem := m'\<rparr>"
    have "pid_alloc cur t = Some (Inl ENOMEM, ?t)"
      using False ok(2) cur r 1
      by (simp add: pid_alloc_def pidlock_acquire_def pidlock_release_def Let_def)
    moreover have "ptab_ok ?t" using ok(1) r by (intro ptab_ok_nextpid)
    ultimately show ?thesis using nomem [of ?t] False ok(2) by simp
  next
    case (2 m')
    let ?t1 = "t\<lparr>pt_nextpid := r, pt_mem := m'\<rparr>"
    let ?t2 = "put_ent r (Some (new_pidinfo r cur)) ?t1\<lparr>pt_nprocs := pt_nprocs t + 1\<rparr>"
    let ?t3 = "?t2\<lparr>pt_nextpid := inc_nextpid r, pt_mem := m'\<rparr>"
    have "pid_alloc cur t = Some (Inr r, ?t3)"
      using False ok cur r 2
      by (simp add: pid_alloc_def pidlock_acquire_def pidlock_release_def pi_put_def Let_def
          put_ent_def)
    moreover have ok1: "ptab_ok ?t1" using ok(1) r by (intro ptab_ok_nextpid)
    have "ptab_ok ?t2" "pent (put_ent r (Some (new_pidinfo r cur)) ?t1) = (pent ?t1)(r \<mapsto> new_pidinfo r cur)"
      using ptab_ok_insert [OF ok1, of r "new_pidinfo r cur"] r by (simp_all add: new_pidinfo_def)
    moreover from this(1) have "ptab_ok ?t3"
      using r by (intro ptab_ok_nextpid) (auto simp: inc_nextpid_def)
    moreover have "pent t r = None" using r(4) by (simp add: pent_def)
    ultimately show ?thesis using alloced [of r ?t3] False ok(2) r by simp
  qed
qed

subsection \<open>Exiting\<close>

text \<open>What the exit of \<open>cur\<close> makes of an entry: its children are disowned, dead ones are gone.\<close>

definition disowned :: "int \<Rightarrow> pidinfo option \<Rightarrow> pidinfo option" where
  "disowned cur e = (case e of None \<Rightarrow> None
     | Some p \<Rightarrow> if pi_ppid p = cur
                then if pi_exited p then None else Some (p\<lparr>pi_ppid := 0\<rparr>) else Some p)"

definition quiet_dead :: "pidtab \<Rightarrow> bool" where
  "quiet_dead t \<longleftrightarrow> (\<forall>c p. pent t c = Some p \<longrightarrow> pi_exited p \<longrightarrow> pi_cv p = [])"

lemma disown_children_step:
  assumes ok: "ptab_ok t" "pt_lock t" "quiet_dead t" and i: "i < 128"
  obtains t' where "disown_children cur (i # is) t = disown_children cur is t'"
    "ptab_ok t'" "pt_lock t'"
    "pent t' = (\<lambda>c. if pslot c = i then disowned cur (pent t c) else pent t c)"
proof (cases "pt_info t ! i")
  case None
  then have "\<And>c. pslot c = i \<Longrightarrow> pent t c = None" by (auto simp: pent_def)
  then have "pent t = (\<lambda>c. if pslot c = i then disowned cur (pent t c) else pent t c)"
    by (auto simp: fun_eq_iff disowned_def)
  from that [OF _ ok(1,2) this] None ok i show ?thesis by simp
next
  case (Some p)
  note e = pent_slot [OF ok(1) i Some]
  have other: "pent t c = None" if "pslot c = i" "c \<noteq> pi_pid p" for c
    using that Some by (simp add: pent_def)
  show ?thesis
  proof (cases "pi_ppid p = cur")
    case False
    have "pent t = (\<lambda>c. if pslot c = i then disowned cur (pent t c) else pent t c)"
    proof
      fix c
      show "pent t c = (if pslot c = i then disowned cur (pent t c) else pent t c)"
        using e other [of c] False by (cases "c = pi_pid p") (simp_all add: disowned_def)
    qed
    from that [OF _ ok(1,2) this] False Some ok i show ?thesis by simp
  next
    case True
    let ?p = "p\<lparr>pi_ppid := 0\<rparr>" and ?c = "pi_pid p"
    let ?t = "if pi_exited p then drop_ent ?c t else put_ent ?c (Some ?p) t"
    have "pi_drop ?c (put_ent ?c (Some ?p) t) = Some (drop_ent ?c t)" if "pi_exited p"
      using ok(3) e that by (intro store_then_drop [OF ok(1,2), where q = p]) (auto simp: quiet_dead_def)
    then have "disown_children cur (i # is) t = disown_children cur is ?t"
      using True Some ok i e pi_store_eq [OF ok(1), of ?c ?p] by simp
    moreover have "ptab_ok ?t" "pent ?t = (pent t)(?c := disowned cur (Some p))"
      using drop_ent [OF ok(1), of ?c p] store_ent [OF ok(1), of ?c p ?p] e True
      by (simp_all add: disowned_def)
    moreover have "(pent t)(?c := disowned cur (Some p)) =
        (\<lambda>c. if pslot c = i then disowned cur (pent t c) else pent t c)"
      using e other by (auto simp: fun_eq_iff disowned_def)
    ultimately show ?thesis using that [of ?t] ok(2) by simp
  qed
qed

lemma disown_children_eq:
  assumes "ptab_ok t" "pt_lock t" "quiet_dead t" "\<forall>i \<in> set is. i < 128" "distinct is"
  shows "\<exists>t'. disown_children cur is t = Some t' \<and> ptab_ok t' \<and> pt_lock t' \<and>
     pent t' = (\<lambda>c. if pslot c \<in> set is then disowned cur (pent t c) else pent t c)"
  using assms
proof (induction "is" arbitrary: t)
  case (Cons i "is")
  obtain t1 where t1: "disown_children cur (i # is) t = disown_children cur is t1"
    "ptab_ok t1" "pt_lock t1"
    "pent t1 = (\<lambda>c. if pslot c = i then disowned cur (pent t c) else pent t c)"
    using disown_children_step [OF Cons.prems(1-3), of i cur "is"] Cons.prems(4) by auto
  have "quiet_dead t1"
    using Cons.prems(3) t1(4)
    by (auto simp: quiet_dead_def disowned_def split: option.splits if_splits)
  with Cons.IH [OF t1(2,3)] Cons.prems obtain t2 where
    t2: "disown_children cur is t1 = Some t2" "ptab_ok t2" "pt_lock t2"
      "pent t2 = (\<lambda>c. if pslot c \<in> set is then disowned cur (pent t1 c) else pent t1 c)" by auto
  moreover have "pent t2 = (\<lambda>c. if pslot c \<in> set (i # is) then disowned cur (pent t c) else pent t c)"
    using t2(4) t1(4) Cons.prems(5) by (auto simp: fun_eq_iff)
  ultimately show ?case using t1(1) by auto
qed simp

lemma pid_setexitstatus_eq:
  assumes ok: "ptab_ok t" "\<not> pt_lock t" "quiet_dead t" and us: "pent t cur = Some us"
    and parent: "pi_ppid us \<noteq> cur" "pi_ppid us = 0 \<longrightarrow> pi_cv us = []"
  shows "\<exists>t'. pid_setexitstatus cur st t
      = Some ((0, if pi_ppid us = 0 then [] else pi_cv us), t') \<and> ptab_ok t' \<and> \<not> pt_lock t' \<and>
     pent t' = (\<lambda>c. disowned cur (pent t c))
       (cur := if pi_ppid us = 0 then None
               else Some (us\<lparr>pi_exitstatus := st, pi_exited := True, pi_cv := []\<rparr>))"
proof -
  let ?t = "t\<lparr>pt_lock := True\<rparr>" and ?us = "us\<lparr>pi_exitstatus := st, pi_exited := True\<rparr>"
  note q = pent_SomeD [OF ok(1) us]
  have ok': "ptab_ok ?t" "pt_lock ?t" "quiet_dead ?t" using ok by (simp_all add: quiet_dead_def)
  obtain t1 where t1: "disown_children cur [0..<128] ?t = Some t1" "ptab_ok t1" "pt_lock t1"
    "pent t1 = (\<lambda>c. disowned cur (pent t c))"
    using disown_children_eq [OF ok', of "[0..<128]" cur] by auto
  have us1: "pent t1 cur = Some us" using t1(4) us parent(1) by (simp add: disowned_def)
  note st = store_ent [OF t1(2) us1, of ?us] store_ent [OF t1(2) us1, of "?us\<lparr>pi_cv := []\<rparr>"]
  have get: "pi_get cur t1 = Some (Some us)" using pi_get_eq [OF t1(2,3), of cur] us1 q by simp
  show ?thesis
  proof (cases "pi_ppid us = 0")
    case True
    have "pi_drop cur (put_ent cur (Some ?us) t1) = Some (drop_ent cur t1)"
      by (rule store_then_drop [OF t1(2,3) us1]) (use True parent q in simp_all)
    then have "pid_setexitstatus cur st t = Some ((0, []), (drop_ent cur t1)\<lparr>pt_lock := False\<rparr>)"
      using ok(2) q t1 get True pi_store_eq [OF t1(2), of cur ?us]
      by (simp add: pid_setexitstatus_def pidlock_acquire_def pidlock_release_def Let_def)
    with drop_ent [OF t1(2) us1] t1(4) True show ?thesis by simp
  next
    case False
    have "put_ent cur (Some (?us\<lparr>pi_cv := []\<rparr>)) (put_ent cur (Some ?us) t1)
        = put_ent cur (Some (?us\<lparr>pi_cv := []\<rparr>)) t1" by (simp add: put_ent_def)
    then have "pid_setexitstatus cur st t
        = Some ((0, pi_cv us), (put_ent cur (Some (?us\<lparr>pi_cv := []\<rparr>)) t1)\<lparr>pt_lock := False\<rparr>)"
      using ok(2) q t1 get False pi_store_eq [OF t1(2), of cur ?us] pi_store_eq [OF st(1), of cur]
      by (simp add: pid_setexitstatus_def pidlock_acquire_def pidlock_release_def Let_def)
    with st(3,4) t1(4) False q show ?thesis by simp
  qed
qed

section \<open>Processes using the module\<close>

text \<open>
  A process that has been given a pid is new (its creator may still take the pid back), runs,
  sleeps in \<^verbatim>\<open>pid_wait\<close>, or has been woken there.  A process that has exited has no mode; its
  entry stays until the parent collects or disowns it.
\<close>

datatype pmode = PNew | PRun | PSleep int bool bool | PWoken int bool bool

record psys =
  ps_tab :: pidtab
  ps_mode :: "int \<rightharpoonup> pmode"

datatype plabel = LAlloc int "errno + int" | LStart int | LUnalloc int int | LDisown int int
  | LExit int int | LWait int int waitres | LResume int int waitres

definition is_child :: "psys \<Rightarrow> int \<Rightarrow> int \<Rightarrow> bool" where
  "is_child s p c \<longleftrightarrow> (\<exists>e. pent (ps_tab s) c = Some e \<and> pi_ppid e = p)"

text \<open>The modes after \<open>p\<close> has exited and the processes \<open>woken\<close> have been woken.\<close>

definition exit_mode :: "int \<Rightarrow> int list \<Rightarrow> (int \<rightharpoonup> pmode) \<Rightarrow> int \<rightharpoonup> pmode" where
  "exit_mode p woken mode = (\<lambda>x. if x = p then None
        else case mode x of Some (PSleep c a b) \<Rightarrow>
               if x \<in> set woken then Some (PWoken c a b) else Some (PSleep c a b)
             | m \<Rightarrow> m)"

text \<open>
  The contracts of the callers are the premises: a process takes back or disowns only a pid that
  is its own child's, and \<^verbatim>\<open>WNOHANG\<close> comes with a non-null \<^verbatim>\<open>ret\<close>; the kernel process does not exit
  (asserted by \<^verbatim>\<open>proc_exit\<close>).
\<close>

inductive pstep :: "psys \<Rightarrow> plabel \<Rightarrow> psys \<Rightarrow> bool" where
  alloc: "ps_mode s p = Some PRun \<Longrightarrow> pid_alloc p (ps_tab s) = Some (Inr c, t) \<Longrightarrow>
     pstep s (LAlloc p (Inr c)) \<lparr>ps_tab = t, ps_mode = (ps_mode s)(c \<mapsto> PNew)\<rparr>"
| alloc_fail: "ps_mode s p = Some PRun \<Longrightarrow> pid_alloc p (ps_tab s) = Some (Inl e, t) \<Longrightarrow>
     pstep s (LAlloc p (Inl e)) \<lparr>ps_tab = t, ps_mode = ps_mode s\<rparr>"
| start: "ps_mode s c = Some PNew \<Longrightarrow>
     pstep s (LStart c) \<lparr>ps_tab = ps_tab s, ps_mode = (ps_mode s)(c \<mapsto> PRun)\<rparr>"
| unalloc: "ps_mode s p = Some PRun \<Longrightarrow> ps_mode s c = Some PNew \<Longrightarrow> is_child s p c \<Longrightarrow>
     pid_unalloc p c (ps_tab s) = Some t \<Longrightarrow>
     pstep s (LUnalloc p c) \<lparr>ps_tab = t, ps_mode = (ps_mode s)(c := None)\<rparr>"
| disown: "ps_mode s p = Some PRun \<Longrightarrow> is_child s p c \<Longrightarrow> pid_disown p c (ps_tab s) = Some t \<Longrightarrow>
     pstep s (LDisown p c) \<lparr>ps_tab = t, ps_mode = ps_mode s\<rparr>"
| exit: "ps_mode s p = Some PRun \<Longrightarrow> p \<noteq> KERNEL_PID \<Longrightarrow>
     pid_setexitstatus p st (ps_tab s) = Some ((q, woken), t) \<Longrightarrow>
     pstep s (LExit p st) \<lparr>ps_tab = t, ps_mode = exit_mode p woken (ps_mode s)\<rparr>"
| wait: "ps_mode s p = Some PRun \<Longrightarrow> flags = WNOHANG \<longrightarrow> ret \<Longrightarrow>
     pid_wait p c status flags ret (ps_tab s) = Some (r, t) \<Longrightarrow>
     pstep s (LWait p c r) \<lparr>ps_tab = t,
        ps_mode = (if r = WSleep then (ps_mode s)(p \<mapsto> PSleep c status ret) else ps_mode s)\<rparr>"
| resume: "ps_mode s p = Some (PWoken c status ret) \<Longrightarrow>
     pid_wait_resume c status ret (ps_tab s) = Some (r, t) \<Longrightarrow>
     pstep s (LResume p c r) \<lparr>ps_tab = t, ps_mode = (ps_mode s)(p \<mapsto> PRun)\<rparr>"

inductive_cases pstepE: "pstep s l s'"

inductive preach :: "psys \<Rightarrow> bool" where
  boot: "pid_bootstrap m = Some t \<Longrightarrow> preach \<lparr>ps_tab = t, ps_mode = [KERNEL_PID \<mapsto> PRun]\<rparr>"
| step: "preach s \<Longrightarrow> pstep s l s' \<Longrightarrow> preach s'"

subsection \<open>The invariant\<close>

definition ent_ok :: "(int \<rightharpoonup> pmode) \<Rightarrow> int \<Rightarrow> pidinfo \<Rightarrow> bool" where
  "ent_ok mode c e \<longleftrightarrow>
     (pi_exited e \<longleftrightarrow> mode c = None) \<and>
     (pi_exited e \<longrightarrow> pi_ppid e \<noteq> 0 \<and> pi_cv e = []) \<and>
     (pi_ppid e \<noteq> 0 \<longrightarrow> mode (pi_ppid e) \<noteq> None \<and> mode (pi_ppid e) \<noteq> Some PNew) \<and>
     pi_ppid e \<noteq> c \<and>
     (\<forall>q \<in> set (pi_cv e). \<exists>a b. mode q = Some (PSleep c a b))"

definition mode_ok :: "(int \<rightharpoonup> pidinfo) \<Rightarrow> int \<Rightarrow> pmode \<Rightarrow> bool" where
  "mode_ok M p m \<longleftrightarrow> M p \<noteq> None \<and>
     (case m of
        PSleep c a b \<Rightarrow> (\<exists>e. M c = Some e \<and> pi_ppid e = p \<and> \<not> pi_exited e \<and> p \<in> set (pi_cv e))
      | PWoken c a b \<Rightarrow> (\<exists>e. M c = Some e \<and> pi_ppid e = p \<and> pi_exited e)
      | _ \<Rightarrow> True)"

definition psys_inv :: "(int \<rightharpoonup> pidinfo) \<Rightarrow> (int \<rightharpoonup> pmode) \<Rightarrow> bool" where
  "psys_inv M mode \<longleftrightarrow>
     (\<forall>c e. M c = Some e \<longrightarrow> ent_ok mode c e) \<and> (\<forall>p m. mode p = Some m \<longrightarrow> mode_ok M p m) \<and>
     (\<exists>e. M 1 = Some e \<and> pi_ppid e = 0) \<and> mode 1 \<noteq> None \<and> mode 0 = None"

definition psys_ok :: "psys \<Rightarrow> bool" where
  "psys_ok s \<longleftrightarrow> ptab_ok (ps_tab s) \<and> \<not> pt_lock (ps_tab s) \<and>
     psys_inv (pent (ps_tab s)) (ps_mode s)"

lemma psys_inv_ent: "psys_inv M mode \<Longrightarrow> M c = Some e \<Longrightarrow> ent_ok mode c e"
  by (simp add: psys_inv_def)

lemma psys_inv_mode: "psys_inv M mode \<Longrightarrow> mode p = Some m \<Longrightarrow> mode_ok M p m"
  by (simp add: psys_inv_def)

text \<open>Nobody sleeps on an entry whose parent runs, or that has no parent.\<close>

lemma no_waiters:
  assumes inv: "psys_inv M mode" and e: "M c = Some e"
    and run: "pi_ppid e = 0 \<or> mode (pi_ppid e) = Some PRun"
  shows "pi_cv e = []"
proof (rule ccontr)
  assume "pi_cv e \<noteq> []"
  then obtain q where q: "q \<in> set (pi_cv e)" by (meson list.set_sel(1))
  with psys_inv_ent [OF inv e] obtain a b where m: "mode q = Some (PSleep c a b)"
    by (auto simp: ent_ok_def)
  with psys_inv_mode [OF inv m] e have "pi_ppid e = q" by (simp add: mode_ok_def)
  with run m inv show False by (auto simp: psys_inv_def)
qed

lemma inv_add:
  assumes inv: "psys_inv M mode" and p: "mode p = Some PRun" and c: "M c = None" "2 \<le> c"
  shows "psys_inv (M(c \<mapsto> new_pidinfo c p)) (mode(c \<mapsto> PNew))"
proof -
  have mc: "mode c = None" using psys_inv_mode [OF inv, of c] c(1) by (cases "mode c") (auto simp: mode_ok_def)
  then have "c \<noteq> p" using p by auto
  have "ent_ok (mode(c \<mapsto> PNew)) x e" if "(M(c \<mapsto> new_pidinfo c p)) x = Some e" for x e
  proof (cases "x = c")
    case True
    with that p \<open>c \<noteq> p\<close> show ?thesis by (auto simp: ent_ok_def new_pidinfo_def)
  next
    case False
    with that have "ent_ok mode x e" using psys_inv_ent [OF inv] by simp
    with False mc show ?thesis by (auto simp: ent_ok_def)
  qed
  moreover have "mode_ok (M(c \<mapsto> new_pidinfo c p)) x m" if "(mode(c \<mapsto> PNew)) x = Some m" for x m
    using that psys_inv_mode [OF inv, of x m] c(1)
    by (auto simp: mode_ok_def split: pmode.splits if_splits)
  ultimately show ?thesis using inv c(2) by (auto simp: psys_inv_def)
qed

lemma inv_set_run:
  assumes inv: "psys_inv M mode" and c: "mode p = Some m" and m: "\<And>c a b. m \<noteq> PSleep c a b"
  shows "psys_inv M (mode(p \<mapsto> PRun))"
proof -
  have "ent_ok (mode(p \<mapsto> PRun)) x e" if "M x = Some e" for x e
    using psys_inv_ent [OF inv that] c m by (fastforce simp: ent_ok_def)
  moreover have "mode_ok M x k" if "(mode(p \<mapsto> PRun)) x = Some k" for x k
    using that psys_inv_mode [OF inv] c
    by (auto simp: mode_ok_def split: if_splits pmode.splits)
  moreover have "p \<noteq> 0" using inv c by (auto simp: psys_inv_def)
  ultimately show ?thesis using inv by (auto simp: psys_inv_def)
qed

text \<open>Removing an entry whose parent runs and that is dead, or new and taken back.\<close>

lemma inv_remove:
  assumes inv: "psys_inv M mode" and e: "M c = Some e" "pi_ppid e = p" and p: "mode p = Some PRun"
    and c: "pi_exited e \<or> mode c = Some PNew"
  shows "psys_inv (M(c := None)) (mode(c := None))"
proof -
  note ec = psys_inv_ent [OF inv e(1)]
  have p0: "p \<noteq> 0" using inv p by (auto simp: psys_inv_def)
  have c1: "c \<noteq> 1" using inv e p0 by (auto simp: psys_inv_def)
  have mc: "mode c = None \<or> mode c = Some PNew" using c ec by (auto simp: ent_ok_def)
  have "ent_ok (mode(c := None)) x k" if "(M(c := None)) x = Some k" for x k
  proof -
    from that have x: "M x = Some k" "x \<noteq> c" by (auto split: if_splits)
    with psys_inv_ent [OF inv x(1)] mc show ?thesis by (fastforce simp: ent_ok_def)
  qed
  moreover have "mode_ok (M(c := None)) x m" if "(mode(c := None)) x = Some m" for x m
  proof -
    from that have x: "mode x = Some m" "x \<noteq> c" by (auto split: if_splits)
    with psys_inv_mode [OF inv x(1)] e p show ?thesis
      by (auto simp: mode_ok_def split: pmode.splits)
  qed
  ultimately show ?thesis using inv c1 by (auto simp: psys_inv_def)
qed

lemma inv_disown:
  assumes inv: "psys_inv M mode" and e: "M c = Some e" and p: "mode (pi_ppid e) = Some PRun"
    and c: "\<not> pi_exited e"
  shows "psys_inv (M(c \<mapsto> e\<lparr>pi_ppid := 0\<rparr>)) mode"
proof -
  note ec = psys_inv_ent [OF inv e]
  have cv: "pi_cv e = []" using no_waiters [OF inv e] p by simp
  have c0: "c \<noteq> 0" using ec c inv by (auto simp: ent_ok_def psys_inv_def)
  have "ent_ok mode x k" if "(M(c \<mapsto> e\<lparr>pi_ppid := 0\<rparr>)) x = Some k" for x k
    using that psys_inv_ent [OF inv] ec cv c c0 by (auto simp: ent_ok_def split: if_splits)
  moreover have "mode_ok (M(c \<mapsto> e\<lparr>pi_ppid := 0\<rparr>)) x m" if "mode x = Some m" for x m
    using psys_inv_mode [OF inv that] e p that by (auto simp: mode_ok_def split: pmode.splits)
  ultimately show ?thesis using inv by (auto simp: psys_inv_def)
qed

lemma inv_sleep:
  assumes inv: "psys_inv M mode" and e: "M c = Some e" "pi_ppid e = p" "\<not> pi_exited e"
    and p: "mode p = Some PRun"
  shows "psys_inv (M(c \<mapsto> e\<lparr>pi_cv := pi_cv e @ [p]\<rparr>)) (mode(p \<mapsto> PSleep c a b))"
proof -
  note ec = psys_inv_ent [OF inv e(1)]
  have cv: "pi_cv e = []" using no_waiters [OF inv e(1)] p e(2) by simp
  let ?M = "M(c \<mapsto> e\<lparr>pi_cv := pi_cv e @ [p]\<rparr>)" and ?m = "mode(p \<mapsto> PSleep c a b)"
  have "ent_ok ?m x k" if "?M x = Some k" for x k
  proof (cases "x = c")
    case True
    with that ec e p cv show ?thesis by (auto simp: ent_ok_def)
  next
    case False
    with that have "ent_ok mode x k" using psys_inv_ent [OF inv] by simp
    with p show ?thesis by (fastforce simp: ent_ok_def)
  qed
  moreover have "mode_ok ?M x m" if "?m x = Some m" for x m
  proof (cases "x = p")
    case True
    with that e psys_inv_mode [OF inv p] show ?thesis by (auto simp: mode_ok_def)
  next
    case False
    with that psys_inv_mode [OF inv, of x m] e show ?thesis
      by (auto simp: mode_ok_def split: pmode.splits)
  qed
  ultimately show ?thesis using inv e p by (auto simp: psys_inv_def)
qed

lemma inv_exit:
  fixes st :: int
  assumes inv: "psys_inv M mode" and us: "M p = Some us" and p: "mode p = Some PRun" "p \<noteq> 1"
  defines "M' \<equiv> (\<lambda>c. disowned p (M c))(p := if pi_ppid us = 0 then None
               else Some (us\<lparr>pi_exitstatus := st, pi_exited := True, pi_cv := []\<rparr>))"
  shows "psys_inv M' (exit_mode p (if pi_ppid us = 0 then [] else pi_cv us) mode)"
proof -
  let ?w = "if pi_ppid us = 0 then [] else pi_cv us"
  let ?m = "exit_mode p ?w mode"
  note eu = psys_inv_ent [OF inv us]
  have w: "?w = pi_cv us" using no_waiters [OF inv us] by simp
  have p0: "p \<noteq> 0" using inv p by (auto simp: psys_inv_def)
  have wk: "\<exists>a b. mode q = Some (PSleep p a b)" if "q \<in> set ?w" for q
    using eu that w by (auto simp: ent_ok_def)
  have alive: "?m x = None \<longleftrightarrow> x = p \<or> mode x = None" for x
    by (auto simp: exit_mode_def split: option.splits pmode.splits)
  have isnew: "?m x = Some PNew \<longleftrightarrow> x \<noteq> p \<and> mode x = Some PNew" for x
    by (auto simp: exit_mode_def split: option.splits pmode.splits)
  have sleeps: "?m q = Some (PSleep c a b)" if "mode q = Some (PSleep c a b)" "c \<noteq> p" for q c a b
  proof -
    have "q \<noteq> p" using that p by auto
    moreover have "q \<notin> set ?w" using wk [of q] that by auto
    ultimately show ?thesis using that by (simp add: exit_mode_def)
  qed
  have "ent_ok ?m c e" if "M' c = Some e" for c e
  proof (cases "c = p")
    case True
    with that eu p show ?thesis
      by (auto simp: M'_def ent_ok_def alive isnew split: if_splits)
  next
    case False
    with that have d: "disowned p (M c) = Some e" by (simp add: M'_def)
    then obtain k where k: "M c = Some k" by (cases "M c") (auto simp: disowned_def)
    note ek = psys_inv_ent [OF inv k]
    have cv: "\<forall>q \<in> set (pi_cv k). \<exists>a b. ?m q = Some (PSleep c a b)"
      using ek False sleeps by (auto simp: ent_ok_def)
    have c0: "pi_ppid k = p \<Longrightarrow> \<not> pi_exited k \<Longrightarrow> c \<noteq> 0"
      using ek inv by (auto simp: ent_ok_def psys_inv_def)
    from d k ek cv False c0 p0 show ?thesis
      by (auto simp: disowned_def ent_ok_def alive isnew split: if_splits)
  qed
  moreover have "mode_ok M' x m" if mx: "?m x = Some m" for x m
  proof -
    have xp: "x \<noteq> p" using mx by (auto simp: exit_mode_def)
    obtain m0 where m0: "mode x = Some m0" using mx alive [of x] by (cases "mode x") auto
    note ok = psys_inv_mode [OF inv m0]
    from ok obtain ex where ex: "M x = Some ex" by (auto simp: mode_ok_def)
    have "\<not> pi_exited ex" using psys_inv_ent [OF inv ex] m0 by (auto simp: ent_ok_def)
    then have live: "M' x \<noteq> None" using ex xp by (auto simp: M'_def disowned_def)
    have keep: "M' c = Some k" if "M c = Some k" "pi_ppid k = x" "c \<noteq> p" for c k
      using that xp by (simp add: M'_def disowned_def)
    show ?thesis
    proof (cases m0)
      case (PSleep c a b)
      with ok obtain k where k: "M c = Some k" "pi_ppid k = x" "\<not> pi_exited k" "x \<in> set (pi_cv k)"
        by (auto simp: mode_ok_def)
      show ?thesis
      proof (cases "c = p")
        case True
        with k us w have "x \<in> set ?w" "pi_ppid us = x" by auto
        moreover have "x \<noteq> 0" using m0 inv by (auto simp: psys_inv_def)
        ultimately show ?thesis using mx m0 PSleep xp True live
          by (auto simp: exit_mode_def mode_ok_def M'_def)
      next
        case False
        with sleeps [of x c a b] m0 PSleep mx have "m = PSleep c a b" by simp
        with k keep [OF k(1,2) False] live show ?thesis by (auto simp: mode_ok_def)
      qed
    next
      case (PWoken c a b)
      with ok obtain k where k: "M c = Some k" "pi_ppid k = x" "pi_exited k" by (auto simp: mode_ok_def)
      have "c \<noteq> p" using k psys_inv_ent [OF inv k(1)] p by (auto simp: ent_ok_def)
      with k keep [OF k(1,2)] live mx m0 PWoken xp show ?thesis
        by (auto simp: exit_mode_def mode_ok_def)
    qed (use mx m0 xp live in \<open>auto simp: exit_mode_def mode_ok_def\<close>)
  qed
  moreover have "\<exists>e. M' 1 = Some e \<and> pi_ppid e = 0" using inv p p0
    by (auto simp: psys_inv_def M'_def disowned_def)
  moreover have "?m 1 \<noteq> None" "?m 0 = None" using inv p(2) by (auto simp: alive psys_inv_def)
  ultimately show ?thesis unfolding psys_inv_def by blast
qed

subsection \<open>Every reachable state\<close>

lemma psys_ok_quiet: "psys_ok s \<Longrightarrow> quiet_dead (ps_tab s)"
  by (auto simp: psys_ok_def quiet_dead_def psys_inv_def ent_ok_def)

lemma psys_ok_run:
  assumes "psys_ok s" and "ps_mode s p = Some m"
  shows "p \<noteq> 0" "\<exists>e. pent (ps_tab s) p = Some e \<and> \<not> pi_exited e"
proof -
  have inv: "psys_inv (pent (ps_tab s)) (ps_mode s)" using assms(1) by (simp add: psys_ok_def)
  then show "p \<noteq> 0" using assms(2) by (auto simp: psys_inv_def)
  from psys_inv_mode [OF inv assms(2)] obtain e where e: "pent (ps_tab s) p = Some e"
    by (auto simp: mode_ok_def)
  with psys_inv_ent [OF inv e] assms(2)
  show "\<exists>e. pent (ps_tab s) p = Some e \<and> \<not> pi_exited e" by (simp add: ent_ok_def)
qed

lemma child_facts:
  assumes ok: "psys_ok s" and p: "ps_mode s p = Some PRun" and c: "is_child s p c"
  obtains e where "pent (ps_tab s) c = Some e" "pi_ppid e = p" "pi_cv e = []" "2 \<le> c"
    "pi_exited e \<longleftrightarrow> ps_mode s c = None"
proof -
  from c obtain e where e: "pent (ps_tab s) c = Some e" "pi_ppid e = p" by (auto simp: is_child_def)
  have inv: "psys_inv (pent (ps_tab s)) (ps_mode s)" using ok by (simp add: psys_ok_def)
  have "pi_cv e = []" using no_waiters [OF inv e(1)] e(2) p by simp
  moreover have "1 \<le> c" using pent_SomeD [OF _ e(1)] ok by (simp add: psys_ok_def)
  moreover have "c \<noteq> 1" using inv e psys_ok_run(1) [OF ok p] by (auto simp: psys_inv_def)
  moreover have "pi_exited e \<longleftrightarrow> ps_mode s c = None"
    using psys_inv_ent [OF inv e(1)] by (simp add: ent_ok_def)
  ultimately show ?thesis using that e by auto
qed

text \<open>What each call does in a state that satisfies the invariant.\<close>

lemma unalloc_in_ok:
  assumes "psys_ok s" "ps_mode s p = Some PRun" "ps_mode s c = Some PNew" "is_child s p c"
  shows "pid_unalloc p c (ps_tab s) = Some (drop_ent c (ps_tab s))"
  using child_facts [OF assms(1,2,4)] assms by (metis option.distinct(1) pid_unalloc_eq psys_ok_def)

lemma disown_in_ok:
  assumes "psys_ok s" "ps_mode s p = Some PRun" "is_child s p c"
  obtains e where "pent (ps_tab s) c = Some e" "pi_ppid e = p"
    "pid_disown p c (ps_tab s) = Some (if pi_exited e then drop_ent c (ps_tab s)
       else put_ent c (Some (e\<lparr>pi_ppid := 0\<rparr>)) (ps_tab s))"
    "pi_exited e \<longleftrightarrow> ps_mode s c = None"
proof -
  obtain e where e: "pent (ps_tab s) c = Some e" "pi_ppid e = p" "pi_cv e = []" "2 \<le> c"
    "pi_exited e \<longleftrightarrow> ps_mode s c = None" using child_facts [OF assms] .
  with that pid_disown_eq [of "ps_tab s" c e p] assms(1) show ?thesis by (simp add: psys_ok_def)
qed

lemma exit_in_ok:
  assumes ok: "psys_ok s" and p: "ps_mode s p = Some PRun"
  obtains us t where "pent (ps_tab s) p = Some us"
    "pid_setexitstatus p st (ps_tab s) = Some ((0, if pi_ppid us = 0 then [] else pi_cv us), t)"
    "ptab_ok t" "\<not> pt_lock t"
    "pent t = (\<lambda>c. disowned p (pent (ps_tab s) c))
       (p := if pi_ppid us = 0 then None
             else Some (us\<lparr>pi_exitstatus := st, pi_exited := True, pi_cv := []\<rparr>))"
proof -
  obtain us where us: "pent (ps_tab s) p = Some us" "\<not> pi_exited us"
    using psys_ok_run(2) [OF ok p] by blast
  have inv: "psys_inv (pent (ps_tab s)) (ps_mode s)" using ok by (simp add: psys_ok_def)
  have "pi_ppid us \<noteq> p" "pi_ppid us = 0 \<longrightarrow> pi_cv us = []"
    using psys_inv_ent [OF inv us(1)] no_waiters [OF inv us(1)] by (auto simp: ent_ok_def)
  with pid_setexitstatus_eq [OF _ _ psys_ok_quiet [OF ok] us(1)] ok us(1) that show ?thesis
    by (metis psys_ok_def)
qed

lemma wait_in_ok:
  assumes ok: "psys_ok s" and p: "ps_mode s p = Some PRun" and ret: "flags = 1 \<longrightarrow> ret"
  obtains (error) e where "wait_errno p c flags (ps_tab s) = Some e"
      "pid_wait p c status flags ret (ps_tab s) = Some (WFail e, ps_tab s)"
  | (collect) e where "pent (ps_tab s) c = Some e" "pi_ppid e = p" "pi_exited e"
      "pid_wait p c status flags ret (ps_tab s) =
         Some (WGot (if status then Some (pi_exitstatus e) else None)
                    (if ret then Some c else None), drop_ent c (ps_tab s))"
  | (nothing) e where "pent (ps_tab s) c = Some e" "pi_ppid e = p" "\<not> pi_exited e"
      "pid_wait p c status flags ret (ps_tab s) = Some (WNothing, ps_tab s)"
  | (sleep) e where "pent (ps_tab s) c = Some e" "pi_ppid e = p" "\<not> pi_exited e"
      "pid_wait p c status flags ret (ps_tab s) =
         Some (WSleep, put_ent c (Some (e\<lparr>pi_cv := pi_cv e @ [p]\<rparr>)) (ps_tab s))"
proof -
  have "p \<noteq> 0" using psys_ok_run(1) [OF ok p] .
  note eq = pid_wait_eq [OF _ _ this _ ret, of "ps_tab s" c status]
  have eq': "pid_wait p c status flags ret (ps_tab s) =
     (case wait_errno p c flags (ps_tab s) of Some e \<Rightarrow> Some (WFail e, ps_tab s)
      | None \<Rightarrow> (case pent (ps_tab s) c of None \<Rightarrow> None | Some p' \<Rightarrow>
          if pi_exited p'
          then Some (WGot (if status then Some (pi_exitstatus p') else None)
                          (if ret then Some c else None), drop_ent c (ps_tab s))
          else if flags = 1 then Some (WNothing, ps_tab s)
          else Some (WSleep, put_ent c (Some (p'\<lparr>pi_cv := pi_cv p' @ [p]\<rparr>)) (ps_tab s))))"
    using ok psys_ok_quiet [OF ok] by (intro eq) (auto simp: psys_ok_def quiet_dead_def)
  show ?thesis
  proof (cases "wait_errno p c flags (ps_tab s)")
    case (Some e)
    with error eq' show ?thesis by simp
  next
    case None
    then obtain e where e: "pent (ps_tab s) c = Some e" "pi_ppid e = p"
      by (auto simp: wait_errno_def split: if_splits option.splits)
    show ?thesis
    proof (cases "pi_exited e")
      case True
      with None e eq' collect show ?thesis by simp
    next
      case live: False
      show ?thesis
      proof (cases "flags = 1")
        case True
        with None e eq' live
        have "pid_wait p c status flags ret (ps_tab s) = Some (WNothing, ps_tab s)" by simp
        with e live show ?thesis by (rule nothing)
      next
        case False
        with None e eq' live have "pid_wait p c status flags ret (ps_tab s) =
            Some (WSleep, put_ent c (Some (e\<lparr>pi_cv := pi_cv e @ [p]\<rparr>)) (ps_tab s))" by simp
        with e live show ?thesis by (rule sleep)
      qed
    qed
  qed
qed

lemma resume_in_ok:
  assumes ok: "psys_ok s" and p: "ps_mode s p = Some (PWoken c status ret)"
  obtains e where "pent (ps_tab s) c = Some e" "pi_ppid e = p" "pi_exited e"
    "pid_wait_resume c status ret (ps_tab s) =
       Some (WGot (if status then Some (pi_exitstatus e) else None)
                  (if ret then Some c else None), drop_ent c (ps_tab s))"
proof -
  have inv: "psys_inv (pent (ps_tab s)) (ps_mode s)" using ok by (simp add: psys_ok_def)
  from psys_inv_mode [OF inv p] obtain e where
    e: "pent (ps_tab s) c = Some e" "pi_ppid e = p" "pi_exited e" by (auto simp: mode_ok_def)
  with pid_wait_resume_eq [OF _ _ e(1,3), of status ret] psys_inv_ent [OF inv e(1)] ok that
  show ?thesis by (simp add: psys_ok_def ent_ok_def)
qed

lemma pid_alloc_Inr:
  assumes "ptab_ok t" "\<not> pt_lock t" "cur \<noteq> 0" and "pid_alloc cur t = Some (Inr c, t')"
  shows "ptab_ok t' \<and> \<not> pt_lock t' \<and> 2 \<le> c \<and> c \<le> 32767 \<and> pent t c = None \<and>
     pent t' = (pent t)(c \<mapsto> new_pidinfo c cur) \<and> pt_nprocs t \<noteq> 128"
  using assms(1-3) by (cases rule: pid_alloc_cases) (use assms(4) in simp_all)

lemma pid_alloc_Inl:
  assumes "ptab_ok t" "\<not> pt_lock t" "cur \<noteq> 0" and "pid_alloc cur t = Some (Inl e, t')"
  shows "ptab_ok t' \<and> \<not> pt_lock t' \<and> pent t' = pent t \<and> (e = EAGAIN \<longleftrightarrow> pt_nprocs t = 128)"
  using assms(1-3) by (cases rule: pid_alloc_cases) (use assms in auto)

lemma psys_ok_boot:
  assumes "pid_bootstrap m = Some t"
  shows "psys_ok \<lparr>ps_tab = t, ps_mode = [KERNEL_PID \<mapsto> PRun]\<rparr>"
proof -
  have "(1 :: int) \<noteq> 0" by simp
  from assms obtain m2 where t: "t = \<lparr>pt_lock = False,
      pt_info = (replicate 128 None)[1 := Some (new_pidinfo 1 0)], pt_nextpid = 2, pt_nprocs = 1,
      pt_mem = m2\<rparr>"
    by (cases rule: pidinfo_create_cases [OF \<open>(1 :: int) \<noteq> 0\<close>, of 0 "snd (mem_take m)"])
      (auto simp: pid_bootstrap_def Let_def split: prod.splits)
  have cnt: "countP (\<lambda>e. e \<noteq> None) ((replicate 128 None)[1 := Some (new_pidinfo 1 0)]) = 1"
    using countP_update [of 1 "replicate 128 None" "\<lambda>e. e \<noteq> None" "Some (new_pidinfo 1 0)"]
    by (simp add: countP_def)
  have "pslot 1 = 1" by (simp add: pslot_def)
  then have "ptab_ok t" using cnt unfolding t ptab_ok_def
    by (auto simp: nth_list_update new_pidinfo_def split: if_splits)
  moreover have "pent t = [1 \<mapsto> new_pidinfo 1 0]"
    using \<open>pslot 1 = 1\<close> by (auto simp: t pent_def fun_eq_iff nth_list_update new_pidinfo_def)
  ultimately show ?thesis
    by (auto simp: psys_ok_def t psys_inv_def ent_ok_def mode_ok_def new_pidinfo_def split: if_splits)
qed

lemma psys_ok_step:
  assumes ok: "psys_ok s" and step: "pstep s l s'"
  shows "psys_ok s'"
proof -
  have tab: "ptab_ok (ps_tab s)" "\<not> pt_lock (ps_tab s)"
    and inv: "psys_inv (pent (ps_tab s)) (ps_mode s)" using ok by (simp_all add: psys_ok_def)
  from step show ?thesis
  proof cases
    case (alloc p c t)
    note pid_alloc_Inr [OF tab psys_ok_run(1) [OF ok alloc(3)] alloc(4)]
    with inv_add [OF inv alloc(3), of c] alloc show ?thesis by (simp add: psys_ok_def)
  next
    case (alloc_fail p e t)
    note pid_alloc_Inl [OF tab psys_ok_run(1) [OF ok alloc_fail(3)] alloc_fail(4)]
    with inv alloc_fail show ?thesis by (simp add: psys_ok_def)
  next
    case (start c)
    with inv_set_run [OF inv start(3)] tab show ?thesis by (simp add: psys_ok_def)
  next
    case (unalloc p c t)
    obtain e where e: "pent (ps_tab s) c = Some e" "pi_ppid e = p"
      by (rule child_facts [OF ok unalloc(3,5)])
    with unalloc_in_ok [OF ok unalloc(3-5)] unalloc inv_remove [OF inv e unalloc(3)]
      drop_ent [OF tab(1) e(1)] tab show ?thesis by (simp add: psys_ok_def)
  next
    case (disown p c t)
    obtain e where e: "pent (ps_tab s) c = Some e" "pi_ppid e = p"
      "t = (if pi_exited e then drop_ent c (ps_tab s)
            else put_ent c (Some (e\<lparr>pi_ppid := 0\<rparr>)) (ps_tab s))"
      "pi_exited e \<longleftrightarrow> ps_mode s c = None"
      by (rule disown_in_ok [OF ok disown(3,4)]) (use disown(5) in simp)
    show ?thesis
    proof (cases "pi_exited e")
      case True
      then have "(ps_mode s)(c := None) = ps_mode s" using e(4) by auto
      with True e(1-3) disown inv_remove [OF inv e(1,2) disown(3)] drop_ent [OF tab(1) e(1)] tab
      show ?thesis by (simp add: psys_ok_def)
    next
      case False
      have "pi_pid e = c" using pent_SomeD [OF tab(1) e(1)] by simp
      with False e(1-3) disown inv_disown [OF inv e(1)] tab
        store_ent [OF tab(1) e(1), of "e\<lparr>pi_ppid := 0\<rparr>"]
      show ?thesis by (simp add: psys_ok_def)
    qed
  next
    case (exit p st q woken t)
    obtain us where us: "pent (ps_tab s) p = Some us" "woken = (if pi_ppid us = 0 then [] else pi_cv us)"
      "ptab_ok t" "\<not> pt_lock t"
      "pent t = (\<lambda>c. disowned p (pent (ps_tab s) c))
       (p := if pi_ppid us = 0 then None
             else Some (us\<lparr>pi_exitstatus := st, pi_exited := True, pi_cv := []\<rparr>))"
      by (rule exit_in_ok [OF ok exit(3), of st]) (use exit(5) in simp)
    from inv_exit [OF inv us(1) exit(3), of st] exit(4) us exit(2) show ?thesis
      by (simp add: psys_ok_def)
  next
    case (wait p flags ret c status r t)
    from ok wait(3) wait(4) [unfolded WNOHANG_def] show ?thesis
    proof (cases rule: wait_in_ok [where c = c and status = status])
      case (error e)
      with wait ok show ?thesis by (auto simp: psys_ok_def)
    next
      case (collect e)
      note ec = psys_inv_ent [OF inv collect(1)]
      then have "(ps_mode s)(c := None) = ps_mode s" using collect(3) by (auto simp: ent_ok_def)
      with collect wait inv_remove [OF inv collect(1,2) wait(3)] drop_ent [OF tab(1) collect(1)] tab
      show ?thesis by (auto simp: psys_ok_def)
    next
      case (nothing e)
      with wait ok show ?thesis by (auto simp: psys_ok_def)
    next
      case (sleep e)
      have "pi_pid e = c" using pent_SomeD [OF tab(1) sleep(1)] by simp
      with sleep wait inv_sleep [OF inv sleep(1-3) wait(3)] tab
        store_ent [OF tab(1) sleep(1), of "e\<lparr>pi_cv := pi_cv e @ [p]\<rparr>"]
      show ?thesis by (auto simp: psys_ok_def)
    qed
  next
    case (resume p c status ret r t)
    obtain e where e: "pent (ps_tab s) c = Some e" "pi_ppid e = p" "pi_exited e"
      "t = drop_ent c (ps_tab s)"
      by (rule resume_in_ok [OF ok resume(3)]) (use resume(4) in simp)
    have inv': "psys_inv (pent (ps_tab s)) ((ps_mode s)(p \<mapsto> PRun))"
      using inv_set_run [OF inv resume(3)] by simp
    have "((ps_mode s)(p \<mapsto> PRun)) c = None"
      using psys_inv_ent [OF inv' e(1)] e(3) unfolding ent_ok_def by blast
    then have "((ps_mode s)(p \<mapsto> PRun))(c := None) = (ps_mode s)(p \<mapsto> PRun)"
      by (rule fun_upd_idem)
    with inv_remove [OF inv' e(1,2)] e resume drop_ent [OF tab(1) e(1)] tab
    show ?thesis by (auto simp: psys_ok_def)
  qed
qed

lemma preach_ok: "preach s \<Longrightarrow> psys_ok s"
  by (induction rule: preach.induct) (blast intro: psys_ok_boot psys_ok_step)+

subsection \<open>The number of processes\<close>

lemma card_pent:
  assumes ok: "ptab_ok t"
  shows "pt_nprocs t = int (card (dom (pent t)))"
proof -
  have "bij_betw pslot (dom (pent t)) {i. i < 128 \<and> pt_info t ! i \<noteq> None}"
  proof (rule bij_betwI')
    fix c d assume "c \<in> dom (pent t)" "d \<in> dom (pent t)"
    then show "pslot c = pslot d \<longleftrightarrow> c = d"
      using pent_SomeD [OF ok] by (metis domD option.inject)
  next
    fix c assume "c \<in> dom (pent t)"
    then show "pslot c \<in> {i. i < 128 \<and> pt_info t ! i \<noteq> None}"
      using pent_SomeD [OF ok] by fastforce
  next
    fix i assume "i \<in> {i. i < 128 \<and> pt_info t ! i \<noteq> None}"
    then show "\<exists>c \<in> dom (pent t). i = pslot c" using pent_slot [OF ok] by fastforce
  qed
  then have "card (dom (pent t)) = card {i. i < 128 \<and> pt_info t ! i \<noteq> None}"
    by (rule bij_betw_same_card)
  also have "\<dots> = countP (\<lambda>e. e \<noteq> None) (pt_info t)"
    using ok by (simp add: countP_def length_filter_conv_card)
  finally show ?thesis using ok by (simp add: ptab_ok_def)
qed

subsection \<open>The exit status waits for the parent\<close>

definition zombie :: "psys \<Rightarrow> int \<Rightarrow> int \<Rightarrow> int \<Rightarrow> bool" where
  "zombie s p c st \<longleftrightarrow> (\<exists>e. pent (ps_tab s) c = Some e \<and> pi_exited e \<and> pi_ppid e = p \<and>
     pi_exitstatus e = st)"

text \<open>The calls by which \<open>p\<close> gives up its interest in \<open>c\<close>.\<close>

fun lets_go :: "int \<Rightarrow> int \<Rightarrow> plabel \<Rightarrow> bool" where
  "lets_go p c (LWait q d r) \<longleftrightarrow> q = p \<and> d = c"
| "lets_go p c (LResume q d r) \<longleftrightarrow> q = p \<and> d = c"
| "lets_go p c (LDisown q d) \<longleftrightarrow> q = p \<and> d = c"
| "lets_go p c (LExit q st) \<longleftrightarrow> q = p"
| "lets_go p c _ \<longleftrightarrow> False"

lemma zombie_mode: "psys_ok s \<Longrightarrow> zombie s p c st \<Longrightarrow> ps_mode s c = None"
  unfolding zombie_def psys_ok_def by (metis ent_ok_def psys_inv_ent)

lemma zombie_step:
  assumes ok: "psys_ok s" and z: "zombie s p c st" and step: "pstep s l s'"
    and l: "\<not> lets_go p c l"
  shows "zombie s' p c st"
proof -
  have tab: "ptab_ok (ps_tab s)" "\<not> pt_lock (ps_tab s)" using ok by (simp_all add: psys_ok_def)
  have mc: "ps_mode s c = None" by (rule zombie_mode [OF ok z])
  obtain e where e: "pent (ps_tab s) c = Some e" "pi_exited e" "pi_ppid e = p" "pi_exitstatus e = st"
    using z by (auto simp: zombie_def)
  from step have "pent (ps_tab s') c = Some e"
  proof cases
    case (alloc q d t)
    from pid_alloc_Inr [OF tab psys_ok_run(1) [OF ok alloc(3)] alloc(4)] e alloc show ?thesis by auto
  next
    case (alloc_fail q r t)
    from pid_alloc_Inl [OF tab psys_ok_run(1) [OF ok alloc_fail(3)] alloc_fail(4)] e alloc_fail
    show ?thesis by simp
  next
    case (start d)
    with e show ?thesis by simp
  next
    case (unalloc q d t)
    obtain k where k: "pent (ps_tab s) d = Some k" by (rule child_facts [OF ok unalloc(3,5)])
    have "d \<noteq> c" using unalloc mc by auto
    with unalloc_in_ok [OF ok unalloc(3-5)] unalloc drop_ent [OF tab(1) k] e show ?thesis by simp
  next
    case (disown q d t)
    obtain k where k: "pent (ps_tab s) d = Some k" "pi_ppid k = q"
      "t = (if pi_exited k then drop_ent d (ps_tab s)
            else put_ent d (Some (k\<lparr>pi_ppid := 0\<rparr>)) (ps_tab s))"
      by (rule disown_in_ok [OF ok disown(3,4)]) (use disown(5) in simp)
    have "d \<noteq> c" using k e l disown(1) by auto
    moreover have "pi_pid k = d" using pent_SomeD [OF tab(1) k(1)] by simp
    ultimately show ?thesis using disown k drop_ent [OF tab(1) k(1)] e
        store_ent [OF tab(1) k(1), of "k\<lparr>pi_ppid := 0\<rparr>"] by simp
  next
    case (exit q st' r woken t)
    obtain us where us: "pent t = (\<lambda>c. disowned q (pent (ps_tab s) c))
       (q := if pi_ppid us = 0 then None
             else Some (us\<lparr>pi_exitstatus := st', pi_exited := True, pi_cv := []\<rparr>))"
      by (rule exit_in_ok [OF ok exit(3), of st']) (use exit(5) in simp)
    have "q \<noteq> p" using l exit(1) by simp
    moreover have "q \<noteq> c" using exit(3) mc by auto
    ultimately show ?thesis using us e exit(2) by (simp add: disowned_def)
  next
    case (wait q flags ret d status r t)
    from ok wait(3) wait(4) [unfolded WNOHANG_def] show ?thesis
    proof (cases rule: wait_in_ok [where c = d and status = status])
      case (collect k)
      have "d \<noteq> c" using collect e l wait(1) by auto
      with collect wait drop_ent [OF tab(1) collect(1)] e show ?thesis by auto
    next
      case (sleep k)
      have "d \<noteq> c" using sleep e by auto
      moreover have "pi_pid k = d" using pent_SomeD [OF tab(1) sleep(1)] by simp
      ultimately show ?thesis using sleep wait e
          store_ent [OF tab(1) sleep(1), of "k\<lparr>pi_cv := pi_cv k @ [q]\<rparr>"] by auto
    qed (use wait e in auto)
  next
    case (resume q d status ret r t)
    obtain k where k: "pent (ps_tab s) d = Some k" "pi_ppid k = q" "t = drop_ent d (ps_tab s)"
      by (rule resume_in_ok [OF ok resume(3)]) (use resume(4) in simp)
    have "d \<noteq> c" using k e l resume(1) by auto
    with k resume drop_ent [OF tab(1) k(1)] e show ?thesis by simp
  qed
  with e show ?thesis by (auto simp: zombie_def)
qed

inductive psteps :: "psys \<Rightarrow> plabel list \<Rightarrow> psys \<Rightarrow> bool" where
  none: "psteps s [] s"
| more: "pstep s l s1 \<Longrightarrow> psteps s1 ls s2 \<Longrightarrow> psteps s (l # ls) s2"

lemma zombie_steps:
  "psteps s ls s' \<Longrightarrow> psys_ok s \<Longrightarrow> zombie s p c st \<Longrightarrow> \<forall>l \<in> set ls. \<not> lets_go p c l \<Longrightarrow>
   psys_ok s' \<and> zombie s' p c st"
  by (induction rule: psteps.induct) (auto intro: psys_ok_step zombie_step)

lemma exit_zombie:
  assumes ok: "psys_ok s" and step: "pstep s (LExit c st) s'" and p: "is_child s p c" "p \<noteq> 0"
  shows "zombie s' p c st"
  using step
proof cases
  case (exit q woken t)
  obtain us where us: "pent (ps_tab s) c = Some us"
    "pent t = (\<lambda>d. disowned c (pent (ps_tab s) d))
       (c := if pi_ppid us = 0 then None
             else Some (us\<lparr>pi_exitstatus := st, pi_exited := True, pi_cv := []\<rparr>))"
    by (rule exit_in_ok [OF ok exit(2), of st]) (use exit(4) in simp)
  with p exit(1) show ?thesis by (auto simp: zombie_def is_child_def)
qed

lemma zombie_wait:
  assumes ok: "psys_ok s" and z: "zombie s p c st" and p: "ps_mode s p = Some PRun"
    and flags: "flags = 0 \<or> flags = 1" "flags = 1 \<longrightarrow> ret"
  shows "\<exists>t. pid_wait p c True flags ret (ps_tab s)
       = Some (WGot (Some st) (if ret then Some c else None), t) \<and> pent t c = None"
proof -
  obtain e where e: "pent (ps_tab s) c = Some e" "pi_exited e" "pi_ppid e = p" "pi_exitstatus e = st"
    using z by (auto simp: zombie_def)
  have tab: "ptab_ok (ps_tab s)" using ok by (simp add: psys_ok_def)
  have cp: "c \<noteq> p" using zombie_mode [OF ok z] p by auto
  have c1: "1 \<le> c" using pent_SomeD [OF tab e(1)] by simp
  from ok p flags(2) show ?thesis
  proof (cases rule: wait_in_ok [where c = c and status = True])
    case (error r)
    with e cp c1 flags show ?thesis by (auto simp: wait_errno_def split: if_splits)
  next
    case (collect k)
    with e drop_ent [OF tab e(1)] show ?thesis by simp
  qed (use e in auto)
qed

section \<open>Properties\<close>

text \<open>
  C5. In every state the process system can reach, however creation, exit, waiting and disowning
  are interleaved, every call of the pid module returns: no assertion in \<^verbatim>\<open>pid.c\<close> fails, the
  allocation loop ends, nobody sleeps on a condition variable that is destroyed, and the pointer
  \<^verbatim>\<open>pid_wait\<close> follows after its \<^verbatim>\<open>cv_wait\<close> is still valid and points at an exited process, although
  the code does not loop.
\<close>

theorem pid_calls_return:
  assumes "preach s" and "ps_mode s p = Some PRun"
  shows "(\<exists>r t. pid_alloc p (ps_tab s) = Some (r, t)) \<and>
     (\<exists>r t. pid_setexitstatus p st (ps_tab s) = Some (r, t)) \<and>
     ((flags = WNOHANG \<longrightarrow> ret) \<longrightarrow>
        (\<exists>r t. pid_wait p c status flags ret (ps_tab s) = Some (r, t))) \<and>
     (is_child s p c \<longrightarrow> (\<exists>t. pid_disown p c (ps_tab s) = Some t)) \<and>
     (is_child s p c \<and> ps_mode s c = Some PNew \<longrightarrow> (\<exists>t. pid_unalloc p c (ps_tab s) = Some t)) \<and>
     (ps_mode s q = Some (PWoken d a b) \<longrightarrow>
        (\<exists>r t. pid_wait_resume d a b (ps_tab s) = Some (r, t)))"
proof -
  have ok: "psys_ok s" using assms(1) by (rule preach_ok)
  have tab: "ptab_ok (ps_tab s)" "\<not> pt_lock (ps_tab s)" using ok by (simp_all add: psys_ok_def)
  have "\<exists>r t. pid_alloc p (ps_tab s) = Some (r, t)"
    by (cases rule: pid_alloc_cases [OF tab psys_ok_run(1) [OF ok assms(2)]]) auto
  moreover have "\<exists>r t. pid_setexitstatus p st (ps_tab s) = Some (r, t)"
    by (rule exit_in_ok [OF ok assms(2), of st]) simp
  moreover have "\<exists>r t. pid_wait p c status flags ret (ps_tab s) = Some (r, t)"
    if "flags = WNOHANG \<longrightarrow> ret"
    using ok assms(2) that [unfolded WNOHANG_def]
    by (cases rule: wait_in_ok [where c = c and status = status]) auto
  moreover have "\<exists>t. pid_disown p c (ps_tab s) = Some t" if "is_child s p c"
    by (rule disown_in_ok [OF ok assms(2) that]) simp
  moreover have "\<exists>t. pid_unalloc p c (ps_tab s) = Some t"
    if "is_child s p c" "ps_mode s c = Some PNew"
    using unalloc_in_ok [OF ok assms(2) that(2,1)] by blast
  moreover have "\<exists>r t. pid_wait_resume d a b (ps_tab s) = Some (r, t)"
    if "ps_mode s q = Some (PWoken d a b)"
    by (rule resume_in_ok [OF ok that]) simp
  ultimately show ?thesis by blast
qed

definition boot_tab :: "kmem \<Rightarrow> pidtab" where
  "boot_tab m = \<lparr>pt_lock = False, pt_info = (replicate 128 None)[1 := Some (new_pidinfo 1 0)],
     pt_nextpid = 2, pt_nprocs = 1, pt_mem = m\<rparr>"

lemma boot_reach: "preach \<lparr>ps_tab = boot_tab m, ps_mode = [1 \<mapsto> PRun]\<rparr>"
proof -
  have "pid_bootstrap (True # True # True # m) = Some (boot_tab m)"
    by (simp add: pid_bootstrap_def pidinfo_create_def boot_tab_def new_pidinfo_def)
  from preach.boot [OF this] show ?thesis by simp
qed

theorem pid_calls_return_witness:
  "(\<exists>r t. pid_alloc 1 (boot_tab []) = Some (r, t)) \<and>
   (\<exists>r t. pid_wait 1 7 True 0 False (boot_tab []) = Some (r, t))"
  using pid_calls_return [OF boot_reach [of "[]"], of 1 0 0 False 7 True] by simp

text \<open>
  C9. \<^verbatim>\<open>pid_alloc\<close> gives a pid in the user range that no process and no uncollected exit status
  has, and enters it with the caller as parent, or fails and leaves all entries as they are;
  it fails with \<^verbatim>\<open>EAGAIN\<close> exactly when all \<^verbatim>\<open>PROCS_MAX\<close> pids are taken.
\<close>

theorem pid_alloc_fresh:
  assumes "preach s" and "ps_mode s p = Some PRun"
  shows "\<exists>r t. pid_alloc p (ps_tab s) = Some (r, t) \<and>
     (case r of
        Inr c \<Rightarrow> PID_MIN \<le> c \<and> c \<le> PID_MAX \<and> pent (ps_tab s) c = None \<and> ps_mode s c = None \<and>
                 pent t = (pent (ps_tab s))(c \<mapsto> new_pidinfo c p)
      | Inl e \<Rightarrow> pent t = pent (ps_tab s)) \<and>
     (r = Inl EAGAIN \<longleftrightarrow> card (dom (pent (ps_tab s))) = PROCS_MAX)"
proof -
  have ok: "psys_ok s" using assms(1) by (rule preach_ok)
  have tab: "ptab_ok (ps_tab s)" "\<not> pt_lock (ps_tab s)" using ok by (simp_all add: psys_ok_def)
  have n: "pt_nprocs (ps_tab s) = 128 \<longleftrightarrow> card (dom (pent (ps_tab s))) = PROCS_MAX"
    using card_pent [OF tab(1)] by simp
  have dead: "ps_mode s c = None" if "pent (ps_tab s) c = None" for c
    using psys_ok_run(2) [OF ok, of c] that by (cases "ps_mode s c") auto
  show ?thesis
    by (cases rule: pid_alloc_cases [OF tab psys_ok_run(1) [OF ok assms(2)]])
      (use n dead in auto)
qed

theorem pid_alloc_fresh_witness:
  "\<exists>r t. pid_alloc 1 (boot_tab [True, True]) = Some (r, t) \<and> r \<noteq> Inl EAGAIN"
proof -
  have "pent (boot_tab [True, True]) = [1 \<mapsto> new_pidinfo 1 0]"
    by (auto simp: boot_tab_def pent_def fun_eq_iff nth_list_update new_pidinfo_def pslot_def)
  with pid_alloc_fresh [OF boot_reach [of "[True, True]"], of 1] show ?thesis by auto
qed

text \<open>
  C10. A process asleep in \<^verbatim>\<open>pid_wait\<close> is never forgotten: the child it waits for has not exited,
  and when the child exits with status \<open>st\<close> the sleeper is woken, its \<^verbatim>\<open>pid_wait\<close> returns \<open>st\<close>, and
  the child's pid is free again.
\<close>

theorem pid_wait_not_forgotten:
  assumes "preach s" and "ps_mode s p = Some (PSleep c status ret)"
  shows "ps_mode s c \<noteq> None \<and>
     (\<forall>st s'. pstep s (LExit c st) s' \<longrightarrow>
        ps_mode s' p = Some (PWoken c status ret) \<and>
        (\<exists>t. pid_wait_resume c status ret (ps_tab s')
             = Some (WGot (if status then Some st else None) (if ret then Some c else None), t) \<and>
             pent t c = None))"
proof -
  have ok: "psys_ok s" using assms(1) by (rule preach_ok)
  then have inv: "psys_inv (pent (ps_tab s)) (ps_mode s)" by (simp add: psys_ok_def)
  from psys_inv_mode [OF inv assms(2)] obtain e where
    e: "pent (ps_tab s) c = Some e" "pi_ppid e = p" "\<not> pi_exited e" "p \<in> set (pi_cv e)"
    by (auto simp: mode_ok_def)
  have p0: "p \<noteq> 0" using psys_ok_run(1) [OF ok assms(2)] .
  have "ps_mode s c \<noteq> None" using psys_inv_ent [OF inv e(1)] e(3) by (simp add: ent_ok_def)
  moreover have "ps_mode s' p = Some (PWoken c status ret) \<and>
        (\<exists>t. pid_wait_resume c status ret (ps_tab s')
             = Some (WGot (if status then Some st else None) (if ret then Some c else None), t) \<and>
             pent t c = None)" if step: "pstep s (LExit c st) s'" for st s'
  proof -
    have ok': "psys_ok s'" using ok step by (rule psys_ok_step)
    have z: "zombie s' p c st" using e(1,2) p0
      by (intro exit_zombie [OF ok step]) (auto simp: is_child_def)
    from step have woken: "ps_mode s' p = Some (PWoken c status ret)"
    proof cases
      case (exit q woken t)
      have "woken = pi_cv e"
        by (rule exit_in_ok [OF ok exit(2), of st]) (use exit(4) e p0 in auto)
      with exit assms(2) e show ?thesis by (auto simp: exit_mode_def)
    qed
    obtain k where k: "pent (ps_tab s') c = Some k"
      "pid_wait_resume c status ret (ps_tab s') =
         Some (WGot (if status then Some (pi_exitstatus k) else None)
                    (if ret then Some c else None), drop_ent c (ps_tab s'))"
      by (rule resume_in_ok [OF ok' woken])
    have "pi_exitstatus k = st" using z k(1) by (auto simp: zombie_def)
    moreover have "pent (drop_ent c (ps_tab s')) c = None"
      using drop_ent(2) [OF _ k(1)] ok' by (simp add: psys_ok_def)
    ultimately show ?thesis using woken k(2) by blast
  qed
  ultimately show ?thesis by blast
qed

text \<open>The kernel process with a running child, process 2, and the same asleep in \<open>pid_wait\<close>.\<close>

definition child_tab :: pidtab where
  "child_tab = put_ent 2 (Some (new_pidinfo 2 1)) ((boot_tab [])\<lparr>pt_nextpid := 3, pt_nprocs := 2\<rparr>)"

definition waiting_tab :: pidtab where
  "waiting_tab = put_ent 2 (Some ((new_pidinfo 2 1)\<lparr>pi_cv := [1]\<rparr>))
     ((boot_tab [])\<lparr>pt_nextpid := 3, pt_nprocs := 2\<rparr>)"

lemma pslot_2: "pslot 2 = 2"
  by (simp add: pslot_def)

lemma child_reach: "preach \<lparr>ps_tab = child_tab, ps_mode = [1 \<mapsto> PRun, 2 \<mapsto> PRun]\<rparr>"
proof -
  let ?s0 = "\<lparr>ps_tab = boot_tab [True, True], ps_mode = [1 \<mapsto> PRun]\<rparr>"
  let ?s1 = "\<lparr>ps_tab = child_tab, ps_mode = [1 \<mapsto> PRun, 2 \<mapsto> PNew]\<rparr>"
  have "pid_alloc_loop (pt_info (boot_tab [True, True])) 0 2 = Some 2"
    by (subst pid_alloc_loop.simps) (simp add: boot_tab_def pslot_2 nth_list_update)
  then have "pid_alloc 1 (boot_tab [True, True]) = Some (Inr 2, child_tab)"
    by (simp add: pid_alloc_def pidlock_acquire_def pidlock_release_def boot_tab_def Let_def
        pidinfo_create_def pi_put_def pslot_2 nth_list_update inc_nextpid_def put_ent_def
        new_pidinfo_def child_tab_def)
  with pstep.alloc [of ?s0 1 2 child_tab] have "pstep ?s0 (LAlloc 1 (Inr 2)) ?s1" by simp
  with boot_reach have "preach ?s1" by (rule preach.step)
  moreover have "pstep ?s1 (LStart 2) \<lparr>ps_tab = child_tab, ps_mode = [1 \<mapsto> PRun, 2 \<mapsto> PRun]\<rparr>"
    using pstep.start [of ?s1 2] by simp
  ultimately show ?thesis by (rule preach.step)
qed

lemma waiting_reach:
  "preach \<lparr>ps_tab = waiting_tab, ps_mode = [1 \<mapsto> PSleep 2 True False, 2 \<mapsto> PRun]\<rparr>"
proof -
  let ?s2 = "\<lparr>ps_tab = child_tab, ps_mode = [1 \<mapsto> PRun, 2 \<mapsto> PRun]\<rparr>"
  have "pid_wait 1 2 True 0 False child_tab = Some (WSleep, waiting_tab)"
    by (simp add: pid_wait_def pidlock_acquire_def pidlock_release_def pi_get_def pi_store_def
        boot_tab_def put_ent_def pslot_2 nth_list_update new_pidinfo_def waiting_tab_def
        child_tab_def)
  with pstep.wait [of ?s2 1 0 False 2 True WSleep waiting_tab]
  have "pstep ?s2 (LWait 1 2 WSleep)
      \<lparr>ps_tab = waiting_tab, ps_mode = [1 \<mapsto> PSleep 2 True False, 2 \<mapsto> PRun]\<rparr>"
    by (simp add: fun_upd_twist)
  with child_reach show ?thesis by (rule preach.step)
qed

theorem pid_wait_not_forgotten_witness:
  "\<exists>s'. pstep \<lparr>ps_tab = waiting_tab, ps_mode = [1 \<mapsto> PSleep 2 True False, 2 \<mapsto> PRun]\<rparr>
       (LExit 2 9) s' \<and> ps_mode s' 1 = Some (PWoken 2 True False)"
proof -
  let ?s = "\<lparr>ps_tab = waiting_tab, ps_mode = [1 \<mapsto> PSleep 2 True False, 2 \<mapsto> PRun]\<rparr>"
  obtain r t where "pid_setexitstatus 2 9 (ps_tab ?s) = Some ((0, r), t)"
    by (rule exit_in_ok [OF preach_ok [OF waiting_reach], of 2 9]) auto
  with pstep.exit [of ?s 2 9 0 r t]
  have step: "pstep ?s (LExit 2 9) \<lparr>ps_tab = t, ps_mode = exit_mode 2 r (ps_mode ?s)\<rparr>" by simp
  with pid_wait_not_forgotten [OF waiting_reach, of 1 2 True False] show ?thesis by auto
qed

text \<open>
  C11. The status a process exits with is what its parent gets: after \<open>c\<close> exits with \<open>st\<close>, any
  calls by any processes may follow, as long as the parent \<open>p\<close> itself neither collects or
  disowns \<open>c\<close> nor exits; then a \<^verbatim>\<open>pid_wait\<close> of \<open>p\<close> for \<open>c\<close>, with or without \<^verbatim>\<open>WNOHANG\<close>, returns \<open>st\<close>
  at once and frees the pid.
\<close>

theorem pid_exit_status_delivered:
  assumes "preach s" and "is_child s p c" and "p \<noteq> INVALID_PID" and "pstep s (LExit c st) s1"
    and "psteps s1 ls s2" and "\<forall>l \<in> set ls. \<not> lets_go p c l"
    and "ps_mode s2 p = Some PRun" and "flags = 0 \<or> flags = WNOHANG \<and> ret"
  shows "\<exists>t. pid_wait p c True flags ret (ps_tab s2)
       = Some (WGot (Some st) (if ret then Some c else None), t) \<and> pent t c = None"
proof -
  have ok: "psys_ok s" using assms(1) by (rule preach_ok)
  have ok1: "psys_ok s1" using ok assms(4) by (rule psys_ok_step)
  have "zombie s1 p c st" using exit_zombie [OF ok assms(4,2)] assms(3) by simp
  with zombie_steps [OF assms(5) ok1 _ assms(6)]
  have "psys_ok s2" "zombie s2 p c st" by blast+
  then show ?thesis by (rule zombie_wait) (use assms(7,8) in auto)
qed

theorem pid_exit_status_delivered_witness:
  "\<exists>t t'. pid_setexitstatus 2 9 child_tab = Some ((0, []), t) \<and>
     pid_wait 1 2 True 0 False t = Some (WGot (Some 9) None, t')"
proof -
  let ?s = "\<lparr>ps_tab = child_tab, ps_mode = [1 \<mapsto> PRun, 2 \<mapsto> PRun]\<rparr>"
  have ent: "pent child_tab 2 = Some (new_pidinfo 2 1)"
    by (simp add: child_tab_def pent_def put_ent_def pslot_2 boot_tab_def new_pidinfo_def)
  obtain t where t: "pid_setexitstatus 2 9 child_tab = Some ((0, []), t)"
    by (rule exit_in_ok [OF preach_ok [OF child_reach], of 2 9]) (use ent in \<open>auto simp: new_pidinfo_def\<close>)
  let ?s1 = "\<lparr>ps_tab = t, ps_mode = [1 \<mapsto> PRun]\<rparr>"
  have "exit_mode 2 [] [1 \<mapsto> PRun, 2 \<mapsto> PRun] = [1 \<mapsto> PRun]"
    by (auto simp: exit_mode_def fun_eq_iff)
  with pstep.exit [of ?s 2 9 0 "[]" t] t have "pstep ?s (LExit 2 9) ?s1" by simp
  from pid_exit_status_delivered [OF child_reach _ _ this psteps.none, of 1 0 False] ent t
  show ?thesis by (auto simp: is_child_def new_pidinfo_def)
qed

end
