(* ===== verification/Kern_Uio.thy ===== *)
theory Kern_Uio
  imports Kern_Prelude
begin

text \<open>
  Moving data between the kernel and user memory: \<^verbatim>\<open>kern/vm/copyinout.c\<close> and
  \<^verbatim>\<open>kern/lib/uio.c\<close>.

  User memory is a value for every address and, separately, whether a load or a store there
  succeeds; an access that does not succeed is the fault that makes the code resume in
  \<^verbatim>\<open>copyfail\<close> and return \<^verbatim>\<open>EFAULT\<close>.  A block is copied in ascending order, so the bytes before the
  first faulting one have been stored; what a failed \<^verbatim>\<open>copyin\<close> leaves in the kernel buffer is not
  part of the result.  Addresses and lengths are 32-bit.
\<close>

section \<open>Copying between kernel and user space\<close>

definition USERSPACETOP :: nat where "USERSPACETOP = 2 ^ 31"

record umem =
  um_val :: "nat \<Rightarrow> 8 word"
  um_load :: "nat \<Rightarrow> bool"
  um_store :: "nat \<Rightarrow> bool"

definition copycheck :: "nat \<Rightarrow> nat \<Rightarrow> errno + nat" where
  "copycheck userptr len =
     (let bot = userptr; top = u32 (bot + len + 2 ^ 32 - 1)
      in if top < bot then Inl EFAULT
         else if USERSPACETOP \<le> bot then Inl EFAULT
         else if USERSPACETOP \<le> top then Inr (USERSPACETOP - bot)
         else Inr len)"

fun load_bytes :: "umem \<Rightarrow> nat \<Rightarrow> nat \<Rightarrow> 8 word list option" where
  "load_bytes um a 0 = Some []"
| "load_bytes um a (Suc n) =
     (if um_load um a then map_option (Cons (um_val um a)) (load_bytes um (Suc a) n) else None)"

fun store_bytes :: "umem \<Rightarrow> nat \<Rightarrow> 8 word list \<Rightarrow> bool \<times> umem" where
  "store_bytes um a [] = (True, um)"
| "store_bytes um a (b # bs) =
     (if um_store um a then store_bytes (um\<lparr>um_val := (um_val um)(a := b)\<rparr>) (Suc a) bs
      else (False, um))"

definition copyin :: "nat \<Rightarrow> nat \<Rightarrow> umem \<Rightarrow> errno + 8 word list" where
  "copyin usersrc len um =
     (case copycheck usersrc len of
        Inl e \<Rightarrow> Inl e
      | Inr stoplen \<Rightarrow>
          if stoplen \<noteq> len then Inl EFAULT
          else case load_bytes um usersrc len of None \<Rightarrow> Inl EFAULT | Some bs \<Rightarrow> Inr bs)"

definition copyout :: "8 word list \<Rightarrow> nat \<Rightarrow> nat \<Rightarrow> umem \<Rightarrow> (errno + unit) \<times> umem" where
  "copyout src userdest len um =
     (case copycheck userdest len of
        Inl e \<Rightarrow> (Inl e, um)
      | Inr stoplen \<Rightarrow>
          if stoplen \<noteq> len then (Inl EFAULT, um)
          else case store_bytes um userdest (take len src) of
                 (False, um) \<Rightarrow> (Inl EFAULT, um)
               | (True, um) \<Rightarrow> (Inr (), um))"

text \<open>
  \<^verbatim>\<open>copystr\<close> reading from user memory into the kernel, and from the kernel into user memory.  The
  number left is that of the bytes the loop may still copy, the smaller of \<^verbatim>\<open>maxlen\<close> and
  \<^verbatim>\<open>stoplen\<close> at first; \<open>Inl None\<close> is a fault.
\<close>

fun copystr_in :: "umem \<Rightarrow> nat \<Rightarrow> nat \<Rightarrow> errno \<Rightarrow> 8 word list \<Rightarrow> errno + 8 word list" where
  "copystr_in um src 0 eos dest = Inl eos"
| "copystr_in um src (Suc n) eos dest =
     (if \<not> um_load um src then Inl EFAULT
      else let c = um_val um src; dest = dest @ [c]
           in if c = 0 then Inr dest else copystr_in um (Suc src) n eos dest)"

fun copystr_out ::
    "8 word list \<Rightarrow> umem \<Rightarrow> nat \<Rightarrow> nat \<Rightarrow> errno \<Rightarrow> ((errno + unit) \<times> umem) option" where
  "copystr_out src um dest 0 eos = Some (Inl eos, um)"
| "copystr_out [] um dest (Suc n) eos = None"
| "copystr_out (c # src) um dest (Suc n) eos =
     (if \<not> um_store um dest then Some (Inl EFAULT, um)
      else let um = um\<lparr>um_val := (um_val um)(dest := c)\<rparr>
           in if c = 0 then Some (Inr (), um) else copystr_out src um (Suc dest) n eos)"

definition copystr_end :: "nat \<Rightarrow> nat \<Rightarrow> errno" where
  "copystr_end maxlen stoplen = (if stoplen < maxlen then EFAULT else ENAMETOOLONG)"

definition copyinstr :: "nat \<Rightarrow> nat \<Rightarrow> umem \<Rightarrow> errno + 8 word list" where
  "copyinstr usersrc len um =
     (case copycheck usersrc len of
        Inl e \<Rightarrow> Inl e
      | Inr stoplen \<Rightarrow> copystr_in um usersrc (min len stoplen) (copystr_end len stoplen) [])"

definition copyoutstr :: "8 word list \<Rightarrow> nat \<Rightarrow> nat \<Rightarrow> umem \<Rightarrow> ((errno + unit) \<times> umem) option" where
  "copyoutstr src userdest len um =
     (case copycheck userdest len of
        Inl e \<Rightarrow> Some (Inl e, um)
      | Inr stoplen \<Rightarrow>
          copystr_out src um userdest (min len stoplen) (copystr_end len stoplen))"

subsection \<open>What the check accepts\<close>

lemma copycheck_Inr:
  assumes "p < 2 ^ 32" and "len < 2 ^ 32"
  shows "copycheck p len = Inr l \<longleftrightarrow>
     p < USERSPACETOP \<and>
     (if len = 0 then p = 0 \<and> l = USERSPACETOP
      else p + len \<le> 2 ^ 32 \<and> l = min len (USERSPACETOP - p))"
proof (cases "len = 0")
  case True
  then have "u32 (p + len + 2 ^ 32 - 1) = (if p = 0 then 2 ^ 32 - 1 else p - 1)"
    using assms by (cases p) (simp_all add: u32_def)
  with True show ?thesis by (auto simp: copycheck_def USERSPACETOP_def)
next
  case False
  then have *: "p + len + 2 ^ 32 - 1 = (p + len - 1) + 2 ^ 32" by simp
  then have "u32 (p + len + 2 ^ 32 - 1) = (p + len - 1) mod 2 ^ 32"
    unfolding * u32_def by simp
  also have "\<dots> = (if p + len \<le> 2 ^ 32 then p + len - 1 else p + len - 1 - 2 ^ 32)"
    using assms False by (auto simp: mod_if)
  finally show ?thesis using assms False
    by (auto simp: copycheck_def USERSPACETOP_def Let_def)
qed

text \<open>A block can be copied whole when it is not empty and lies in user space.\<close>

lemma copycheck_whole:
  assumes "p < 2 ^ 32" and "len < 2 ^ 32"
  shows "copycheck p len = Inr len \<longleftrightarrow> 0 < len \<and> p + len \<le> USERSPACETOP"
  using assms by (auto simp: copycheck_Inr USERSPACETOP_def min_def)

lemma copycheck_errno: "copycheck p len = Inl e \<Longrightarrow> e = EFAULT"
  by (auto simp: copycheck_def Let_def split: if_splits)

lemma load_bytes_eq:
  "load_bytes um a n =
     (if \<forall>i < n. um_load um (a + i) then Some (map (um_val um) [a..<a + n]) else None)"
proof (induction n arbitrary: a)
  case (Suc n)
  have "(\<forall>i < Suc n. um_load um (a + i)) \<longleftrightarrow> um_load um a \<and> (\<forall>i < n. um_load um (Suc a + i))"
    by (auto simp: less_Suc_eq_0_disj)
  moreover have "[a..<a + Suc n] = a # [Suc a..<Suc a + n]" by (simp add: upt_conv_Cons)
  ultimately show ?case using Suc [of "Suc a"] by simp
qed simp

text \<open>Storing writes exactly the bytes before the first address that cannot be written.\<close>

definition um_write :: "umem \<Rightarrow> nat \<Rightarrow> 8 word list \<Rightarrow> umem" where
  "um_write um a bs =
     um\<lparr>um_val := (\<lambda>x. if a \<le> x \<and> x < a + length bs then bs ! (x - a) else um_val um x)\<rparr>"

lemma um_write_Nil [simp]: "um_write um a [] = um"
proof -
  have "(\<lambda>x. if a \<le> x \<and> x < a then [] ! (x - a) else um_val um x) = um_val um"
    by (auto simp: fun_eq_iff)
  then show ?thesis by (simp add: um_write_def)
qed

lemma um_write_Cons:
  "um_write (um\<lparr>um_val := (um_val um)(a := b)\<rparr>) (Suc a) bs = um_write um a (b # bs)"
  by (cases um) (auto simp: um_write_def fun_eq_iff nth_Cons')

lemma um_write_perm [simp]:
  "um_load (um_write um a bs) = um_load um" "um_store (um_write um a bs) = um_store um"
  by (simp_all add: um_write_def)

lemma um_write_append:
  "um_write (um_write um a bs) (a + length bs) cs = um_write um a (bs @ cs)"
  by (cases um) (auto simp: um_write_def fun_eq_iff nth_append)

lemma store_bytes_cases:
  obtains (all) "store_bytes um a bs = (True, um_write um a bs)"
      "\<forall>i < length bs. um_store um (a + i)"
  | (fault) n where "n < length bs" "store_bytes um a bs = (False, um_write um a (take n bs))"
      "\<forall>i < n. um_store um (a + i)" "\<not> um_store um (a + n)"
proof (induction bs arbitrary: um a thesis)
  case Nil
  then show ?case by simp
next
  case (Cons b bs)
  show ?case
  proof (cases "um_store um a")
    case False
    then show ?thesis using Cons.prems(2) [of 0] by simp
  next
    case True
    let ?um = "um\<lparr>um_val := (um_val um)(a := b)\<rparr>"
    show ?thesis
    proof (rule Cons.IH [of ?um "Suc a"])
      assume "store_bytes ?um (Suc a) bs = (True, um_write ?um (Suc a) bs)"
        "\<forall>i < length bs. um_store ?um (Suc a + i)"
      then show ?thesis using True
        by (intro Cons.prems(1)) (auto simp: um_write_Cons less_Suc_eq_0_disj)
    next
      fix n assume "n < length bs"
        "store_bytes ?um (Suc a) bs = (False, um_write ?um (Suc a) (take n bs))"
        "\<forall>i < n. um_store ?um (Suc a + i)" "\<not> um_store ?um (Suc a + n)"
      then show ?thesis using True
        by (intro Cons.prems(2) [of "Suc n"]) (auto simp: um_write_Cons less_Suc_eq_0_disj)
    qed
  qed
qed

lemma copyin_eq:
  assumes "p < 2 ^ 32" and "len < 2 ^ 32"
  shows "copyin p len um =
     (if 0 < len \<and> p + len \<le> USERSPACETOP \<and> (\<forall>i < len. um_load um (p + i))
      then Inr (map (um_val um) [p..<p + len]) else Inl EFAULT)"
proof (cases "0 < len \<and> p + len \<le> USERSPACETOP")
  case True
  then have "copycheck p len = Inr len" using copycheck_whole [OF assms] by simp
  with True show ?thesis by (simp add: copyin_def load_bytes_eq)
next
  case False
  then have "copycheck p len \<noteq> Inr len" using copycheck_whole [OF assms] by blast
  with False show ?thesis
    by (auto simp: copyin_def dest: copycheck_errno split: sum.splits)
qed

lemma copyout_cases:
  assumes "p < 2 ^ 32" and "len < 2 ^ 32" and src: "length src = len"
  obtains (copied) "0 < len" "p + len \<le> USERSPACETOP" "\<forall>i < len. um_store um (p + i)"
      "copyout src p len um = (Inr (), um_write um p src)"
  | (fault) n where "n < len" "p + len \<le> USERSPACETOP" "\<forall>i < n. um_store um (p + i)"
      "\<not> um_store um (p + n)" "copyout src p len um = (Inl EFAULT, um_write um p (take n src))"
  | (reject) "\<not> (0 < len \<and> p + len \<le> USERSPACETOP)" "copyout src p len um = (Inl EFAULT, um)"
proof (cases "0 < len \<and> p + len \<le> USERSPACETOP")
  case False
  then have "copycheck p len \<noteq> Inr len" using copycheck_whole [OF assms(1,2)] by blast
  then have "copyout src p len um = (Inl EFAULT, um)"
    by (auto simp: copyout_def dest: copycheck_errno split: sum.splits)
  with False show ?thesis by (rule reject)
next
  case True
  then have chk: "copycheck p len = Inr len" using copycheck_whole [OF assms(1,2)] by simp
  show ?thesis
  proof (cases rule: store_bytes_cases [of um p src])
    case all
    with chk src True show ?thesis by (intro copied) (auto simp: copyout_def)
  next
    case (fault n)
    with chk src True show ?thesis by (intro that(2) [of n]) (auto simp: copyout_def)
  qed
qed

subsection \<open>Strings\<close>

lemma copystr_in_cases:
  obtains (found) k where "k < n" "um_val um (a + k) = 0" "\<forall>i < Suc k. um_load um (a + i)"
      "\<forall>i < k. um_val um (a + i) \<noteq> 0"
      "copystr_in um a n eos dest = Inr (dest @ map (um_val um) [a..<Suc (a + k)])"
  | (fault) k where "k < n" "\<not> um_load um (a + k)"
      "\<forall>i < k. um_load um (a + i) \<and> um_val um (a + i) \<noteq> 0"
      "copystr_in um a n eos dest = Inl EFAULT"
  | (long) "\<forall>i < n. um_load um (a + i) \<and> um_val um (a + i) \<noteq> 0"
      "copystr_in um a n eos dest = Inl eos"
proof (induction n arbitrary: a dest thesis)
  case 0
  then show ?case by simp
next
  case (Suc n)
  show ?case
  proof (cases "um_load um a \<and> um_val um a \<noteq> 0")
    case False
    then show ?thesis using Suc.prems(1) [of 0] Suc.prems(2) [of 0] by (cases "um_load um a") auto
  next
    case True
    let ?d = "dest @ [um_val um a]"
    have step: "copystr_in um a (Suc n) eos dest = copystr_in um (Suc a) n eos ?d"
      using True by simp
    show ?thesis
    proof (rule Suc.IH [of "Suc a" ?d])
      fix k assume k: "k < n" "um_val um (Suc a + k) = 0" "\<forall>i < Suc k. um_load um (Suc a + i)"
        "\<forall>i < k. um_val um (Suc a + i) \<noteq> 0"
        "copystr_in um (Suc a) n eos ?d = Inr (?d @ map (um_val um) [Suc a..<Suc (Suc a + k)])"
      have "[a..<Suc (a + Suc k)] = a # [Suc a..<Suc (Suc a + k)]" by (simp add: upt_conv_Cons)
      then show ?thesis using k True step
        by (intro Suc.prems(1) [of "Suc k"])
          (auto simp: less_Suc_eq_0_disj)
    next
      fix k assume "k < n" "\<not> um_load um (Suc a + k)"
        "\<forall>i < k. um_load um (Suc a + i) \<and> um_val um (Suc a + i) \<noteq> 0"
        "copystr_in um (Suc a) n eos ?d = Inl EFAULT"
      then show ?thesis using True step
        by (intro Suc.prems(2) [of "Suc k"]) (auto simp: less_Suc_eq_0_disj)
    next
      assume "\<forall>i < n. um_load um (Suc a + i) \<and> um_val um (Suc a + i) \<noteq> 0"
        "copystr_in um (Suc a) n eos ?d = Inl eos"
      then show ?thesis using True step
        by (intro Suc.prems(3)) (auto simp: less_Suc_eq_0_disj)
    qed
  qed
qed

lemma copyinstr_eq:
  assumes p: "p < 2 ^ 32" and len: "0 < len" "len \<le> 2 ^ 31"
  shows "copyinstr p len um =
     (if USERSPACETOP \<le> p then Inl EFAULT
      else copystr_in um p (min len (USERSPACETOP - p))
             (if USERSPACETOP - p < len then EFAULT else ENAMETOOLONG) [])"
proof (cases "USERSPACETOP \<le> p")
  case True
  then show ?thesis by (simp add: copyinstr_def copycheck_def Let_def)
next
  case False
  then have "copycheck p len = Inr (min len (USERSPACETOP - p))"
    using copycheck_Inr [OF p, of len "min len (USERSPACETOP - p)"] len by (simp add: USERSPACETOP_def)
  with False show ?thesis by (simp add: copyinstr_def copystr_end_def min_def)
qed

section \<open>Transfers described by a uio\<close>

text \<open>
  A \<^verbatim>\<open>struct uio\<close> with its list of \<^verbatim>\<open>iovec\<close>s.  Kernel buffers of a uio live in the kernel part of
  the memory; the buffer \<^verbatim>\<open>uiomove\<close> is called with is given by its contents.
\<close>

datatype uio_rw = UIO_READ | UIO_WRITE
datatype uio_seg = UIO_USERISPACE | UIO_USERSPACE | UIO_SYSSPACE

record iovec =
  iov_base :: nat
  iov_len :: nat

record uio =
  uio_iov :: "iovec list"
  uio_offset :: int
  uio_resid :: nat
  uio_segflg :: uio_seg
  uio_dir :: uio_rw
  uio_space :: "nat option"

record kumem =
  km_user :: umem
  km_kern :: "nat \<Rightarrow> 8 word"

definition uio_kinit :: "nat \<Rightarrow> nat \<Rightarrow> int \<Rightarrow> uio_rw \<Rightarrow> uio" where
  "uio_kinit kbuf len pos rw =
     \<lparr>uio_iov = [\<lparr>iov_base = kbuf, iov_len = len\<rparr>], uio_offset = pos, uio_resid = len,
      uio_segflg = UIO_SYSSPACE, uio_dir = rw, uio_space = None\<rparr>"

definition uio_uinit :: "nat \<Rightarrow> nat \<Rightarrow> int \<Rightarrow> uio_rw \<Rightarrow> nat option \<Rightarrow> uio" where
  "uio_uinit buf len offset rw as =
     \<lparr>uio_iov = [\<lparr>iov_base = buf, iov_len = len\<rparr>], uio_offset = offset, uio_resid = len,
      uio_segflg = UIO_USERSPACE, uio_dir = rw, uio_space = as\<rparr>"

definition kern_write :: "(nat \<Rightarrow> 8 word) \<Rightarrow> nat \<Rightarrow> 8 word list \<Rightarrow> nat \<Rightarrow> 8 word" where
  "kern_write k a bs = (\<lambda>x. if a \<le> x \<and> x < a + length bs then bs ! (x - a) else k x)"

text \<open>
  One transfer of \<open>sz\<close> bytes at the front of the first \<^verbatim>\<open>iovec\<close>: the bytes that reach the
  caller's buffer and the new memory.
\<close>

definition uio_xfer ::
    "uio \<Rightarrow> nat \<Rightarrow> nat \<Rightarrow> 8 word list \<Rightarrow> kumem \<Rightarrow> (errno + 8 word list) \<times> kumem" where
  "uio_xfer uio base sz ptr m =
     (case uio_segflg uio of
        UIO_SYSSPACE \<Rightarrow>
          (case uio_dir uio of
             UIO_READ \<Rightarrow> (Inr [], m\<lparr>km_kern := kern_write (km_kern m) base (take sz ptr)\<rparr>)
           | UIO_WRITE \<Rightarrow> (Inr (map (km_kern m) [base..<base + sz]), m))
      | _ \<Rightarrow>
          (case uio_dir uio of
             UIO_READ \<Rightarrow>
               (case copyout (take sz ptr) base sz (km_user m) of
                  (Inl e, um) \<Rightarrow> (Inl e, m\<lparr>km_user := um\<rparr>)
                | (Inr _, um) \<Rightarrow> (Inr [], m\<lparr>km_user := um\<rparr>))
           | UIO_WRITE \<Rightarrow>
               (case copyin base sz (km_user m) of
                  Inl e \<Rightarrow> (Inl e, m)
                | Inr bs \<Rightarrow> (Inr bs, m))))"

text \<open>
  The loop of \<^verbatim>\<open>uiomove\<close>: \<open>ptr\<close> is what is left of the caller's buffer (when reading), \<open>got\<close> what
  has been put into it (when writing), \<open>n\<close> what is left of the request.
\<close>

function uiomove_loop ::
    "8 word list \<Rightarrow> nat \<Rightarrow> 8 word list \<Rightarrow> uio \<Rightarrow> kumem \<Rightarrow>
     ((errno + unit) \<times> 8 word list \<times> uio \<times> kumem) option" where
  "uiomove_loop ptr n got uio m =
     (if 0 < n \<and> 0 < uio_resid uio
      then case uio_iov uio of
             [] \<Rightarrow> None
           | iov # iovs \<Rightarrow>
               let sz = (if n < iov_len iov then n else iov_len iov)
               in if sz = 0
                  then if iovs = [] then None
                       else uiomove_loop ptr n got (uio\<lparr>uio_iov := iovs\<rparr>) m
                  else case uio_xfer uio (iov_base iov) sz ptr m of
                         (Inl e, m) \<Rightarrow> Some (Inl e, got, uio, m)
                       | (Inr bs, m) \<Rightarrow>
                           uiomove_loop (drop sz ptr) (n - sz) (got @ bs)
                             (uio\<lparr>uio_iov := \<lparr>iov_base = iov_base iov + sz,
                                               iov_len = iov_len iov - sz\<rparr> # iovs,
                                  uio_resid := usub32 (uio_resid uio) sz,
                                  uio_offset := uio_offset uio + int sz\<rparr>) m
      else Some (Inr (), got, uio, m))"
  by pat_completeness auto
termination
  by (relation "measures [\<lambda>(_, n, _). n, \<lambda>(_, _, _, uio, _). length (uio_iov uio)]")
    (auto split: if_splits)

declare uiomove_loop.simps [simp del]

definition uiomove ::
    "nat option \<Rightarrow> 8 word list \<Rightarrow> nat \<Rightarrow> uio \<Rightarrow> kumem \<Rightarrow>
     ((errno + unit) \<times> 8 word list \<times> uio \<times> kumem) option" where
  "uiomove curas ptr n uio m =
     do { kassert (if uio_segflg uio = UIO_SYSSPACE then uio_space uio = None
                   else uio_space uio = curas);
          uiomove_loop ptr n [] uio m }"

text \<open>\<^verbatim>\<open>uiomovezeros\<close>: the request in pieces of at most 16 bytes.\<close>

function uiomovezeros_loop ::
    "nat option \<Rightarrow> nat \<Rightarrow> uio \<Rightarrow> kumem \<Rightarrow> ((errno + unit) \<times> uio \<times> kumem) option" where
  "uiomovezeros_loop curas n uio m =
     (if 0 < n
      then let amt = (if n < 16 then n else 16)
           in case uiomove curas (replicate amt 0) amt uio m of
                None \<Rightarrow> None
              | Some (Inl e, _, uio, m) \<Rightarrow> Some (Inl e, uio, m)
              | Some (Inr _, _, uio, m) \<Rightarrow> uiomovezeros_loop curas (n - amt) uio m
      else Some (Inr (), uio, m))"
  by pat_completeness auto
termination
  by (relation "measure (\<lambda>(_, n, _). n)") (auto split: if_splits)

declare uiomovezeros_loop.simps [simp del]

definition uiomovezeros ::
    "nat option \<Rightarrow> nat \<Rightarrow> uio \<Rightarrow> kumem \<Rightarrow> ((errno + unit) \<times> uio \<times> kumem) option" where
  "uiomovezeros curas n uio m =
     do { kassert (uio_dir uio = UIO_READ); uiomovezeros_loop curas n uio m }"

subsection \<open>The bookkeeping of a transfer\<close>

text \<open>A uio whose residue is the total length of its buffers.\<close>

definition iov_total :: "iovec list \<Rightarrow> nat" where
  "iov_total iovs = sum_list (map iov_len iovs)"

definition uio_ok :: "uio \<Rightarrow> bool" where
  "uio_ok u \<longleftrightarrow> uio_resid u = iov_total (uio_iov u) \<and> uio_resid u < 2 ^ 32"

lemma uio_ok_kinit [simp]: "len < 2 ^ 32 \<Longrightarrow> uio_ok (uio_kinit kbuf len pos rw)"
  by (simp add: uio_ok_def uio_kinit_def iov_total_def)

lemma uio_ok_uinit [simp]: "len < 2 ^ 32 \<Longrightarrow> uio_ok (uio_uinit buf len pos rw as)"
  by (simp add: uio_ok_def uio_uinit_def iov_total_def)

lemma uio_xfer_length:
  assumes "uio_xfer u base sz ptr m = (Inr bs, m')" and "sz < 2 ^ 32" "base < 2 ^ 32"
  shows "length bs = (if uio_dir u = UIO_WRITE then sz else 0)"
  using assms
  by (auto simp: uio_xfer_def copyin_eq split: uio_seg.splits uio_rw.splits prod.splits sum.splits
      if_splits)

lemma copyin_errno: "copyin p len um = Inl e \<Longrightarrow> e = EFAULT"
  by (auto simp: copyin_def dest: copycheck_errno split: sum.splits if_splits option.splits)

lemma copyout_errno: "copyout src p len um = (Inl e, um') \<Longrightarrow> e = EFAULT"
  by (auto simp: copyout_def dest: copycheck_errno split: sum.splits if_splits prod.splits
      bool.splits)

lemma uio_xfer_errno: "uio_xfer u base sz ptr m = (Inl e, m') \<Longrightarrow> e = EFAULT"
  by (auto simp: uio_xfer_def dest: copyin_errno copyout_errno
      split: uio_seg.splits uio_rw.splits prod.splits sum.splits)

text \<open>The uio after \<open>k\<close> bytes have gone through its first buffer.\<close>

definition uio_advance :: "nat \<Rightarrow> uio \<Rightarrow> uio" where
  "uio_advance k u = u\<lparr>uio_iov := \<lparr>iov_base = iov_base (hd (uio_iov u)) + k,
       iov_len = iov_len (hd (uio_iov u)) - k\<rparr> # tl (uio_iov u),
     uio_resid := uio_resid u - k, uio_offset := uio_offset u + int k\<rparr>"

text \<open>
  With one buffer, as \<^verbatim>\<open>uio_kinit\<close> and \<^verbatim>\<open>uio_uinit\<close> set it up, \<^verbatim>\<open>uiomove\<close> is a single transfer of as
  much as is asked for and fits.
\<close>

lemma uiomove_loop_single:
  fixes n :: nat
  assumes ok: "uio_ok u" and iov: "uio_iov u = [iov]"
  defines "k \<equiv> min n (uio_resid u)"
  shows "uiomove_loop ptr n got u m =
     (if k = 0 then Some (Inr (), got, u, m)
      else case uio_xfer u (iov_base iov) k ptr m of
             (Inl e, m) \<Rightarrow> Some (Inl e, got, u, m)
           | (Inr bs, m) \<Rightarrow> Some (Inr (), got @ bs, uio_advance k u, m))"
proof -
  have len: "iov_len iov = uio_resid u" "uio_resid u < 2 ^ 32"
    using ok iov by (simp_all add: uio_ok_def iov_total_def)
  have adv: "u\<lparr>uio_iov := [\<lparr>iov_base = iov_base iov + k, iov_len = iov_len iov - k\<rparr>],
      uio_resid := usub32 (uio_resid u) k, uio_offset := uio_offset u + int k\<rparr>
      = uio_advance k u"
    using iov len by (simp add: uio_advance_def k_def)
  have stop: "uiomove_loop (drop k ptr) (n - k) got' (uio_advance k u) m'
      = Some (Inr (), got', uio_advance k u, m')" for got' m'
    by (subst uiomove_loop.simps) (simp add: uio_advance_def k_def min_def)
  show ?thesis
  proof (cases "k = 0")
    case True
    then show ?thesis by (subst uiomove_loop.simps) (auto simp: k_def min_def split: if_splits)
  next
    case False
    then have "0 < n" "0 < uio_resid u" "(if n < iov_len iov then n else iov_len iov) = k"
      using len by (auto simp: k_def)
    then show ?thesis using False
      by (subst uiomove_loop.simps)
        (auto simp: iov adv stop Let_def split: prod.splits sum.splits)
  qed
qed

text \<open>
  With any number of buffers: the call returns, and the residue, the offset and the request
  move together.
\<close>

lemma uiomove_loop_bookkeeping:
  assumes "uio_ok u"
  shows "\<exists>r got' u' m'. uiomove_loop ptr n got u m = Some (r, got', u', m') \<and> uio_ok u' \<and>
     uio_resid u' \<le> uio_resid u \<and> uio_resid u - uio_resid u' \<le> n \<and>
     uio_offset u' = uio_offset u + int (uio_resid u - uio_resid u') \<and>
     uio_segflg u' = uio_segflg u \<and> uio_dir u' = uio_dir u \<and> uio_space u' = uio_space u \<and>
     (r = Inl EFAULT \<or> r = Inr () \<and> uio_resid u - uio_resid u' = min n (uio_resid u))"
  using assms
proof (induction ptr n got u m rule: uiomove_loop.induct)
  case (1 ptr n got u m)
  show ?case
  proof (cases "0 < n \<and> 0 < uio_resid u")
    case False
    then show ?thesis using 1(3) by (subst uiomove_loop.simps) auto
  next
    case go: True
    then obtain iov iovs where iov: "uio_iov u = iov # iovs"
      using 1(3) by (cases "uio_iov u") (auto simp: uio_ok_def iov_total_def)
    define sz where "sz = (if n < iov_len iov then n else iov_len iov)"
    have tot: "uio_resid u = iov_len iov + iov_total iovs" "uio_resid u < 2 ^ 32"
      using 1(3) iov by (simp_all add: uio_ok_def iov_total_def)
    show ?thesis
    proof (cases "sz = 0")
      case True
      then have z: "iov_len iov = 0" using go by (auto simp: sz_def split: if_splits)
      then have ne: "iovs \<noteq> []" using go tot by (auto simp: iov_total_def)
      have "uio_ok (u\<lparr>uio_iov := iovs\<rparr>)" using tot z by (simp add: uio_ok_def)
      from 1(1) [OF go iov sz_def True ne this] show ?thesis
        using go iov True ne by (subst uiomove_loop.simps) (simp add: sz_def [symmetric] Let_def)
    next
      case False
      let ?u = "u\<lparr>uio_iov := \<lparr>iov_base = iov_base iov + sz, iov_len = iov_len iov - sz\<rparr> # iovs,
          uio_resid := usub32 (uio_resid u) sz, uio_offset := uio_offset u + int sz\<rparr>"
      have sz: "sz \<le> n" "sz \<le> iov_len iov" by (simp_all add: sz_def)
      have resid: "usub32 (uio_resid u) sz = uio_resid u - sz"
        using tot sz by simp
      have ok: "uio_ok ?u" using tot sz by (simp add: uio_ok_def iov_total_def resid)
      have step: "uiomove_loop ptr n got u m =
          (case uio_xfer u (iov_base iov) sz ptr m of
             (Inl e, m) \<Rightarrow> Some (Inl e, got, u, m)
           | (Inr bs, m) \<Rightarrow> uiomove_loop (drop sz ptr) (n - sz) (got @ bs) ?u m)"
        using go iov False by (subst uiomove_loop.simps) (simp add: sz_def [symmetric] Let_def)
      obtain x m1 where x: "uio_xfer u (iov_base iov) sz ptr m = (x, m1)" by fastforce
      show ?thesis
      proof (cases x)
        case (Inl e)
        then show ?thesis using step x uio_xfer_errno [of u _ sz ptr m e m1] 1(3) by simp
      next
        case (Inr bs)
        from 1(2) [OF go iov sz_def False x [symmetric] Inr ok] step x Inr sz tot show ?thesis
          by (auto simp: resid min_def)
      qed
    qed
  qed
qed

lemma uiomove_bookkeeping_aux:
  assumes "uio_ok u"
    and "if uio_segflg u = UIO_SYSSPACE then uio_space u = None else uio_space u = curas"
  shows "\<exists>r got u' m'. uiomove curas ptr n u m = Some (r, got, u', m') \<and> uio_ok u' \<and>
     uio_resid u' \<le> uio_resid u \<and> uio_resid u - uio_resid u' \<le> n \<and>
     uio_offset u' = uio_offset u + int (uio_resid u - uio_resid u') \<and>
     uio_segflg u' = uio_segflg u \<and> uio_dir u' = uio_dir u \<and> uio_space u' = uio_space u \<and>
     (r = Inl EFAULT \<or> r = Inr () \<and> uio_resid u - uio_resid u' = min n (uio_resid u))"
  using uiomove_loop_bookkeeping [OF assms(1), of ptr n "[]" m] assms(2)
  by (simp add: uiomove_def)

lemma copyout_write:
  assumes "p < 2 ^ 32" "len < 2 ^ 32" "length src = len"
    and "copyout src p len um = (Inr u, um')"
  shows "um' = um_write um p src" "0 < len" "p + len \<le> USERSPACETOP"
  by (cases rule: copyout_cases [OF assms(1-3), of um]; use assms(4) in simp)+

lemma map_um_write [simp]: "map (um_val (um_write um p bs)) [p..<p + length bs] = bs"
  by (rule nth_equalityI) (simp_all add: um_write_def)

section \<open>Properties\<close>


definition str_umem :: umem where
  "str_umem = \<lparr>um_val = (\<lambda>a. if a = 18 then 0 else 65), um_load = (\<lambda>a. a < 4096),
     um_store = (\<lambda>a. a < 4096)\<rparr>"


text \<open>C13. A block that \<^verbatim>\<open>copyout\<close> accepts lies in user space, is stored there without touching any
  other byte, and comes back unchanged from \<^verbatim>\<open>copyin\<close> when it can be read.\<close>

theorem copyout_copyin_roundtrip:
  assumes "p < 2 ^ 32" "length bs < 2 ^ 32"
    and "copyout bs p (length bs) um = (Inr (), um')"
    and "\<forall>i < length bs. um_load um (p + i)"
  shows "copyin p (length bs) um' = Inr bs \<and> p + length bs \<le> USERSPACETOP \<and>
     (\<forall>a. a < p \<or> p + length bs \<le> a \<longrightarrow> um_val um' a = um_val um a)"
proof -
  note w = copyout_write [OF assms(1,2) refl assms(3)]
  have "copyin p (length bs) um' = Inr bs"
    using w assms(4) by (simp add: copyin_eq [OF assms(1,2)])
  moreover have "\<forall>a. a < p \<or> p + length bs \<le> a \<longrightarrow> um_val um' a = um_val um a"
    using w(1) by (simp add: um_write_def)
  ultimately show ?thesis using w(3) by blast
qed

theorem copyout_copyin_roundtrip_witness:
  "copyin 8 2 (snd (copyout [1, 2] 8 2 str_umem)) = Inr [1, 2]"
proof -
  have "copyout [1, 2] 8 (length [1, 2 :: 8 word]) str_umem
      = (Inr (), snd (copyout [1, 2] 8 2 str_umem))"
    by (simp add: copyout_def copycheck_def USERSPACETOP_def str_umem_def u32_def)
  from copyout_copyin_roundtrip [OF _ _ this]
  have "copyin 8 (length [1, 2 :: 8 word]) (snd (copyout [1, 2] 8 2 str_umem)) = Inr [1, 2]"
    by (simp add: str_umem_def)
  then show ?thesis by (simp add: numeral_2_eq_2)
qed

text \<open>C14. \<^verbatim>\<open>uiomove\<close> on a uio whose residue is the total of its buffers always returns, keeps that
  invariant, moves offset and residue by the same amount, and when it succeeds that amount is the
  smaller of the request and the residue; the only error is \<^verbatim>\<open>EFAULT\<close>.\<close>

theorem uiomove_bookkeeping:
  assumes "uio_ok u"
    and "if uio_segflg u = UIO_SYSSPACE then uio_space u = None else uio_space u = curas"
  shows "\<exists>r got u' m'. uiomove curas ptr n u m = Some (r, got, u', m') \<and> uio_ok u' \<and>
     uio_resid u' \<le> uio_resid u \<and>
     uio_offset u' = uio_offset u + int (uio_resid u - uio_resid u') \<and>
     uio_resid u - uio_resid u' \<le> n \<and>
     (r = Inl EFAULT \<or> r = Inr () \<and> uio_resid u - uio_resid u' = min n (uio_resid u))"
  using uiomove_bookkeeping_aux [OF assms, of ptr n m] by blast

theorem uiomove_bookkeeping_witness:
  "\<exists>r got u' m'. uiomove (Some 1) [7, 8, 9] 3 (uio_uinit 100 2 0 UIO_READ (Some 1))
       \<lparr>km_user = str_umem, km_kern = (\<lambda>_. 0)\<rparr> = Some (r, got, u', m') \<and> uio_ok u' \<and>
     (r = Inl EFAULT \<or> r = Inr () \<and> uio_resid u' = 0)"
proof -
  let ?u = "uio_uinit 100 2 0 UIO_READ (Some 1)"
  have "uio_ok ?u" "if uio_segflg ?u = UIO_SYSSPACE then uio_space ?u = None
      else uio_space ?u = Some 1" "uio_resid ?u = 2"
    by (simp_all add: uio_ok_def uio_uinit_def iov_total_def)
  from uiomove_bookkeeping [OF this(1,2), of "[7, 8, 9]" 3 "\<lparr>km_user = str_umem, km_kern = (\<lambda>_. 0)\<rparr>"]
    this(3) show ?thesis by fastforce
qed

end
