(* ===== verification/Libc_String.thy ===== *)
theory Libc_String
  imports Kern_Prelude
begin

text \<open>
  The memory and string routines shared by the kernel and the user-level C library
  (\<^verbatim>\<open>common/libc/string\<close>, \<^verbatim>\<open>common/libc/stdlib/atoi.c\<close> and \<^verbatim>\<open>memcmp\<close> of the user library).

  Memory is a function from addresses to bytes, so that source and destination may overlap and
  a pointer is an address.  The address arithmetic does not wrap: a block that goes past the
  top of memory is outside the model, as the comment in \<^verbatim>\<open>memmove.c\<close> says of the code.  A loop
  that looks for a terminating zero byte is a partial function: without one it has no result.
\<close>

section \<open>Blocks of memory\<close>

type_synonym 'b mem = "nat \<Rightarrow> 'b"

definition SIZEOF_LONG :: nat where "SIZEOF_LONG = 4"

text \<open>
  One assignment \<open>d[i] = s[i]\<close> for elements of \<open>w\<close> bytes: all bytes are read before any is
  written.
\<close>

definition copy_elem :: "nat \<Rightarrow> nat \<Rightarrow> nat \<Rightarrow> 'b mem \<Rightarrow> 'b mem" where
  "copy_elem w d s m = (\<lambda>a. if d \<le> a \<and> a < d + w then m (s + (a - d)) else m a)"

definition set_elem :: "nat \<Rightarrow> nat \<Rightarrow> 'b \<Rightarrow> 'b mem \<Rightarrow> 'b mem" where
  "set_elem w d c m = (\<lambda>a. if d \<le> a \<and> a < d + w then c else m a)"

text \<open>The loops \<open>for (i=0; i<n; i++)\<close> and \<open>for (i=n; i>0; i--)\<close> with the element \<open>i\<close> or \<open>i-1\<close>.\<close>

primrec for_up :: "nat \<Rightarrow> (nat \<Rightarrow> 's \<Rightarrow> 's) \<Rightarrow> 's \<Rightarrow> 's" where
  "for_up 0 f s = s"
| "for_up (Suc n) f s = f n (for_up n f s)"

primrec for_down :: "nat \<Rightarrow> (nat \<Rightarrow> 's \<Rightarrow> 's) \<Rightarrow> 's \<Rightarrow> 's" where
  "for_down 0 f s = s"
| "for_down (Suc n) f s = for_down n f (f n s)"

definition word_aligned :: "nat \<Rightarrow> bool" where
  "word_aligned n \<longleftrightarrow> n mod SIZEOF_LONG = 0"

definition memcpy :: "nat \<Rightarrow> nat \<Rightarrow> nat \<Rightarrow> 'b mem \<Rightarrow> 'b mem" where
  "memcpy dst src len m =
     (if word_aligned dst \<and> word_aligned src \<and> word_aligned len
      then for_up (len div SIZEOF_LONG)
             (\<lambda>i. copy_elem SIZEOF_LONG (dst + i * SIZEOF_LONG) (src + i * SIZEOF_LONG)) m
      else for_up len (\<lambda>i. copy_elem 1 (dst + i) (src + i)) m)"

definition memmove :: "nat \<Rightarrow> nat \<Rightarrow> nat \<Rightarrow> 'b mem \<Rightarrow> 'b mem" where
  "memmove dst src len m =
     (if dst < src then memcpy dst src len m
      else if word_aligned dst \<and> word_aligned src \<and> word_aligned len
      then for_down (len div SIZEOF_LONG)
             (\<lambda>i. copy_elem SIZEOF_LONG (dst + i * SIZEOF_LONG) (src + i * SIZEOF_LONG)) m
      else for_down len (\<lambda>i. copy_elem 1 (dst + i) (src + i)) m)"

definition memset :: "nat \<Rightarrow> 'b \<Rightarrow> nat \<Rightarrow> 'b mem \<Rightarrow> 'b mem" where
  "memset ptr ch len m = for_up len (\<lambda>i. set_elem 1 (ptr + i) ch) m"

definition bzero :: "nat \<Rightarrow> nat \<Rightarrow> ('b::zero) mem \<Rightarrow> 'b mem" where
  "bzero block len m =
     (if word_aligned block \<and> word_aligned len
      then for_up (len div SIZEOF_LONG) (\<lambda>i. set_elem SIZEOF_LONG (block + i * SIZEOF_LONG) 0) m
      else for_up len (\<lambda>i. set_elem 1 (block + i) 0) m)"

text \<open>\<^verbatim>\<open>memcmp\<close> on unsigned bytes: the difference of the first pair that differs.\<close>

function memcmp_loop :: "nat mem \<Rightarrow> nat \<Rightarrow> nat \<Rightarrow> nat \<Rightarrow> nat \<Rightarrow> int" where
  "memcmp_loop m a b len i =
     (if i < len
      then if m (a + i) \<noteq> m (b + i) then int (m (a + i)) - int (m (b + i))
           else memcmp_loop m a b len (i + 1)
      else 0)"
  by pat_completeness auto
termination by (relation "measure (\<lambda>(_, _, _, len, i). len - i)") auto

declare memcmp_loop.simps [simp del]

definition memcmp :: "nat mem \<Rightarrow> nat \<Rightarrow> nat \<Rightarrow> nat \<Rightarrow> int" where
  "memcmp m a b len = memcmp_loop m a b len 0"

subsection \<open>What the loops leave behind\<close>

lemma for_up_copy:
  assumes "d \<le> s \<or> s + n * w \<le> d"
  shows "for_up n (\<lambda>i. copy_elem w (d + i * w) (s + i * w)) m
     = (\<lambda>a. if d \<le> a \<and> a < d + n * w then m (s + (a - d)) else m a)"
  using assms
proof (induction n)
  case 0
  then show ?case by (auto simp: fun_eq_iff)
next
  case (Suc n)
  then have "d \<le> s \<or> s + n * w \<le> d" by auto
  note IH = Suc.IH [OF this]
  have low: "s + n * w + k < d \<or> d + n * w \<le> s + n * w + k" if "k < w" for k
    using Suc.prems that by auto
  show ?case unfolding for_up.simps(2) IH
  proof (rule ext)
    fix a
    show "copy_elem w (d + n * w) (s + n * w)
        (\<lambda>a. if d \<le> a \<and> a < d + n * w then m (s + (a - d)) else m a) a
      = (if d \<le> a \<and> a < d + Suc n * w then m (s + (a - d)) else m a)"
    proof (cases "d + n * w \<le> a \<and> a < d + n * w + w")
      case True
      then obtain k where k: "a = d + n * w + k" "k < w"
        by (metis add_less_cancel_left le_Suc_ex)
      with low [OF k(2)] show ?thesis by (auto simp: copy_elem_def ac_simps)
    next
      case False
      then show ?thesis by (auto simp: copy_elem_def)
    qed
  qed
qed

lemma for_down_copy:
  assumes "s \<le> d"
  shows "for_down n (\<lambda>i. copy_elem w (d + i * w) (s + i * w)) m
     = (\<lambda>a. if d \<le> a \<and> a < d + n * w then m (s + (a - d)) else m a)"
proof (induction n arbitrary: m)
  case 0
  then show ?case by (auto simp: fun_eq_iff)
next
  case (Suc n)
  show ?case unfolding for_down.simps(2) Suc.IH
    using assms by (auto simp: copy_elem_def fun_eq_iff)
qed

lemma for_up_set:
  "for_up n (\<lambda>i. set_elem w (d + i * w) c) m
     = (\<lambda>a. if d \<le> a \<and> a < d + n * w then c else m a)"
  by (induction n) (auto simp: set_elem_def fun_eq_iff)

lemmas for_bytes = for_up_copy [where w = 1, simplified] for_down_copy [where w = 1, simplified]
  for_up_set [where w = 1, simplified]

lemma aligned_div: "word_aligned len \<Longrightarrow> len div SIZEOF_LONG * SIZEOF_LONG = len"
  by (auto simp: word_aligned_def)

lemma memcpy_block:
  assumes "dst \<le> src \<or> src + len \<le> dst"
  shows "memcpy dst src len m
     = (\<lambda>a. if dst \<le> a \<and> a < dst + len then m (src + (a - dst)) else m a)"
proof (cases "word_aligned dst \<and> word_aligned src \<and> word_aligned len")
  case True
  then show ?thesis using assms
    by (simp add: memcpy_def aligned_div
        for_up_copy [of dst src "len div SIZEOF_LONG" SIZEOF_LONG m])
next
  case False
  then show ?thesis using assms unfolding memcpy_def if_not_P [OF False] by (simp add: for_bytes)
qed

lemma memcmp_loop_zero:
  "memcmp_loop m a b len i = 0 \<longleftrightarrow> (\<forall>j. i \<le> j \<and> j < len \<longrightarrow> m (a + j) = m (b + j))"
proof (induction m a b len i rule: memcmp_loop.induct)
  case (1 m a b len i)
  show ?case
  proof (cases "i < len \<and> m (a + i) = m (b + i)")
    case True
    then have step: "memcmp_loop m a b len i = memcmp_loop m a b len (i + 1)"
      by (subst memcmp_loop.simps) simp
    have *: "i \<le> j \<longleftrightarrow> j = i \<or> i + 1 \<le> j" for j by auto
    have "(\<forall>j. i \<le> j \<and> j < len \<longrightarrow> m (a + j) = m (b + j))
        \<longleftrightarrow> (\<forall>j. i + 1 \<le> j \<and> j < len \<longrightarrow> m (a + j) = m (b + j))"
      using True unfolding * by blast
    with "1.IH" True show ?thesis unfolding step by simp
  next
    case False
    then show ?thesis by (subst memcmp_loop.simps) auto
  qed
qed

section \<open>Strings\<close>

text \<open>The terminating zero byte, and the value of a byte as an \<^verbatim>\<open>unsigned char\<close>.\<close>

definition NUL :: char where "NUL = CHR 0x00"

abbreviation uchar :: "char \<Rightarrow> nat" where "uchar \<equiv> of_char"

partial_function (option) strlen_loop :: "char mem \<Rightarrow> nat \<Rightarrow> nat \<Rightarrow> nat option" where
  "strlen_loop m str ret = (if m (str + ret) \<noteq> NUL then strlen_loop m str (ret + 1) else Some ret)"

definition strlen :: "char mem \<Rightarrow> nat \<Rightarrow> nat option" where
  "strlen m str = strlen_loop m str 0"

partial_function (option) strcpy_loop :: "nat \<Rightarrow> nat \<Rightarrow> nat \<Rightarrow> char mem \<Rightarrow> char mem option" where
  "strcpy_loop dest src i m =
     (if m (src + i) \<noteq> NUL then strcpy_loop dest src (i + 1) (m(dest + i := m (src + i)))
      else Some (m(dest + i := NUL)))"

definition strcpy :: "nat \<Rightarrow> nat \<Rightarrow> char mem \<Rightarrow> char mem option" where
  "strcpy dest src m = strcpy_loop dest src 0 m"

definition strcat :: "nat \<Rightarrow> nat \<Rightarrow> char mem \<Rightarrow> char mem option" where
  "strcat dest src m = do { offset \<leftarrow> strlen m dest; strcpy (dest + offset) src m }"

text \<open>\<open>Some None\<close> is a returned null pointer.\<close>

partial_function (option) strchr :: "char mem \<Rightarrow> nat \<Rightarrow> char \<Rightarrow> nat option option" where
  "strchr m s ch =
     (if m s \<noteq> NUL then if m s = ch then Some (Some s) else strchr m (s + 1) ch
      else if m s = ch then Some (Some s) else Some None)"

fun strrchr_loop :: "char mem \<Rightarrow> nat \<Rightarrow> char \<Rightarrow> nat \<Rightarrow> nat option" where
  "strrchr_loop m s ch 0 = None"
| "strrchr_loop m s ch (Suc i) = (if m (s + i) = ch then Some (s + i) else strrchr_loop m s ch i)"

definition strrchr :: "char mem \<Rightarrow> nat \<Rightarrow> char \<Rightarrow> nat option option" where
  "strrchr m s ch = do { n \<leftarrow> strlen m s; Some (strrchr_loop m s ch (n + 1)) }"

partial_function (option) strcmp_loop :: "char mem \<Rightarrow> nat \<Rightarrow> nat \<Rightarrow> nat \<Rightarrow> int option" where
  "strcmp_loop m a b i =
     (if m (a + i) \<noteq> NUL \<and> m (a + i) = m (b + i) then strcmp_loop m a b (i + 1)
      else if uchar (m (b + i)) < uchar (m (a + i)) then Some 1
      else if m (a + i) = m (b + i) then Some 0 else Some (- 1))"

definition strcmp :: "char mem \<Rightarrow> nat \<Rightarrow> nat \<Rightarrow> int option" where
  "strcmp m a b = strcmp_loop m a b 0"

text \<open>
  \<^verbatim>\<open>strtok_r\<close>.  The context and the result may be null pointers.
\<close>

definition is_sep :: "char mem \<Rightarrow> nat \<Rightarrow> char \<Rightarrow> bool option" where
  "is_sep m seps c = do { r \<leftarrow> strchr m seps c; Some (r \<noteq> None) }"

partial_function (option) strtok_skip :: "char mem \<Rightarrow> nat \<Rightarrow> bool \<Rightarrow> nat \<Rightarrow> nat option" where
  "strtok_skip m seps want p =
     (if m p \<noteq> NUL
      then do { b \<leftarrow> is_sep m seps (m p);
                if b = want then strtok_skip m seps want (p + 1) else Some p }
      else Some p)"

definition strtok_r ::
    "nat option \<Rightarrow> nat \<Rightarrow> nat option \<Rightarrow> char mem \<Rightarrow> (nat option \<times> nat option \<times> char mem) option" where
  "strtok_r string seps context m =
     (let context = (case string of None \<Rightarrow> context | Some p \<Rightarrow> Some p)
      in case context of
           None \<Rightarrow> Some (None, None, m)
         | Some head \<Rightarrow>
             do { head \<leftarrow> strtok_skip m seps True head;
                  if m head = NUL then Some (None, None, m)
                  else do { tail \<leftarrow> strtok_skip m seps False head;
                            if m tail = NUL then Some (Some head, None, m)
                            else Some (Some head, Some (tail + 1), m(tail := NUL)) } })"

text \<open>\<^verbatim>\<open>atoi\<close>: \<open>val\<close> is accumulated in an \<^verbatim>\<open>unsigned\<close>, and converted to \<^verbatim>\<open>int\<close> at the end.\<close>

partial_function (option) atoi_space :: "char mem \<Rightarrow> nat \<Rightarrow> nat option" where
  "atoi_space m s =
     (if m s = CHR '' '' \<or> m s = CHR 0x09 then atoi_space m (s + 1) else Some s)"

text \<open>The position of a character in the string constant \<^verbatim>\<open>digits\<close>, by \<^verbatim>\<open>strchr\<close>.\<close>

primrec index_of :: "char \<Rightarrow> string \<Rightarrow> nat option" where
  "index_of c [] = None"
| "index_of c (d # ds) = (if d = c then Some 0 else map_option Suc (index_of c ds))"

definition atoi_chars :: string where "atoi_chars = ''0123456789''"

partial_function (option) atoi_digits :: "char mem \<Rightarrow> nat \<Rightarrow> 32 word \<Rightarrow> 32 word option" where
  "atoi_digits m s v =
     (if m s \<noteq> NUL
      then case index_of (m s) atoi_chars of
             None \<Rightarrow> Some v
           | Some digit \<Rightarrow> atoi_digits m (s + 1) (v * 10 + of_nat digit)
      else Some v)"

definition atoi :: "char mem \<Rightarrow> nat \<Rightarrow> int option" where
  "atoi m s =
     do { s \<leftarrow> atoi_space m s;
          let neg = (m s = CHR ''-'');
          let s = (if m s = CHR ''-'' then s + 1 else if m s = CHR ''+'' then s + 1 else s);
          v \<leftarrow> atoi_digits m s 0;
          Some (sint (if neg then - v else v)) }"

subsection \<open>Strings in memory\<close>

text \<open>The bytes of \<open>s\<close>, none of them zero, are at \<open>p\<close> and a zero byte follows.\<close>

definition cstr :: "char mem \<Rightarrow> nat \<Rightarrow> string \<Rightarrow> bool" where
  "cstr m p s \<longleftrightarrow> (\<forall>i < length s. m (p + i) = s ! i \<and> s ! i \<noteq> NUL) \<and> m (p + length s) = NUL"

lemma cstr_Nil [simp]: "cstr m p [] \<longleftrightarrow> m p = NUL"
  by (simp add: cstr_def)

lemma cstr_Cons [simp]: "cstr m p (c # s) \<longleftrightarrow> m p = c \<and> c \<noteq> NUL \<and> cstr m (Suc p) s"
  by (auto simp: cstr_def less_Suc_eq_0_disj)

lemma cstr_append: "cstr m p (s @ t) \<longleftrightarrow>
    (\<forall>i < length s. m (p + i) = s ! i \<and> s ! i \<noteq> NUL) \<and> cstr m (p + length s) t"
  by (induction s arbitrary: p) (auto simp: less_Suc_eq_0_disj)

lemma cstr_unique: "cstr m p s \<Longrightarrow> cstr m p t \<Longrightarrow> s = t"
proof (induction s arbitrary: p t)
  case Nil
  then show ?case by (cases t) auto
next
  case (Cons c s)
  then show ?case by (cases t) auto
qed

lemma cstr_cong: "(\<And>i. i \<le> length s \<Longrightarrow> m' (p + i) = m (p + i)) \<Longrightarrow> cstr m' p s = cstr m p s"
  by (simp add: cstr_def)

lemma strlen_loop_cstr: "cstr m (str + i) s \<Longrightarrow> strlen_loop m str i = Some (i + length s)"
proof (induction s arbitrary: i)
  case Nil
  then show ?case by (subst strlen_loop.simps) simp
next
  case (Cons c s)
  then show ?case using Cons.IH [of "i + 1"] by (subst strlen_loop.simps) simp
qed

lemma strlen_cstr [simp]: "cstr m p s \<Longrightarrow> strlen m p = Some (length s)"
  using strlen_loop_cstr [of m p 0 s] by (simp add: strlen_def)

text \<open>Writing a string and its terminator at an address.\<close>

definition put_str :: "nat \<Rightarrow> string \<Rightarrow> char mem \<Rightarrow> char mem" where
  "put_str p s m = (\<lambda>a. if p \<le> a \<and> a < p + length s then s ! (a - p)
      else if a = p + length s then NUL else m a)"

lemma put_str_Cons: "put_str (Suc p) s (m(p := c)) = put_str p (c # s) m"
  by (auto simp: put_str_def fun_eq_iff nth_Cons')

lemma strcpy_loop_put:
  assumes "cstr m (src + i) s" and "src + i + length s < dest + i \<or> dest \<le> src"
  shows "strcpy_loop dest src i m = Some (put_str (dest + i) s m)"
  using assms
proof (induction s arbitrary: i m)
  case Nil
  then show ?case by (subst strcpy_loop.simps) (auto simp: put_str_def fun_eq_iff)
next
  case (Cons c s)
  let ?m = "m(dest + i := c)"
  have "cstr ?m (src + (i + 1)) s"
    using Cons.prems by (subst cstr_cong [where m = m]) auto
  then have "strcpy_loop dest src (i + 1) ?m = Some (put_str (dest + (i + 1)) s ?m)"
    by (rule Cons.IH) (use Cons.prems(2) in auto)
  then show ?case using Cons.prems(1) put_str_Cons [of "dest + i" s m c]
    by (subst strcpy_loop.simps) simp
qed

lemma strcpy_put:
  "cstr m src s \<Longrightarrow> src + length s < dest \<or> dest \<le> src \<Longrightarrow> strcpy dest src m = Some (put_str dest s m)"
  using strcpy_loop_put [of m src 0 s dest] by (simp add: strcpy_def)

lemma put_str_cstr: "NUL \<notin> set s \<Longrightarrow> cstr (put_str p s m) p s"
  by (auto simp: cstr_def put_str_def) (metis nth_mem)

lemma cstr_no_NUL: "cstr m p s \<Longrightarrow> NUL \<notin> set s"
  by (auto simp: cstr_def in_set_conv_nth)

lemma strchr_cstr:
  assumes "cstr m p s" "c \<noteq> NUL"
  shows "strchr m p c = Some (map_option (\<lambda>i. p + i) (index_of c s))"
  using assms
proof (induction s arbitrary: p)
  case Nil
  then show ?case by (subst strchr.simps) auto
next
  case (Cons d s)
  have "(\<lambda>i. p + i) \<circ> Suc = (\<lambda>i. Suc (p + i))" by auto
  then show ?case using Cons.prems Cons.IH [of "p + 1"]
    by (subst strchr.simps) (auto simp: option.map_comp)
qed

lemma index_of_None [simp]: "index_of c s = None \<longleftrightarrow> c \<notin> set s"
  by (induction s) auto

lemma is_sep_cstr: "cstr m seps t \<Longrightarrow> c \<noteq> NUL \<Longrightarrow> is_sep m seps c = Some (c \<in> set t)"
  by (simp add: is_sep_def strchr_cstr del: not_None_eq)

lemma strtok_skip_cstr:
  assumes "cstr m seps t" "cstr m p s"
  shows "strtok_skip m seps want p
     = Some (p + length (takeWhile (\<lambda>c. (c \<in> set t) = want) s))"
  using assms(2)
proof (induction s arbitrary: p)
  case Nil
  then show ?case by (subst strtok_skip.simps) auto
next
  case (Cons c s)
  then show ?case using is_sep_cstr [OF assms(1), of c] Cons.IH [of "p + 1"]
    by (subst strtok_skip.simps) auto
qed

lemma uchar_NUL [simp]: "uchar NUL = 0"
  by (simp add: NUL_def)

lemma uchar_eq_0 [simp]: "uchar c = 0 \<longleftrightarrow> c = NUL"
  by (metis of_char_eq_iff uchar_NUL)

lemma strcmp_loop_cstr:
  assumes "cstr m (a + i) s" "cstr m (b + i) t"
  shows "strcmp_loop m a b i = Some (if s = t then 0
     else if (s, t) \<in> lexord {(x, y). uchar x < uchar y} then - 1 else 1)"
  using assms
proof (induction s arbitrary: i t)
  case Nil
  then show ?case
    by (subst strcmp_loop.simps) (cases t; auto)
next
  case (Cons c s)
  show ?case
  proof (cases t)
    case Nil
    then show ?thesis using Cons.prems
      by (subst strcmp_loop.simps) auto
  next
    case t: (Cons d u)
    show ?thesis
    proof (cases "c = d")
      case True
      then show ?thesis
        using t Cons.prems Cons.IH [of "i + 1" u] by (subst strcmp_loop.simps) auto
    next
      case False
      then have "uchar c \<noteq> uchar d" by simp
      then show ?thesis using t Cons.prems False
        by (subst strcmp_loop.simps) auto
    qed
  qed
qed

subsection \<open>Splitting a string into words\<close>

text \<open>The words of a string: the longest runs of characters that are not separators.\<close>

function tokens :: "('a \<Rightarrow> bool) \<Rightarrow> 'a list \<Rightarrow> 'a list list" where
  "tokens P s = (case dropWhile P s of [] \<Rightarrow> []
     | c # s' \<Rightarrow> (c # takeWhile (\<lambda>c. \<not> P c) s') # tokens P (dropWhile (\<lambda>c. \<not> P c) s'))"
  by pat_completeness auto
termination
proof (relation "measure (\<lambda>(_, s). length s)")
  fix P :: "'a \<Rightarrow> bool" and s c s'
  assume "dropWhile P s = c # s'"
  then have "Suc (length s') \<le> length s" by (metis length_Cons length_dropWhile_le)
  moreover have "length (dropWhile (\<lambda>c. \<not> P c) s') \<le> length s'" by (rule length_dropWhile_le)
  ultimately show "((P, dropWhile (\<lambda>c. \<not> P c) s'), P, s) \<in> measure (\<lambda>(_, s). length s)" by simp
qed simp

declare tokens.simps [simp del]

lemma tokens_none: "dropWhile P s = [] \<Longrightarrow> tokens P s = []"
  by (subst tokens.simps) (simp only: list.case)

lemma tokens_word: "dropWhile P s = c # s' \<Longrightarrow>
    tokens P s = (c # takeWhile (\<lambda>c. \<not> P c) s') # tokens P (dropWhile (\<lambda>c. \<not> P c) s')"
  by (subst tokens.simps) (simp only: list.case)

lemma tokens_sep: "P d \<Longrightarrow> tokens P (d # r) = tokens P r"
  by (subst (1 2) tokens.simps) simp

text \<open>All words of a string by repeated calls, as callers of \<^verbatim>\<open>strtok_r\<close> collect them.\<close>

partial_function (option) strtok_words ::
    "nat option \<Rightarrow> nat \<Rightarrow> nat option \<Rightarrow> char mem \<Rightarrow> (nat list \<times> char mem) option" where
  "strtok_words string seps context m =
     do { (w, context, m) \<leftarrow> strtok_r string seps context m;
          case w of
            None \<Rightarrow> Some ([], m)
          | Some w \<Rightarrow> do { (ws, m) \<leftarrow> strtok_words None seps context m; Some (w # ws, m) } }"

lemma strtok_r_context: "strtok_r (Some p) seps ctx m = strtok_r None seps (Some p) m"
  by (simp add: strtok_r_def)

text \<open>One call: what is at the front of the string is skipped, the word is cut off.\<close>

lemma strtok_r_cstr:
  assumes seps: "cstr m seps t" and s: "cstr m p s" and P_def: "P = (\<lambda>c. c \<in> set t)"
  obtains (none) "dropWhile P s = []" "strtok_r None seps (Some p) m = Some (None, None, m)"
  | (last) c s' h where "dropWhile P s = c # s'" "dropWhile (\<lambda>c. \<not> P c) s' = []" "p \<le> h"
      "strtok_r None seps (Some p) m = Some (Some h, None, m)" "cstr m h (c # s')"
      "h + length (c # s') = p + length s"
  | (word) c s' d r h where "dropWhile P s = c # s'" "dropWhile (\<lambda>c. \<not> P c) s' = d # r" "P d" "p \<le> h"
      "let m' = m(h + length (c # takeWhile (\<lambda>c. \<not> P c) s') := NUL);
           q = h + length (c # takeWhile (\<lambda>c. \<not> P c) s') + 1
       in strtok_r None seps (Some p) m = Some (Some h, Some q, m') \<and>
          cstr m' h (c # takeWhile (\<lambda>c. \<not> P c) s') \<and> cstr m' q r \<and> q + length r = p + length s"
proof -
  let ?h = "p + length (takeWhile P s)"
  let ?n = "length (takeWhile (\<lambda>c. \<not> P c) (dropWhile P s))"
  have split: "s = takeWhile P s @ dropWhile P s" by simp
  have skip1: "strtok_skip m seps True p = Some ?h"
    using strtok_skip_cstr [OF seps s, of True] by (simp add: P_def)
  have at: "cstr m ?h (dropWhile P s)" using s by (subst (asm) split) (simp only: cstr_append)
  have skip2: "strtok_skip m seps False ?h = Some (?h + ?n)"
    using strtok_skip_cstr [OF seps at, of False] by (simp add: P_def)
  show thesis
  proof (cases "dropWhile P s")
    case Nil
    have "m ?h = NUL" using at unfolding Nil by simp
    with Nil show ?thesis using skip1 by (intro none) (simp_all add: strtok_r_def)
  next
    case (Cons c s')
    then have c: "\<not> P c" by (metis hd_dropWhile list.discI list.sel(1))
    let ?w = "c # takeWhile (\<lambda>c. \<not> P c) s'"
    have len: "?n = length ?w" and w: "c # s' = ?w @ dropWhile (\<lambda>c. \<not> P c) s'"
      using Cons c by simp_all
    have lens: "?h + length (c # s') = p + length s"
      using arg_cong [OF split, of length] Cons by simp
    have at': "cstr m (?h + length ?w) (dropWhile (\<lambda>c. \<not> P c) s')"
      using at unfolding Cons by (subst (asm) w) (simp only: cstr_append)
    have head: "m ?h \<noteq> NUL" using at Cons by simp
    show ?thesis
    proof (cases "dropWhile (\<lambda>c. \<not> P c) s'")
      case Nil
      have "m (?h + length ?w) = NUL" using at' unfolding Nil by simp
      then have "strtok_r None seps (Some p) m = Some (Some ?h, None, m)"
        using head skip1 skip2 len by (simp add: strtok_r_def)
      with Nil Cons at lens show ?thesis by (intro last [of c s' ?h]) simp_all
    next
      case r: (Cons d r)
      then have d: "P d" by (metis hd_dropWhile list.discI list.sel(1))
      let ?m = "m(?h + length ?w := NUL)"
      have "m (?h + length ?w) \<noteq> NUL" using at' r by simp
      then have ret: "strtok_r None seps (Some p) m = Some (Some ?h, Some (?h + length ?w + 1), ?m)"
        using head skip1 skip2 len by (simp add: strtok_r_def)
      have "\<forall>i < length ?w. m (?h + i) = ?w ! i \<and> ?w ! i \<noteq> NUL"
        using at unfolding Cons by (subst (asm) w) (unfold cstr_append, erule conjunct1)
      then have tok: "cstr ?m ?h ?w" by (auto simp: cstr_def)
      have "cstr m (?h + length ?w + 1) r" using at' r by simp
      then have rest: "cstr ?m (?h + length ?w + 1) r" by (subst cstr_cong [where m = m]) auto
      have "?h + length ?w + 1 + length r = p + length s"
        using lens arg_cong [OF w, of length] r by simp
      with Cons r d ret tok rest show ?thesis by (intro word [of c s' d r ?h]) (simp_all add: Let_def)
    qed
  qed
qed

text \<open>
  Collecting all words.  Each word address lies in the string, after the previous word's end;
  the string of separators must not overlap the string that is cut.
\<close>

lemma strtok_words_none [simp]: "strtok_words None seps None m = Some ([], m)"
  by (subst strtok_words.simps) (simp add: strtok_r_def)

lemma strtok_words_cstr:
  assumes "cstr m seps t" "cstr m p s" "seps + length t < p \<or> p + length s < seps"
  shows "\<exists>ws m'. strtok_words None seps (Some p) m = Some (ws, m') \<and>
     list_all2 (cstr m') ws (tokens (\<lambda>c. c \<in> set t) s) \<and>
     (\<forall>a. a < p \<or> p + length s \<le> a \<longrightarrow> m' a = m a)"
  using assms
proof (induction "length s" arbitrary: m p s rule: less_induct)
  case less
  let ?P = "\<lambda>c. c \<in> set t"
  show ?case
  proof (cases rule: strtok_r_cstr [OF less.prems(1,2) refl, case_names none last word])
    case none
    then show ?thesis by (subst strtok_words.simps) (simp add: tokens_none)
  next
    case (last c s' h)
    from last(2) have "takeWhile (\<lambda>c. \<not> ?P c) s' = s'" by (simp add: takeWhile_eq_all_conv)
    then have "tokens ?P s = [c # s']"
      using tokens_none [of ?P "[]"] unfolding tokens_word [OF last(1)] last(2) by simp
    then show ?thesis using last(4,5) by (subst strtok_words.simps) simp
  next
    case (word c s' d r h)
    let ?w = "c # takeWhile (\<lambda>c. \<not> ?P c) s'"
    let ?e = "h + length ?w"
    let ?m = "m(?e := NUL)"
    from word(5) have call: "strtok_r None seps (Some p) m = Some (Some h, Some (?e + 1), ?m)"
      and tok: "cstr ?m h ?w" and rest: "cstr ?m (?e + 1) r"
      and len: "?e + 1 + length r = p + length s" by (simp_all add: Let_def)
    have toks: "tokens ?P s = ?w # tokens ?P r"
      unfolding tokens_word [OF word(1)] word(2) by (simp only: tokens_sep [of ?P, OF word(3)])
    have "cstr ?m seps t" using less.prems(1,3) len word(4) by (subst cstr_cong [where m = m]) auto
    then obtain ws m' where ws: "strtok_words None seps (Some (?e + 1)) ?m = Some (ws, m')"
        "list_all2 (cstr m') ws (tokens ?P r)"
        "\<forall>a. a < ?e + 1 \<or> ?e + 1 + length r \<le> a \<longrightarrow> m' a = ?m a"
      using less.hyps [of r ?m "?e + 1"] rest less.prems(3) len word(4) by auto
    have "cstr m' h ?w" using tok ws(3) by (subst cstr_cong [where m = ?m]) auto
    then have "list_all2 (cstr m') (h # ws) (tokens ?P s)" using ws(2) by (simp add: toks)
    moreover have "strtok_words None seps (Some p) m = Some (h # ws, m')"
      using call ws(1) by (subst strtok_words.simps) simp
    moreover have "\<forall>a. a < p \<or> p + length s \<le> a \<longrightarrow> m' a = m a" using ws(3) len word(4) by auto
    ultimately show ?thesis by blast
  qed
qed

section \<open>Properties\<close>

text \<open>C15. \<^verbatim>\<open>memmove\<close> leaves at the destination what was at the source before the call and changes
  nothing else, for every overlap of the two blocks and on both the word-at-a-time and the
  byte-at-a-time path, forwards through \<^verbatim>\<open>memcpy\<close> or backwards.\<close>

theorem memmove_correct:
  "memmove dst src len m
     = (\<lambda>a. if dst \<le> a \<and> a < dst + len then m (src + (a - dst)) else m a)"
proof -
  consider (up) "dst < src" | (words) "src \<le> dst" "word_aligned dst" "word_aligned src" "word_aligned len"
    | (bytes) "src \<le> dst" "\<not> (word_aligned dst \<and> word_aligned src \<and> word_aligned len)" by linarith
  then show ?thesis
  proof cases
    case up
    then show ?thesis by (simp add: memmove_def memcpy_block)
  next
    case words
    then show ?thesis
      using for_down_copy [of src dst "len div SIZEOF_LONG" SIZEOF_LONG m] aligned_div [of len]
      by (simp add: memmove_def)
  next
    case bytes
    then show ?thesis
      using for_bytes(2) [of src dst len m] unfolding memmove_def if_not_P [OF bytes(2)] by simp
  qed
qed

text \<open>C16. Calling \<^verbatim>\<open>strtok_r\<close> until it answers a null pointer returns, and the strings at the
  addresses it gave are, at the end, the maximal runs of non-separators of the original string
  in order; nothing outside the string has been written.\<close>

theorem strtok_r_splits:
  assumes "cstr m seps t" "cstr m p s" "seps + length t < p \<or> p + length s < seps"
  shows "\<exists>ws m'. strtok_words (Some p) seps ctx m = Some (ws, m') \<and>
     list_all2 (cstr m') ws (tokens (\<lambda>c. c \<in> set t) s) \<and>
     (\<forall>a. a < p \<or> p + length s \<le> a \<longrightarrow> m' a = m a)"
proof -
  have "strtok_words (Some p) seps ctx m = strtok_words None seps (Some p) m"
    by (subst (1 2) strtok_words.simps) (simp only: strtok_r_context)
  with strtok_words_cstr [OF assms] show ?thesis by simp
qed

definition cmd_mem :: "char mem" where
  "cmd_mem = put_str 0 '' '' (put_str 10 ''cat  f'' (\<lambda>_. NUL))"

theorem strtok_r_splits_witness:
  "\<exists>ws m'. strtok_words (Some 10) 0 None cmd_mem = Some (ws, m') \<and>
     list_all2 (cstr m') ws [''cat'', ''f'']"
proof -
  have mem: "cstr cmd_mem 0 '' ''" "cstr cmd_mem 10 ''cat  f''"
    by (simp_all add: cmd_mem_def put_str_def NUL_def)
  have "tokens (\<lambda>c. c \<in> set '' '') ''cat  f'' = [''cat'', ''f'']"
    by (simp add: tokens.simps)
  with strtok_r_splits [OF mem, of None] show ?thesis by auto
qed

text \<open>C17. \<^verbatim>\<open>strcmp\<close> on two strings is 0 when they are equal, and otherwise the sign of their
  lexicographic order by unsigned byte.\<close>

theorem strcmp_lexicographic:
  assumes "cstr m a s" "cstr m b t"
  shows "strcmp m a b = Some (if s = t then 0
     else if (s, t) \<in> lexord {(x, y). uchar x < uchar y} then - 1 else 1)"
  using strcmp_loop_cstr [of m a 0 s b t] assms by (simp add: strcmp_def)

theorem strcmp_lexicographic_witness: "strcmp cmd_mem 0 10 = Some (- 1)"
proof -
  have mem: "cstr cmd_mem 0 '' ''" "cstr cmd_mem 10 ''cat  f''"
    by (simp_all add: cmd_mem_def put_str_def NUL_def)
  from strcmp_lexicographic [OF mem] show ?thesis by simp
qed

end
