(* ===== verification/Libc_Printf.thy ===== *)
theory Libc_Printf
  imports Libc_String
begin

text \<open>
  Formatted printing: \<^verbatim>\<open>common/libc/printf/__printf.c\<close> and \<^verbatim>\<open>snprintf.c\<close>.

  The state of \<^verbatim>\<open>PF\<close> is a record; the callback \<^verbatim>\<open>sendfunc\<close> with its client data is a parameter
  \<open>send\<close> that maps a text and the client's state to the client's next state, \<^const>\<open>None\<close> when the
  callback steps outside its buffer.  The variable arguments are a list of typed values;
  fetching an argument of another type than the one passed has no result.  The arithmetic on
  \<^verbatim>\<open>num\<close> is that of \<^verbatim>\<open>unsigned long long\<close>, \<^verbatim>\<open>charcount\<close> is a 32-bit word, and a field width that
  overflows \<^verbatim>\<open>int\<close> has no result.
\<close>

section \<open>The state of a printf session\<close>

datatype pf_intsize = INTSZ | LONGSZ | LLONGSZ | SIZETSZ

datatype va_value = VaInt "32 word" | VaLL "64 word" | VaPtr "32 word" | VaStr "string option"

record PF =
  pf_ap :: "va_value list"
  pf_charcount :: "32 word"
  pf_in_pct :: bool
  pf_size :: pf_intsize
  pf_num :: "64 word"
  pf_sign :: bool
  pf_spacing :: nat
  pf_rightspc :: bool
  pf_fillchar :: char
  pf_base :: nat
  pf_baseprefix :: bool
  pf_altformat :: bool

definition NUMBER_BUF_SIZE :: nat where "NUMBER_BUF_SIZE = 8 * 8 div 3 + 2"

definition INT_MAX :: nat where "INT_MAX = 2 ^ 31 - 1"

text \<open>The characters a C string has: those before the first zero byte.\<close>

definition c_string :: "string \<Rightarrow> string" where
  "c_string s = takeWhile (\<lambda>c. c \<noteq> NUL) s"

definition pf_count :: "string \<Rightarrow> PF \<Rightarrow> PF" where
  "pf_count txt pf = pf\<lparr>pf_charcount := pf_charcount pf + of_nat (length txt)\<rparr>"

definition pf_print ::
    "(string \<Rightarrow> 'c \<Rightarrow> 'c option) \<Rightarrow> string \<Rightarrow> 'c \<times> PF \<Rightarrow> ('c \<times> PF) option" where
  "pf_print send txt = (\<lambda>(c, pf). do { c \<leftarrow> send txt c; Some (c, pf_count txt pf) })"

definition pf_endfield :: "PF \<Rightarrow> PF" where
  "pf_endfield pf = pf\<lparr>pf_in_pct := False, pf_size := INTSZ, pf_num := 0, pf_sign := False,
     pf_spacing := 0, pf_rightspc := False, pf_fillchar := CHR '' '', pf_base := 0,
     pf_baseprefix := False, pf_altformat := False\<rparr>"

definition pf_width :: "nat \<Rightarrow> PF \<Rightarrow> PF option" where
  "pf_width w pf = (if w \<le> INT_MAX then Some (pf\<lparr>pf_spacing := w\<rparr>) else None)"

definition pf_modifier :: "char \<Rightarrow> PF \<Rightarrow> PF option" where
  "pf_modifier ch pf =
     (if ch = CHR ''#'' then Some (pf\<lparr>pf_altformat := True\<rparr>)
      else if ch = CHR ''-'' then Some (pf\<lparr>pf_rightspc := True\<rparr>)
      else if ch = CHR ''l''
      then Some (pf\<lparr>pf_size := (if pf_size pf = LONGSZ then LLONGSZ else LONGSZ)\<rparr>)
      else if ch = CHR ''z'' then Some (pf\<lparr>pf_size := SIZETSZ\<rparr>)
      else if ch = CHR ''0''
      then if 0 < pf_spacing pf then pf_width (pf_spacing pf * 10) pf
           else Some (pf\<lparr>pf_fillchar := CHR ''0''\<rparr>)
      else do { kassert (uchar (CHR ''0'') < uchar ch \<and> uchar ch \<le> uchar (CHR ''9''));
                pf_width (pf_spacing pf * 10 + (uchar ch - uchar (CHR ''0''))) pf })"

text \<open>The next argument, as the types that the size asks for; \<^verbatim>\<open>long\<close> and \<^verbatim>\<open>size_t\<close> are 32 bits.\<close>

fun va_signed :: "pf_intsize \<Rightarrow> va_value list \<Rightarrow> (64 word \<times> va_value list) option" where
  "va_signed LLONGSZ (VaLL w # ap) = Some (w, ap)"
| "va_signed LLONGSZ _ = None"
| "va_signed _ (VaInt w # ap) = Some (scast w, ap)"
| "va_signed _ _ = None"

fun va_unsigned :: "pf_intsize \<Rightarrow> va_value list \<Rightarrow> (64 word \<times> va_value list) option" where
  "va_unsigned LLONGSZ (VaLL w # ap) = Some (w, ap)"
| "va_unsigned LLONGSZ _ = None"
| "va_unsigned _ (VaInt w # ap) = Some (ucast w, ap)"
| "va_unsigned _ _ = None"

fun va_pointer :: "va_value list \<Rightarrow> (64 word \<times> va_value list) option" where
  "va_pointer (VaPtr w # ap) = Some (ucast w, ap)"
| "va_pointer _ = None"

fun va_string :: "va_value list \<Rightarrow> (string option \<times> va_value list) option" where
  "va_string (VaStr s # ap) = Some (s, ap)"
| "va_string _ = None"

fun va_char :: "va_value list \<Rightarrow> (char \<times> va_value list) option" where
  "va_char (VaInt w # ap) = Some (char_of (unat w), ap)"
| "va_char _ = None"

definition pf_getnum :: "char \<Rightarrow> PF \<Rightarrow> PF option" where
  "pf_getnum ch pf =
     (if ch = CHR ''p''
      then do { (n, ap) \<leftarrow> va_pointer (pf_ap pf); Some (pf\<lparr>pf_num := n, pf_ap := ap\<rparr>) }
      else if ch = CHR ''d''
      then do { (signednum, ap) \<leftarrow> va_signed (pf_size pf) (pf_ap pf);
                Some (if sint signednum < 0
                      then pf\<lparr>pf_sign := True, pf_num := - signednum, pf_ap := ap\<rparr>
                      else pf\<lparr>pf_num := signednum, pf_ap := ap\<rparr>) }
      else do { (n, ap) \<leftarrow> va_unsigned (pf_size pf) (pf_ap pf);
                Some (pf\<lparr>pf_num := n, pf_ap := ap\<rparr>) })"

definition pf_setbase :: "char \<Rightarrow> PF \<Rightarrow> PF" where
  "pf_setbase ch pf =
     (let pf = (if ch = CHR ''d'' \<or> ch = CHR ''u'' then pf\<lparr>pf_base := 10\<rparr>
                else if ch = CHR ''x'' \<or> ch = CHR ''p'' then pf\<lparr>pf_base := 16\<rparr>
                else if ch = CHR ''o'' then pf\<lparr>pf_base := 8\<rparr> else pf)
      in if pf_altformat pf \<or> ch = CHR ''p'' then pf\<lparr>pf_baseprefix := True\<rparr> else pf)"

primrec pf_fill ::
    "(string \<Rightarrow> 'c \<Rightarrow> 'c option) \<Rightarrow> nat \<Rightarrow> 'c \<times> PF \<Rightarrow> ('c \<times> PF) option" where
  "pf_fill send 0 st = Some st"
| "pf_fill send (Suc n) st =
     do { st \<leftarrow> pf_print send [pf_fillchar (snd st)] st; pf_fill send n st }"

definition pf_printstuff ::
    "(string \<Rightarrow> 'c \<Rightarrow> 'c option) \<Rightarrow> string \<Rightarrow> string \<Rightarrow> string \<Rightarrow> 'c \<times> PF \<Rightarrow> ('c \<times> PF) option" where
  "pf_printstuff send prefix prefix2 stuff st =
     (let pf = snd st;
          len = length prefix + length prefix2 + length stuff;
          spc = (if len < pf_spacing pf then pf_spacing pf - len else 0)
      in do { st \<leftarrow> (if 0 < spc \<and> \<not> pf_rightspc pf \<and> pf_fillchar pf \<noteq> CHR ''0''
                     then pf_fill send spc st else Some st);
              st \<leftarrow> pf_print send prefix st;
              st \<leftarrow> pf_print send prefix2 st;
              st \<leftarrow> (if 0 < spc \<and> \<not> pf_rightspc pf \<and> pf_fillchar pf = CHR ''0''
                     then pf_fill send spc st else Some st);
              st \<leftarrow> pf_print send stuff st;
              (if 0 < spc \<and> pf_rightspc pf then pf_fill send spc st else Some st) })"

text \<open>
  The digits, written from right to left into a buffer; \<open>x\<close> is the index of the next slot.  A base
  below 2 would divide by zero or not end, and does not occur.
\<close>

function printnum_loop :: "nat \<Rightarrow> nat \<Rightarrow> int \<Rightarrow> char list \<Rightarrow> (int \<times> char list) option" where
  "printnum_loop base xnum x buf =
     (if base < 2 then None
      else do { kassert (0 \<le> x);
                d \<leftarrow> cread ''0123456789abcdef'' (xnum mod base);
                buf \<leftarrow> cwrite buf (nat x) d;
                (if 0 < xnum div base then printnum_loop base (xnum div base) (x - 1) buf
                 else Some (x - 1, buf)) })"
  by pat_completeness auto
termination
  by (relation "measure (\<lambda>(base, xnum, _, _). xnum)") (auto intro!: div_less_dividend gr0I)

declare printnum_loop.simps [simp del]

text \<open>The string of digits \<^verbatim>\<open>__pf_printnum\<close> builds in its local buffer, from \<open>x\<close> to the terminator.\<close>

definition pf_numstr :: "char list \<Rightarrow> PF \<Rightarrow> string option" where
  "pf_numstr buf pf =
     do { buf \<leftarrow> cwrite buf (NUMBER_BUF_SIZE - 1) NUL;
          (x, buf) \<leftarrow> printnum_loop (pf_base pf) (unat (pf_num pf)) (int NUMBER_BUF_SIZE - 2) buf;
          Some (c_string (drop (nat (x + 1)) buf)) }"

definition pf_printnum ::
    "(string \<Rightarrow> 'c \<Rightarrow> 'c option) \<Rightarrow> char list \<Rightarrow> 'c \<times> PF \<Rightarrow> ('c \<times> PF) option" where
  "pf_printnum send buf st =
     (let pf = snd st in
      do { x \<leftarrow> pf_numstr buf pf;
           let bprefix = (if pf_baseprefix pf \<and> pf_base pf = 16 then ''0x''
                          else if pf_baseprefix pf \<and> pf_base pf = 8 then ''0'' else []);
           let sprefix = (if pf_sign pf then ''-'' else []);
           pf_printstuff send sprefix bprefix x st })"

text \<open>Membership in the strings of modifier and integer type characters.\<close>

definition pf_is_modifier :: "char \<Rightarrow> bool" where
  "pf_is_modifier ch \<longleftrightarrow> ch \<in> set ''#-lz0123456789''"

definition pf_is_inttype :: "char \<Rightarrow> bool" where
  "pf_is_inttype ch \<longleftrightarrow> ch \<in> set ''doupx''"

text \<open>
  \<^verbatim>\<open>__pf_send\<close>.  The local array of \<^verbatim>\<open>__pf_printnum\<close> starts with arbitrary contents \<open>buf\<close>.
\<close>

definition pf_send ::
    "(string \<Rightarrow> 'c \<Rightarrow> 'c option) \<Rightarrow> char list \<Rightarrow> char \<Rightarrow> 'c \<times> PF \<Rightarrow> ('c \<times> PF) option" where
  "pf_send send buf ch st =
     do { kassert (ch \<noteq> NUL);
          let (c, pf) = st;
          if \<not> pf_in_pct pf \<and> ch \<noteq> CHR ''%'' then pf_print send [ch] st
          else if \<not> pf_in_pct pf then Some (c, pf\<lparr>pf_in_pct := True\<rparr>)
          else if pf_is_modifier ch
          then do { pf \<leftarrow> pf_modifier ch pf; Some (c, pf) }
          else if pf_is_inttype ch
          then do { pf \<leftarrow> pf_getnum ch pf;
                    (c, pf) \<leftarrow> pf_printnum send buf (c, pf_setbase ch pf);
                    Some (c, pf_endfield pf) }
          else if ch = CHR ''s''
          then do { (str, ap) \<leftarrow> va_string (pf_ap pf);
                    let str = (case str of None \<Rightarrow> ''(null)'' | Some s \<Rightarrow> c_string s);
                    (c, pf) \<leftarrow> pf_printstuff send [] [] str (c, pf\<lparr>pf_ap := ap\<rparr>);
                    Some (c, pf_endfield pf) }
          else do { (x, ap) \<leftarrow> (if ch = CHR ''c'' then va_char (pf_ap pf) else Some (ch, pf_ap pf));
                    (c, pf) \<leftarrow> pf_printstuff send [] [] (c_string [x]) (c, pf\<lparr>pf_ap := ap\<rparr>);
                    Some (c, pf_endfield pf) } }"

primrec vprintf_loop ::
    "(string \<Rightarrow> 'c \<Rightarrow> 'c option) \<Rightarrow> char list \<Rightarrow> string \<Rightarrow> 'c \<times> PF \<Rightarrow> ('c \<times> PF) option" where
  "vprintf_loop send buf [] st = Some st"
| "vprintf_loop send buf (ch # fmt) st =
     do { st \<leftarrow> pf_send send buf ch st; vprintf_loop send buf fmt st }"

definition pf_init :: "va_value list \<Rightarrow> PF" where
  "pf_init ap = \<lparr>pf_ap = ap, pf_charcount = 0, pf_in_pct = False, pf_size = INTSZ, pf_num = 0,
     pf_sign = False, pf_spacing = 0, pf_rightspc = False, pf_fillchar = CHR '' '', pf_base = 0,
     pf_baseprefix = False, pf_altformat = False\<rparr>"

definition vprintf ::
    "(string \<Rightarrow> 'c \<Rightarrow> 'c option) \<Rightarrow> char list \<Rightarrow> 'c \<Rightarrow> string \<Rightarrow> va_value list \<Rightarrow> (int \<times> 'c) option" where
  "vprintf func buf clientdata format ap =
     do { (c, pf) \<leftarrow> vprintf_loop func buf (c_string format) (clientdata, pf_endfield (pf_init ap));
          Some (sint (pf_charcount pf), c) }"

section \<open>Printing into a buffer\<close>

record SNP =
  snp_buf :: "char list"
  snp_buflen :: nat
  snp_bufpos :: nat

fun snprintf_send :: "string \<Rightarrow> SNP \<Rightarrow> SNP option" where
  "snprintf_send [] snp = Some snp"
| "snprintf_send (d # data) snp =
     (if snp_bufpos snp < snp_buflen snp
      then do { buf \<leftarrow> cwrite (snp_buf snp) (snp_bufpos snp) d;
                snprintf_send data (snp\<lparr>snp_buf := buf, snp_bufpos := snp_bufpos snp + 1\<rparr>) }
      else snprintf_send data snp)"

definition vsnprintf ::
    "char list \<Rightarrow> char list \<Rightarrow> nat \<Rightarrow> string \<Rightarrow> va_value list \<Rightarrow> (int \<times> char list) option" where
  "vsnprintf nbuf buf len fmt ap =
     do { let snp = \<lparr>snp_buf = buf, snp_buflen = (if len = 0 then 0 else len - 1), snp_bufpos = 0\<rparr>;
          (chars, snp) \<leftarrow> vprintf snprintf_send nbuf snp fmt ap;
          buf \<leftarrow> (if 0 < len then cwrite (snp_buf snp) (snp_bufpos snp) NUL else Some (snp_buf snp));
          Some (chars, buf) }"

definition snprintf ::
    "char list \<Rightarrow> char list \<Rightarrow> nat \<Rightarrow> string \<Rightarrow> va_value list \<Rightarrow> (int \<times> char list) option" where
  "snprintf nbuf buf len fmt args = vsnprintf nbuf buf len fmt args"

section \<open>The text of a format\<close>

text \<open>The digits of a number, most significant first.\<close>

definition digit_char :: "nat \<Rightarrow> char" where
  "digit_char d = ''0123456789abcdef'' ! d"

function digits_text :: "nat \<Rightarrow> nat \<Rightarrow> string" where
  "digits_text base n = (if base < 2 \<or> n < base then [digit_char n]
     else digits_text base (n div base) @ [digit_char (n mod base)])"
  by pat_completeness auto
termination by (relation "measure (\<lambda>(base, n). n)") auto

declare digits_text.simps [simp del]

text \<open>A text in its field, padded as the flags say.\<close>

definition pf_layout :: "PF \<Rightarrow> string \<Rightarrow> string \<Rightarrow> string" where
  "pf_layout pf prefix stuff =
     (let pad = replicate (pf_spacing pf - length (prefix @ stuff)) (pf_fillchar pf)
      in if pf_rightspc pf then prefix @ stuff @ pad
         else if pf_fillchar pf = CHR ''0'' then prefix @ pad @ stuff
         else pad @ prefix @ stuff)"

definition pf_number :: "PF \<Rightarrow> string" where
  "pf_number pf =
     pf_layout pf
       ((if pf_sign pf then ''-'' else []) @
        (if pf_baseprefix pf \<and> pf_base pf = 16 then ''0x''
         else if pf_baseprefix pf \<and> pf_base pf = 8 then ''0'' else []))
       (digits_text (pf_base pf) (unat (pf_num pf)))"

text \<open>What one character of the format adds to the output, without a callback or a buffer.\<close>

definition pf_step :: "char \<Rightarrow> PF \<Rightarrow> (string \<times> PF) option" where
  "pf_step ch pf =
     (if ch = NUL then None
      else if \<not> pf_in_pct pf \<and> ch \<noteq> CHR ''%'' then Some ([ch], pf)
      else if \<not> pf_in_pct pf then Some ([], pf\<lparr>pf_in_pct := True\<rparr>)
      else if pf_is_modifier ch
      then do { pf \<leftarrow> pf_modifier ch pf; Some ([], pf) }
      else if pf_is_inttype ch
      then do { pf \<leftarrow> pf_getnum ch pf;
                Some (pf_number (pf_setbase ch pf), pf_endfield pf) }
      else if ch = CHR ''s''
      then do { (str, ap) \<leftarrow> va_string (pf_ap pf);
                Some (pf_layout pf [] (case str of None \<Rightarrow> ''(null)'' | Some s \<Rightarrow> c_string s),
                      pf_endfield (pf\<lparr>pf_ap := ap\<rparr>)) }
      else do { (x, ap) \<leftarrow> (if ch = CHR ''c'' then va_char (pf_ap pf) else Some (ch, pf_ap pf));
                Some (pf_layout pf [] (c_string [x]), pf_endfield (pf\<lparr>pf_ap := ap\<rparr>)) })"

primrec pf_text :: "string \<Rightarrow> PF \<Rightarrow> (string \<times> PF) option" where
  "pf_text [] pf = Some ([], pf)"
| "pf_text (ch # fmt) pf =
     do { (t, pf) \<leftarrow> pf_step ch pf; (u, pf) \<leftarrow> pf_text fmt pf; Some (t @ u, pf) }"

definition format_text :: "string \<Rightarrow> va_value list \<Rightarrow> string option" where
  "format_text fmt ap =
     do { (t, pf) \<leftarrow> pf_text (c_string fmt) (pf_endfield (pf_init ap)); Some t }"

subsection \<open>Digits\<close>

lemma digits_text_length:
  assumes "2 \<le> base" "n < base ^ k" "0 < k"
  shows "length (digits_text base n) \<le> k"
  using assms(2,3)
proof (induction k arbitrary: n)
  case 0
  then show ?case by simp
next
  case (Suc k)
  show ?case
  proof (cases "n < base")
    case True
    then show ?thesis by (subst digits_text.simps) simp
  next
    case False
    with Suc.prems have "k \<noteq> 0" by (cases k) auto
    have "n div base < base ^ k"
      using Suc.prems(1) assms(1) by (simp add: less_mult_imp_div_less mult.commute)
    with Suc.IH \<open>k \<noteq> 0\<close> have "length (digits_text base (n div base)) \<le> k" by simp
    then show ?thesis using False assms(1) by (subst digits_text.simps) simp
  qed
qed

lemma digits_text_nonempty [simp]: "digits_text base n \<noteq> []"
  by (subst digits_text.simps) simp

lemma digit_char_in: "d < 16 \<Longrightarrow> digit_char d \<in> set ''0123456789abcdef''"
  unfolding digit_char_def by (rule nth_mem) simp

lemma digit_char_not_NUL: "d < 16 \<Longrightarrow> digit_char d \<noteq> NUL"
  using digit_char_in [of d] by (auto simp: NUL_def)

lemma digits_text_no_NUL: "2 \<le> base \<Longrightarrow> base \<le> 16 \<Longrightarrow> NUL \<notin> set (digits_text base n)"
proof (induction base n rule: digits_text.induct)
  case (1 base n)
  have "digit_char (n mod base) \<noteq> NUL"
    using 1(2,3) by (intro digit_char_not_NUL) (metis less_le_trans mod_less_divisor zero_less_numeral)
  moreover have "n < base \<Longrightarrow> digit_char n \<noteq> NUL" using 1(3) by (intro digit_char_not_NUL) simp
  ultimately show ?case using 1 by (subst digits_text.simps) auto
qed

lemma printnum_loop_digits:
  assumes "2 \<le> base" "base \<le> 16" "int (length (digits_text base n)) \<le> x + 1" "nat x < length buf"
  shows "printnum_loop base n x buf = Some (x - int (length (digits_text base n)),
     take (nat (x + 1) - length (digits_text base n)) buf @ digits_text base n @ drop (nat (x + 1)) buf)"
  using assms
proof (induction base n x buf rule: printnum_loop.induct)
  case (1 base n x buf)
  have mod: "n mod base < 16" using 1(2,3) by (metis less_le_trans mod_less_divisor zero_less_numeral)
  then have d: "cread ''0123456789abcdef'' (n mod base) = Some (digit_char (n mod base))"
    by (simp add: digit_char_def)
  let ?d = "digit_char (n mod base)"
  have "0 < length (digits_text base n)" by simp
  with 1(4) have x: "0 \<le> x" by linarith
  have upd: "take (nat x) buf @ ?d # drop (nat (x + 1)) buf = buf[nat x := ?d]"
    using 1(5) x by (simp add: upd_conv_take_nth_drop nat_add_distrib)
  show ?case
  proof (cases "n < base")
    case True
    then have "digits_text base n = [?d]" by (subst digits_text.simps) simp
    then show ?thesis using True x 1(2,5) d upd
      by (subst printnum_loop.simps) (simp add: nat_add_distrib)
  next
    case False
    then have dig: "digits_text base n = digits_text base (n div base) @ [?d]"
      using 1(2) by (subst digits_text.simps) simp
    let ?L = "digits_text base (n div base)"
    let ?buf = "buf[nat x := ?d]"
    have len: "int (length ?L) \<le> x" using 1(4) dig by simp
    have div: "0 < n div base" using False 1(2) by (simp add: div_greater_zero_iff)
    have "0 < length ?L" by simp
    then have x1: "1 \<le> x" using len by linarith
    have "printnum_loop base (n div base) (x - 1) ?buf = Some (x - 1 - int (length ?L),
        take (nat x - length ?L) ?buf @ ?L @ drop (nat x) ?buf)"
      using 1(1) [of "()" ?d ?buf] 1(2,3,5) d x x1 len div by simp
    moreover have "take (nat x - length ?L) ?buf = take (nat x - length ?L) buf" by simp
    moreover have "drop (nat x) ?buf = ?d # drop (nat (x + 1)) buf"
      using 1(5) x by (simp add: Cons_nth_drop_Suc [symmetric] nat_add_distrib)
    ultimately show ?thesis using div x 1(2,5) d dig
      by (subst printnum_loop.simps) (simp add: nat_add_distrib)
  qed
qed

text \<open>The local buffer is large enough for every number and base.\<close>

lemma pf_numstr_digits:
  assumes buf: "length buf = NUMBER_BUF_SIZE" and base: "pf_base pf \<in> {8, 10, 16}"
  shows "pf_numstr buf pf = Some (digits_text (pf_base pf) (unat (pf_num pf)))"
proof -
  let ?D = "digits_text (pf_base pf) (unat (pf_num pf))"
  have lt: "unat (pf_num pf) < 2 ^ 64" using unsigned_less [of "pf_num pf", where 'a = nat] by simp
  have "(2 :: nat) ^ 64 \<le> pf_base pf ^ 22" using base by auto
  with lt have len: "length ?D \<le> 22"
    by (intro digits_text_length) (use base in auto)
  let ?buf = "buf[22 := NUL]"
  have sz: "NUMBER_BUF_SIZE = 23" by (simp add: NUMBER_BUF_SIZE_def)
  have loop: "printnum_loop (pf_base pf) (unat (pf_num pf)) 21 ?buf
      = Some (21 - int (length ?D), take (22 - length ?D) ?buf @ ?D @ drop 22 ?buf)"
    using base len buf sz by (subst printnum_loop_digits) auto
  have "drop 22 ?buf = [NUL]"
    using buf sz by (simp add: drop_update_cancel Cons_nth_drop_Suc [symmetric])
  moreover have "length (take (22 - length ?D) ?buf) = 22 - length ?D" using buf sz by simp
  moreover have "nat (21 - int (length ?D) + 1) = 22 - length ?D" using len by simp
  ultimately have "drop (nat (21 - int (length ?D) + 1)) (take (22 - length ?D) ?buf @ ?D @ drop 22 ?buf)
      = ?D @ [NUL]" by simp
  moreover have "c_string (?D @ [NUL]) = ?D"
    using digits_text_no_NUL [of "pf_base pf" "unat (pf_num pf)"] base unfolding c_string_def
    by (subst takeWhile_append2) auto
  ultimately show ?thesis using buf loop by (simp add: pf_numstr_def sz)
qed

subsection \<open>The count does not influence the text\<close>

definition set_count :: "32 word \<Rightarrow> PF \<Rightarrow> PF" where
  "set_count n pf = pf\<lparr>pf_charcount := n\<rparr>"

lemma set_count_sel [simp]:
  "pf_ap (set_count n pf) = pf_ap pf" "pf_in_pct (set_count n pf) = pf_in_pct pf"
  "pf_size (set_count n pf) = pf_size pf" "pf_num (set_count n pf) = pf_num pf"
  "pf_sign (set_count n pf) = pf_sign pf" "pf_spacing (set_count n pf) = pf_spacing pf"
  "pf_rightspc (set_count n pf) = pf_rightspc pf" "pf_fillchar (set_count n pf) = pf_fillchar pf"
  "pf_base (set_count n pf) = pf_base pf" "pf_baseprefix (set_count n pf) = pf_baseprefix pf"
  "pf_altformat (set_count n pf) = pf_altformat pf" "pf_charcount (set_count n pf) = n"
  by (simp_all add: set_count_def)

lemma set_count_twice [simp]: "set_count n (set_count k pf) = set_count n pf"
  by (simp add: set_count_def)

lemma pf_count_eq: "pf_count t pf = set_count (pf_charcount pf + of_nat (length t)) pf"
  by (simp add: pf_count_def set_count_def)

lemma pf_modifier_count:
  "pf_modifier ch (set_count n pf) = map_option (set_count n) (pf_modifier ch pf)"
  by (simp add: pf_modifier_def pf_width_def set_count_def kassert_def)

lemma pf_getnum_count:
  "pf_getnum ch (set_count n pf) = map_option (set_count n) (pf_getnum ch pf)"
  by (auto simp: pf_getnum_def set_count_def map_option_bind split: prod.splits intro!: Option.bind_cong)

lemma pf_setbase_count: "pf_setbase ch (set_count n pf) = set_count n (pf_setbase ch pf)"
  by (simp add: pf_setbase_def set_count_def Let_def)

lemma pf_endfield_count: "pf_endfield (set_count n pf) = set_count n (pf_endfield pf)"
  by (simp add: pf_endfield_def set_count_def)

lemma pf_layout_count [simp]: "pf_layout (set_count n pf) p s = pf_layout pf p s"
  by (simp add: pf_layout_def Let_def)

lemma pf_layout_ap [simp]: "pf_layout (pf\<lparr>pf_ap := ap\<rparr>) p s = pf_layout pf p s"
  by (simp add: pf_layout_def Let_def)

lemma pf_number_count [simp]: "pf_number (set_count n pf) = pf_number pf"
  by (simp add: pf_number_def)

lemma ap_count: "(set_count n pf)\<lparr>pf_ap := ap\<rparr> = set_count n (pf\<lparr>pf_ap := ap\<rparr>)"
  by (simp add: set_count_def)

lemma in_pct_count: "(set_count n pf)\<lparr>pf_in_pct := b\<rparr> = set_count n (pf\<lparr>pf_in_pct := b\<rparr>)"
  by (simp add: set_count_def)

lemmas count_rules = pf_modifier_count pf_getnum_count pf_setbase_count pf_endfield_count ap_count
  in_pct_count

lemma set_count_id: "set_count (pf_charcount pf) pf = pf" "pf_charcount pf = n \<Longrightarrow> set_count n pf = pf"
  by (auto simp: set_count_def)

lemma pf_modifier_charcount: "pf_modifier ch pf = Some pf' \<Longrightarrow> pf_charcount pf' = pf_charcount pf"
  by (auto simp: pf_modifier_def pf_width_def split: if_splits)

lemma pf_getnum_charcount: "pf_getnum ch pf = Some pf' \<Longrightarrow> pf_charcount pf' = pf_charcount pf"
  by (auto simp: pf_getnum_def bind_eq_Some_conv split: if_splits)

lemma pf_setbase_sel [simp]:
  "pf_charcount (pf_setbase ch pf) = pf_charcount pf" "pf_endfield (pf_setbase ch pf) = pf_endfield pf"
  by (simp_all add: pf_setbase_def pf_endfield_def Let_def)

lemma pf_setbase_base: "pf_is_inttype ch \<Longrightarrow> pf_base (pf_setbase ch pf) \<in> {8, 10, 16}"
  by (auto simp: pf_is_inttype_def pf_setbase_def Let_def)

lemma pf_step_count:
  "pf_step ch (set_count n pf) = map_option (map_prod id (set_count n)) (pf_step ch pf)"
  by (auto simp: pf_step_def count_rules map_option_bind comp_def bind_map_option split: prod.splits
      intro!: Option.bind_cong)

section \<open>Clients of printf\<close>

text \<open>
  What \<^verbatim>\<open>__vprintf\<close> relies on of its callback: sending a text in pieces is sending it at once.
\<close>

locale pf_client =
  fixes send :: "string \<Rightarrow> 'c \<Rightarrow> 'c option"
  assumes send_Nil: "send [] c = Some c"
    and send_append: "send (s @ t) c = do { c \<leftarrow> send s c; send t c }"
begin

lemma pf_fill_eq:
  "pf_fill send n (c, pf) = do { c \<leftarrow> send (replicate n (pf_fillchar pf)) c;
     Some (c, pf_count (replicate n (pf_fillchar pf)) pf) }"
proof (induction n arbitrary: c pf)
  case 0
  then show ?case by (simp add: send_Nil pf_count_def)
next
  case (Suc n)
  have "replicate (Suc n) x = [x] @ replicate n x" for x :: char by simp
  then show ?case using Suc
    by (simp add: pf_print_def send_append pf_count_eq ac_simps del: replicate_Suc append_Cons)
qed

lemma pf_printstuff_eq:
  "pf_printstuff send p p2 stuff (c, pf) = do { c \<leftarrow> send (pf_layout pf (p @ p2) stuff) c;
     Some (c, pf_count (pf_layout pf (p @ p2) stuff) pf) }"
proof (cases "length p + length p2 + length stuff < pf_spacing pf")
  case True
  then show ?thesis
    by (simp add: pf_printstuff_def pf_layout_def pf_print_def send_append pf_count_eq pf_fill_eq
        Let_def ac_simps)
next
  case False
  then show ?thesis
    by (simp add: pf_printstuff_def pf_layout_def pf_print_def send_append pf_count_eq pf_fill_eq
        Let_def ac_simps)
qed

lemma pf_printnum_eq:
  assumes buf: "length buf = NUMBER_BUF_SIZE" and base: "pf_base pf \<in> {8, 10, 16}"
  shows "pf_printnum send buf (c, pf) = do { c \<leftarrow> send (pf_number pf) c;
     Some (c, pf_count (pf_number pf) pf) }"
  using pf_numstr_digits [OF assms]
  by (simp add: pf_printnum_def Let_def pf_printstuff_eq pf_number_def)

lemma pf_print_eq: "pf_print send t (c, pf) = do { c \<leftarrow> send t c; Some (c, pf_count t pf) }"
  by (simp add: pf_print_def)

lemma pf_send_eq:
  assumes buf: "length buf = NUMBER_BUF_SIZE"
  shows "pf_send send buf ch (c, pf) = do { (t, pf') \<leftarrow> pf_step ch pf; c \<leftarrow> send t c;
     Some (c, set_count (pf_charcount pf + of_nat (length t)) pf') }"
proof (cases "pf_in_pct pf \<and> ch \<noteq> NUL")
  case False
  then show ?thesis
    by (auto simp: pf_send_def pf_step_def pf_print_eq pf_count_eq send_Nil set_count_id)
next
  case True
  consider "pf_is_modifier ch" | "\<not> pf_is_modifier ch" "pf_is_inttype ch"
    | "\<not> pf_is_modifier ch" "\<not> pf_is_inttype ch" by blast
  then show ?thesis
  proof cases
    case 1
    with True show ?thesis
      by (cases "pf_modifier ch pf")
        (auto simp: pf_send_def pf_step_def send_Nil set_count_id dest: pf_modifier_charcount)
  next
    case 2
    show ?thesis
    proof (cases "pf_getnum ch pf")
      case None
      with True 2 show ?thesis by (simp add: pf_send_def pf_step_def)
    next
      case (Some pf1)
      have "pf_printnum send buf (c, pf_setbase ch pf1) =
          do { c \<leftarrow> send (pf_number (pf_setbase ch pf1)) c;
               Some (c, pf_count (pf_number (pf_setbase ch pf1)) (pf_setbase ch pf1)) }"
        by (rule pf_printnum_eq [OF buf pf_setbase_base [OF 2(2)]])
      with True 2 Some show ?thesis
        by (simp add: pf_send_def pf_step_def pf_count_eq count_rules pf_getnum_charcount [OF Some])
    qed
  next
    case 3
    with True show ?thesis
      by (cases "ch = CHR ''s''"; cases "va_string (pf_ap pf)"; cases "ch = CHR ''c''";
          cases "va_char (pf_ap pf)")
        (auto simp: pf_send_def pf_step_def pf_printstuff_eq pf_count_eq count_rules Let_def)
  qed
qed

lemma vprintf_loop_eq:
  assumes buf: "length buf = NUMBER_BUF_SIZE"
  shows "vprintf_loop send buf fmt (c, set_count n pf) = do { (t, pf') \<leftarrow> pf_text fmt pf; c \<leftarrow> send t c;
     Some (c, set_count (n + of_nat (length t)) pf') }"
proof (induction fmt arbitrary: c n pf)
  case Nil
  then show ?case by (simp add: send_Nil)
next
  case (Cons ch fmt)
  show ?case
  proof (cases "pf_step ch pf")
    case None
    then show ?thesis by (simp add: pf_send_eq [OF buf] pf_step_count)
  next
    case (Some a)
    obtain t pf1 where [simp]: "a = (t, pf1)" by (cases a)
    show ?thesis
    proof (cases "pf_text fmt pf1")
      case None
      with Some Cons show ?thesis by (cases "send t c") (simp_all add: pf_send_eq [OF buf] pf_step_count)
    next
      case tx: (Some b)
      obtain u pf2 where [simp]: "b = (u, pf2)" by (cases b)
      from Some tx Cons show ?thesis
        by (cases "send t c") (simp_all add: pf_send_eq [OF buf] pf_step_count send_append ac_simps)
    qed
  qed
qed

lemma vprintf_eq:
  assumes buf: "length buf = NUMBER_BUF_SIZE"
  shows "vprintf send buf c fmt ap = do { t \<leftarrow> format_text fmt ap; c \<leftarrow> send t c;
     Some (sint (of_nat (length t) :: 32 word), c) }"
proof -
  let ?pf = "pf_endfield (pf_init ap)"
  have "set_count 0 ?pf = ?pf" by (simp add: pf_endfield_def pf_init_def set_count_def)
  with vprintf_loop_eq [OF buf, of "c_string fmt" c 0 ?pf]
  have "vprintf_loop send buf (c_string fmt) (c, ?pf) =
      do { (t, pf') \<leftarrow> pf_text (c_string fmt) ?pf; c \<leftarrow> send t c;
           Some (c, set_count (of_nat (length t)) pf') }" by simp
  then show ?thesis
    by (cases "pf_text (c_string fmt) ?pf")
      (auto simp: vprintf_def format_text_def intro!: Option.bind_cong)
qed

end

subsection \<open>The buffer client\<close>

interpretation snp: pf_client snprintf_send
proof
  show "snprintf_send (s @ t) c = do { c \<leftarrow> snprintf_send s c; snprintf_send t c }" for s t c
    by (induction s arbitrary: c) simp_all
qed simp

lemma snprintf_send_eq:
  assumes "snp_bufpos snp \<le> snp_buflen snp" "snp_buflen snp \<le> length (snp_buf snp)"
  shows "snprintf_send t snp =
     (let k = min (length t) (snp_buflen snp - snp_bufpos snp)
      in Some (snp\<lparr>snp_buf := take (snp_bufpos snp) (snp_buf snp) @ take k t @
                     drop (snp_bufpos snp + k) (snp_buf snp),
                   snp_bufpos := snp_bufpos snp + k\<rparr>))"
  using assms
proof (induction t arbitrary: snp)
  case Nil
  then show ?case by simp
next
  case (Cons d t)
  show ?case
  proof (cases "snp_bufpos snp < snp_buflen snp")
    case False
    then show ?thesis using Cons.prems Cons.IH [of snp] by (simp add: Let_def)
  next
    case True
    let ?s = "snp\<lparr>snp_buf := (snp_buf snp)[snp_bufpos snp := d], snp_bufpos := snp_bufpos snp + 1\<rparr>"
    have pos: "snp_bufpos snp < length (snp_buf snp)" using True Cons.prems by simp
    have k: "min (length (d # t)) (snp_buflen snp - snp_bufpos snp)
        = Suc (min (length t) (snp_buflen snp - Suc (snp_bufpos snp)))" using True by simp
    have "snprintf_send (d # t) snp = snprintf_send t ?s" using True pos by simp
    moreover have "take (Suc (snp_bufpos snp)) ((snp_buf snp)[snp_bufpos snp := d])
        = take (snp_bufpos snp) (snp_buf snp) @ [d]"
      using pos by (simp add: take_Suc_conv_app_nth)
    ultimately show ?thesis using Cons.IH [of ?s] True Cons.prems unfolding k
      by (simp add: Let_def)
  qed
qed

lemma vsnprintf_eq:
  assumes "length nbuf = NUMBER_BUF_SIZE" "len \<le> length buf" "format_text fmt ap = Some t"
  shows "vsnprintf nbuf buf len fmt ap = Some (sint (of_nat (length t) :: 32 word),
     if len = 0 then buf else take (len - 1) t @ [NUL] @ drop (Suc (min (length t) (len - 1))) buf)"
proof (cases len)
  case 0
  then show ?thesis using assms
    by (simp add: vsnprintf_def snp.vprintf_eq snprintf_send_eq Let_def)
next
  case (Suc n)
  let ?k = "min (length t) n"
  have "?k < length buf" using Suc assms(2) by simp
  then have "(take ?k t @ drop ?k buf)[?k := NUL] = take ?k t @ [NUL] @ drop (Suc ?k) buf"
    by (simp add: list_update_append Cons_nth_drop_Suc [symmetric])
  moreover have "take ?k t = take n t" by (simp add: min_def)
  ultimately show ?thesis using Suc assms
    by (simp add: vsnprintf_def snp.vprintf_eq snprintf_send_eq Let_def)
qed

section \<open>Reading a printed number back\<close>

definition digits_value :: "string \<Rightarrow> 32 word \<Rightarrow> 32 word" where
  "digits_value ds v = fold (\<lambda>c v. v * 10 + of_nat (the (index_of c atoi_chars))) ds v"

lemma atoi_digits_cstr:
  assumes "cstr m s ds" "set ds \<subseteq> set atoi_chars"
  shows "atoi_digits m s v = Some (digits_value ds v)"
  using assms
proof (induction ds arbitrary: s v)
  case Nil
  then show ?case by (subst atoi_digits.simps) (simp add: digits_value_def)
next
  case (Cons c ds)
  obtain d where d: "index_of c atoi_chars = Some d"
    using Cons.prems(2) by (cases "index_of c atoi_chars") auto
  then show ?case using Cons.prems Cons.IH [of "s + 1" "v * 10 + of_nat d"]
    by (subst atoi_digits.simps) (simp add: digits_value_def)
qed

lemma decimal_index: "d < 10 \<Longrightarrow> index_of (digit_char d) atoi_chars = Some d"
  by (auto simp: digit_char_def atoi_chars_def less_Suc_eq numeral_eq_Suc)

lemma digits_text_chars: "(\<And>d. d < 10 \<Longrightarrow> digit_char d \<in> S) \<Longrightarrow> set (digits_text 10 n) \<subseteq> S"
proof (induction n rule: less_induct)
  case (less n)
  show ?case
  proof (cases "n < 10")
    case True
    then show ?thesis using less.prems by (subst digits_text.simps) simp
  next
    case False
    then have "set (digits_text 10 (n div 10)) \<subseteq> S" using less.prems by (intro less.IH) simp_all
    then show ?thesis using False less.prems by (subst digits_text.simps) simp
  qed
qed

lemma digits_text_decimal: "set (digits_text 10 n) \<subseteq> set atoi_chars"
proof (rule digits_text_chars)
  show "digit_char d \<in> set atoi_chars" if "d < 10" for d
    using decimal_index [OF that] index_of_None by (metis option.discI)
qed

lemma digits_value_text: "digits_value (digits_text 10 n) 0 = of_nat n"
proof (induction n rule: less_induct)
  case (less n)
  show ?case
  proof (cases "n < 10")
    case True
    then show ?thesis by (subst digits_text.simps) (simp add: digits_value_def decimal_index)
  next
    case False
    then have "digits_value (digits_text 10 (n div 10)) 0 = of_nat (n div 10)" by (intro less) simp
    then have "digits_value (digits_text 10 n) 0 = of_nat (n div 10) * 10 + of_nat (n mod 10)"
      using False by (subst digits_text.simps) (simp add: digits_value_def decimal_index)
    also have "\<dots> = of_nat (n div 10 * 10 + n mod 10)"
      by (simp only: of_nat_add of_nat_mult of_nat_numeral)
    also have "\<dots> = of_nat n" by (simp only: div_mult_mod_eq)
    finally show ?thesis .
  qed
qed

lemma atoi_decimal:
  assumes "cstr m p ((if neg then ''-'' else []) @ digits_text 10 n)"
  shows "atoi m p = Some (sint (if neg then - of_nat n else of_nat n :: 32 word))"
proof -
  obtain c ds where D: "digits_text 10 n = c # ds" by (cases "digits_text 10 n") auto
  have dig: "set (c # ds) \<subseteq> set atoi_chars" using digits_text_decimal [of n] D by simp
  have val: "digits_value (c # ds) 0 = of_nat n" using digits_value_text [of n] D by simp
  show ?thesis
  proof (cases neg)
    case True
    with assms D have "m p = CHR ''-''" "cstr m (p + 1) (c # ds)" by simp_all
    moreover from this(1) have "atoi_space m p = Some p" by (subst atoi_space.simps) simp
    ultimately show ?thesis using True atoi_digits_cstr [OF _ dig, of m "p + 1" 0] val
      by (simp add: atoi_def)
  next
    case False
    with assms D have str: "cstr m p (c # ds)" by simp
    then have "m p \<noteq> CHR '' ''" "m p \<noteq> CHR 0x09" "m p \<noteq> CHR ''-''" "m p \<noteq> CHR ''+''"
      using dig by (auto simp: atoi_chars_def)
    moreover from this have "atoi_space m p = Some p" by (subst atoi_space.simps) simp
    ultimately show ?thesis using False str atoi_digits_cstr [OF str dig, of 0] val
      by (simp add: atoi_def)
  qed
qed

section \<open>Properties\<close>

text \<open>C18. Whatever a format asks for, \<^verbatim>\<open>snprintf\<close> stores exactly the text of the format, cut off to
  leave room for the terminating zero byte, writes nothing behind that byte, and returns the
  length of the whole text.  With length 0 the buffer is untouched.  The text is the one the format
  denotes independently of buffers and of the pieces in which it is sent.\<close>

theorem snprintf_exact:
  assumes "length nbuf = NUMBER_BUF_SIZE" "len \<le> length buf" "format_text fmt ap = Some t"
  shows "snprintf nbuf buf len fmt ap = Some (sint (of_nat (length t) :: 32 word),
     if len = 0 then buf else take (len - 1) t @ [NUL] @ drop (Suc (min (length t) (len - 1))) buf)"
  unfolding snprintf_def using assms by (rule vsnprintf_eq)

lemma digits_text_42: "digits_text 10 42 = ''42''"
  by (simp add: digits_text.simps digit_char_def)

lemma replicate_2: "replicate 2 x = [x, x]"
  by (simp add: numeral_2_eq_2)

lemma format_text_example: "format_text ''n=%05d'' [VaInt (- 42)] = Some ''n=-0042''"
  by (simp add: digits_text_42 format_text_def c_string_def NUL_def pf_endfield_def pf_init_def pf_step_def
      pf_is_modifier_def pf_is_inttype_def pf_modifier_def pf_width_def INT_MAX_def pf_getnum_def
      pf_setbase_def pf_number_def pf_layout_def replicate_2)

theorem snprintf_exact_witness:
  "snprintf (replicate NUMBER_BUF_SIZE NUL) (replicate 6 CHR ''x'') 5 ''n=%05d'' [VaInt (- 42)]
     = Some (7, ''n=-0'' @ [NUL, CHR ''x''])"
  using snprintf_exact [OF _ _ format_text_example,
      of "replicate NUMBER_BUF_SIZE NUL" 5 "replicate 6 CHR ''x''"]
  by (simp add: numeral_eq_Suc)

text \<open>C19. The local buffer of \<^verbatim>\<open>__pf_printnum\<close> is large enough: for every 64-bit number and each of
  the bases the code sets, the digits are written inside it and come out most significant first.\<close>

theorem printnum_in_bounds:
  assumes "length buf = NUMBER_BUF_SIZE" "pf_is_inttype ch"
  shows "pf_numstr buf (pf_setbase ch pf)
     = Some (digits_text (pf_base (pf_setbase ch pf)) (unat (pf_num (pf_setbase ch pf))))"
  using assms(1) pf_setbase_base [OF assms(2)] by (rule pf_numstr_digits)

theorem printnum_in_bounds_witness:
  "pf_numstr (replicate 23 NUL) (pf_setbase CHR ''o'' (pf_init []\<lparr>pf_num := - 1\<rparr>))
     = Some ''1777777777777777777777''"
proof -
  have "unat (- 1 :: 64 word) = 18446744073709551615"
    by (simp add: unsigned_minus_1_eq_mask mask_eq_exp_minus_1)
  moreover have "digits_text 8 18446744073709551615 = ''1777777777777777777777''"
    by (simp add: digits_text.simps digit_char_def)
  ultimately have "digits_text 8 (unat (- 1 :: 64 word)) = ''1777777777777777777777''" by simp
  moreover have "pf_is_inttype CHR ''o''" "NUMBER_BUF_SIZE = 23"
    by (simp_all add: pf_is_inttype_def NUMBER_BUF_SIZE_def)
  ultimately show ?thesis
    using printnum_in_bounds [of "replicate 23 NUL" "CHR ''o''" "pf_init []\<lparr>pf_num := - 1\<rparr>"]
    by (simp add: pf_setbase_def pf_init_def)
qed

lemma sint_32_bounds: "- (2 ^ 31) \<le> sint w" "sint w < 2 ^ 31" for w :: "32 word"
  using sint_greater_eq [of w] sint_less [of w] by simp_all

lemma scast_64:
  fixes w :: "32 word"
  shows "sint (scast w :: 64 word) = sint w"
    and "0 \<le> sint w \<Longrightarrow> unat (scast w :: 64 word) = nat (sint w)"
    and "sint w < 0 \<Longrightarrow> unat (- scast w :: 64 word) = nat (- sint w)"
proof -
  define k where "k = sint w"
  have k: "- (2 ^ 31) \<le> k" "k < 2 ^ 31" using sint_32_bounds [of w] by (simp_all only: k_def)
  have eq: "scast w = (word_of_int k :: 64 word)" by (simp add: k_def)
  have neg: "- scast w = (word_of_int (- k) :: 64 word)" unfolding eq by simp
  show "sint (scast w :: 64 word) = sint w"
    using k unfolding eq k_def [symmetric] by (simp add: signed_of_int signed_take_bit_int_eq_self)
  show "unat (scast w :: 64 word) = nat (sint w)" if "0 \<le> sint w"
    using k that unfolding eq k_def [symmetric] by (simp add: unsigned_of_int take_bit_int_eq_self)
  show "unat (- scast w :: 64 word) = nat (- sint w)" if "sint w < 0"
    using k that unfolding neg k_def [symmetric]
    by (simp only: unsigned_of_int) (simp add: take_bit_int_eq_self)
qed

lemma format_text_d:
  "format_text ''%d'' [VaInt w]
     = Some ((if sint w < 0 then ''-'' else []) @ digits_text 10 (nat \<bar>sint w\<bar>))"
  by (simp add: format_text_def c_string_def NUL_def pf_endfield_def pf_init_def pf_step_def
      pf_is_modifier_def pf_is_inttype_def pf_getnum_def
      pf_setbase_def pf_number_def pf_layout_def scast_64 del: signed_ucast_eq)

text \<open>C20. What \<^verbatim>\<open>%d\<close> prints for a 32-bit integer, \<^verbatim>\<open>atoi\<close> reads back as the same integer, the most
  negative one included.\<close>

theorem printf_atoi_roundtrip:
  assumes "format_text ''%d'' [VaInt w] = Some t" "cstr m p t"
  shows "atoi m p = Some (sint w)"
proof -
  have t: "t = (if sint w < 0 then ''-'' else []) @ digits_text 10 (nat \<bar>sint w\<bar>)"
    using assms(1) by (simp add: format_text_d)
  have "(if sint w < 0 then - of_nat (nat \<bar>sint w\<bar>) else of_nat (nat \<bar>sint w\<bar>) :: 32 word) = w"
    by (simp add: of_nat_nat)
  with atoi_decimal [of m p "sint w < 0" "nat \<bar>sint w\<bar>"] assms(2) t show ?thesis by simp
qed

theorem printf_atoi_roundtrip_witness:
  "atoi (put_str 0 ''-2147483648'' (\<lambda>_. NUL)) 0 = Some (- 2147483648)"
proof -
  have dig: "digits_text 10 2147483648 = ''2147483648''"
    by (simp add: digits_text.simps digit_char_def)
  have "format_text ''%d'' [VaInt 0x80000000] = Some ''-2147483648''"
    using dig by (simp add: format_text_d)
  moreover have "cstr (put_str 0 ''-2147483648'' (\<lambda>_. NUL)) 0 ''-2147483648''"
    by (rule put_str_cstr) (simp add: NUL_def)
  ultimately have "atoi (put_str 0 ''-2147483648'' (\<lambda>_. NUL)) 0 = Some (sint (0x80000000 :: 32 word))"
    by (rule printf_atoi_roundtrip)
  then show ?thesis by simp
qed

end
