(* ===== verification/User_Qsort.thy ===== *)
theory User_Qsort
  imports Kern_Prelude "HOL-Library.Multiset"
begin

text \<open>
  The sorting routine of the user-level C library (\<^verbatim>\<open>userland/lib/libc/stdlib/qsort.c\<close>).

  The array is a list of its elements and a subarray passed to a recursive call is a part of
  that list.  The comparison function may fail: its assertions, like those of \<^verbatim>\<open>qsort\<close> itself,
  make the call not return.
\<close>

section \<open>The routine\<close>

definition qcompare :: "('a \<Rightarrow> 'a \<Rightarrow> int option) \<Rightarrow> 'a list \<Rightarrow> nat \<Rightarrow> nat \<Rightarrow> int option" where
  "qcompare f data aa bb = (if aa = bb then Some 0 else f (data ! aa) (data ! bb))"

definition qexchange :: "nat \<Rightarrow> nat \<Rightarrow> 'a list \<Rightarrow> 'a list" where
  "qexchange aa bb data = data[aa := data ! bb, bb := data ! aa]"

function qpartition ::
    "('a \<Rightarrow> 'a \<Rightarrow> int option) \<Rightarrow> nat \<Rightarrow> nat \<Rightarrow> nat \<Rightarrow> 'a list \<Rightarrow> (nat \<times> nat \<times> nat \<times> 'a list) option" where
  "qpartition f head tail pivot data =
     (if head < tail
      then do { c \<leftarrow> qcompare f data head pivot;
                if c \<le> 0 then qpartition f (head + 1) tail pivot data
                else do { c \<leftarrow> qcompare f data tail pivot;
                          if 0 < c then qpartition f head (tail - 1) pivot data
                          else qpartition f (head + 1) (tail - 1)
                                 (if pivot = head then tail else if pivot = tail then head else pivot)
                                 (qexchange head tail data) } }
      else Some (head, tail, pivot, data))"
  by pat_completeness auto
termination
  by (relation "measure (\<lambda>(f, head, tail, pivot, data). tail - head)") (auto split: if_splits)

declare qpartition.simps [simp del]

text \<open>The loop that passes over the values equal to the largest one at the end.\<close>

fun qlop :: "('a \<Rightarrow> 'a \<Rightarrow> int option) \<Rightarrow> 'a list \<Rightarrow> nat \<Rightarrow> nat option" where
  "qlop f data 0 = Some 0"
| "qlop f data (Suc tail) =
     do { c \<leftarrow> qcompare f data tail (Suc tail); if c = 0 then qlop f data tail else Some (Suc tail) }"

lemma length_qexchange [simp]: "length (qexchange a b xs) = length xs"
  by (simp add: qexchange_def)

lemma qpartition_length:
  "qpartition f head tail pivot data = Some (h, t, p, data') \<Longrightarrow> length data' = length data"
proof (induction f head tail pivot data rule: qpartition.induct)
  case (1 f head tail pivot data)
  show ?case
  proof (cases "head < tail")
    case False
    with 1(4) show ?thesis by (subst (asm) qpartition.simps) simp
  next
    case True
    with 1(4) obtain c where c: "qcompare f data head pivot = Some c"
      by (subst (asm) qpartition.simps) (auto simp: bind_eq_Some_conv)
    show ?thesis
    proof (cases "c \<le> 0")
      case le: True
      with True c 1(4) have "qpartition f (head + 1) tail pivot data = Some (h, t, p, data')"
        by (subst (asm) qpartition.simps) simp
      then show ?thesis by (rule 1(1) [OF True c le])
    next
      case gt: False
      with True c 1(4) obtain c2 where c2: "qcompare f data tail pivot = Some c2"
        by (subst (asm) qpartition.simps) (auto simp: bind_eq_Some_conv)
      show ?thesis
      proof (cases "0 < c2")
        case pos: True
        with True c gt c2 1(4) have "qpartition f head (tail - 1) pivot data = Some (h, t, p, data')"
          by (subst (asm) qpartition.simps) simp
        then show ?thesis by (rule 1(2) [OF True c gt c2 pos])
      next
        case neg: False
        with True c gt c2 1(4) have "qpartition f (head + 1) (tail - 1)
            (if pivot = head then tail else if pivot = tail then head else pivot)
            (qexchange head tail data) = Some (h, t, p, data')"
          by (subst (asm) qpartition.simps) simp
        then have "length data' = length (qexchange head tail data)"
          by (rule 1(3) [OF True c gt c2 neg])
        then show ?thesis by simp
      qed
    qed
  qed
qed

lemma qlop_le: "qlop f data n = Some t \<Longrightarrow> t \<le> n"
  by (induction f data n rule: qlop.induct) (auto simp: bind_eq_Some_conv split: if_splits)

definition qsort_order :: "('a \<Rightarrow> 'a \<Rightarrow> int option) \<Rightarrow> nat \<Rightarrow> 'a list \<Rightarrow> 'a list option" where
  "qsort_order f pivot data =
     (let num = length data in
      if pivot < num - 1
      then do { c \<leftarrow> qcompare f data pivot (num - 1);
                Some (if 0 < c then qexchange pivot (num - 1) data else data) }
      else Some data)"

lemma qsort_order_length: "qsort_order f p data = Some data' \<Longrightarrow> length data' = length data"
  by (auto simp: qsort_order_def Let_def bind_eq_Some_conv split: if_splits)

text \<open>Steps 1 to 3: the first index of the back portion, the pivot's index, and the array.\<close>

definition qsplit :: "('a \<Rightarrow> 'a \<Rightarrow> int option) \<Rightarrow> 'a list \<Rightarrow> (nat \<times> nat \<times> 'a list) option" where
  "qsplit f data =
     do { (head, tail, pivot, data) \<leftarrow> qpartition f 0 (length data - 1) (length data div 2) data;
          front \<leftarrow> (if tail < head then Some True
                   else do { c \<leftarrow> qcompare f data head pivot; Some (c \<le> 0) });
          Some (if front then tail + 1 else tail, pivot, data) }"

text \<open>The case of two elements in the wrong order.\<close>

definition qsort_pair :: "('a \<Rightarrow> 'a \<Rightarrow> int option) \<Rightarrow> 'a list \<Rightarrow> bool option" where
  "qsort_pair f data =
     (if length data = 2 then do { c \<leftarrow> qcompare f data 0 1; Some (0 < c) } else Some False)"

text \<open>Step 4: the largest value to the end, and how much of the array is left to sort.\<close>

definition qsort_max :: "('a \<Rightarrow> 'a \<Rightarrow> int option) \<Rightarrow> nat \<Rightarrow> 'a list \<Rightarrow> (nat \<times> 'a list) option" where
  "qsort_max f pivot data =
     do { data \<leftarrow> qsort_order f pivot data; tail \<leftarrow> qlop f data (length data - 1); Some (tail, data) }"

lemma qsplit_length: "qsplit f data = Some (t, p, data') \<Longrightarrow> length data' = length data"
  by (auto simp: qsplit_def bind_eq_Some_conv dest!: qpartition_length split: if_splits)

lemma qsort_max_length:
  "qsort_max f p data = Some (t, data') \<Longrightarrow> length data' = length data \<and> t \<le> length data - 1"
  by (auto simp: qsort_max_def bind_eq_Some_conv dest: qsort_order_length)
    (metis One_nat_def qlop_le qsort_order_length)

function qsort :: "('a \<Rightarrow> 'a \<Rightarrow> int option) \<Rightarrow> 'a list \<Rightarrow> 'a list option" where
  "qsort f xs =
     (if length xs \<le> 1 then Some xs
      else case qsort_pair f xs of
        None \<Rightarrow> None
      | Some True \<Rightarrow> Some (qexchange 0 1 xs)
      | Some False \<Rightarrow>
          (case qsplit f xs of
             None \<Rightarrow> None
           | Some (tail, pivot, ys) \<Rightarrow>
               if tail = length xs
               then case qsort_max f pivot ys of
                      None \<Rightarrow> None
                    | Some (tail, zs) \<Rightarrow>
                        if 0 < tail then map_option (\<lambda>us. us @ drop tail zs) (qsort f (take tail zs))
                        else Some zs
               else if 0 < tail \<and> tail < length xs
               then case qsort f (take tail ys) of
                      None \<Rightarrow> None
                    | Some front \<Rightarrow> map_option (\<lambda>back. front @ back) (qsort f (drop tail ys))
               else None))"
  by pat_completeness auto
termination
proof (relation "measure (\<lambda>(f, data). length data)")
qed (auto dest!: qsplit_length qsort_max_length)

declare qsort.simps [simp del]

section \<open>Correctness for a total preorder\<close>

lemma mset_qexchange: "a < length xs \<Longrightarrow> b < length xs \<Longrightarrow> mset (qexchange a b xs) = mset xs"
  unfolding qexchange_def using mset_swap [of b xs a] by (cases "a = b") (simp_all add: list_update_swap)

lemma nth_qexchange:
  "a < length xs \<Longrightarrow> b < length xs \<Longrightarrow> i < length xs \<Longrightarrow>
   qexchange a b xs ! i = (if i = a then xs ! b else if i = b then xs ! a else xs ! i)"
  by (auto simp: qexchange_def nth_list_update)

lemma sorted_wrt_all: "(\<And>x y. x \<in> set xs \<Longrightarrow> y \<in> set xs \<Longrightarrow> P x y) \<Longrightarrow> sorted_wrt P xs"
  by (induction xs) auto

text \<open>
  The order the comparison function stands for.  The function itself may be undefined on some
  pairs; \<open>defined_on\<close> says that it answers for any two elements at different places.
\<close>

definition defined_on :: "('a \<Rightarrow> 'a \<Rightarrow> int option) \<Rightarrow> ('a \<Rightarrow> 'a \<Rightarrow> int) \<Rightarrow> 'a multiset \<Rightarrow> bool" where
  "defined_on f g M \<longleftrightarrow> (\<forall>x y. {#x, y#} \<subseteq># M \<longrightarrow> f x y = Some (g x y))"

lemma defined_on_subset: "defined_on f g M \<Longrightarrow> N \<subseteq># M \<Longrightarrow> defined_on f g N"
  by (auto simp: defined_on_def dest: subset_mset.trans)

lemma pair_subset:
  assumes "i < length xs" "j < length xs" "i \<noteq> j"
  shows "{#xs ! i, xs ! j#} \<subseteq># mset xs"
proof -
  have *: "{#xs ! i, xs ! j#} \<subseteq># mset xs" if "i < j" "j < length xs" for i j
  proof -
    have xs: "xs = take j xs @ xs ! j # drop (Suc j) xs" using that by (simp add: id_take_nth_drop)
    have "xs ! i = take j xs ! i" "i < length (take j xs)" using that by simp_all
    then have "xs ! i \<in> set (take j xs)" by (metis nth_mem)
    then obtain us vs where "take j xs = us @ xs ! i # vs" by (meson split_list)
    then have "mset xs = {#xs ! i, xs ! j#} + (mset us + mset vs + mset (drop (Suc j) xs))"
      using arg_cong [OF xs, of mset] by simp
    then show ?thesis by (metis mset_subset_eq_add_left)
  qed
  show ?thesis using assms * [of i j] * [of j i] by (cases "i < j") (auto simp: add_mset_commute)
qed

locale comparator =
  fixes f :: "'a \<Rightarrow> 'a \<Rightarrow> int option" and g :: "'a \<Rightarrow> 'a \<Rightarrow> int"
  assumes sym: "0 < g x y \<longleftrightarrow> g y x < 0"
    and trans: "g x y \<le> 0 \<Longrightarrow> g y z \<le> 0 \<Longrightarrow> g x z \<le> 0"
begin

lemma refl: "g x x = 0"
  using sym [of x x] by linarith

lemma total: "g x y \<le> 0 \<or> g y x \<le> 0"
  using sym [of x y] by linarith

lemma qcompare_eq:
  assumes "defined_on f g (mset xs)" "i < length xs" "j < length xs"
  shows "qcompare f xs i j = Some (g (xs ! i) (xs ! j))"
  using assms pair_subset [OF assms(2,3)] by (auto simp: qcompare_def refl defined_on_def)

text \<open>The two loop ends of the partition: what is in front is at most the pivot, what is behind is above.\<close>

definition part_inv :: "nat \<Rightarrow> nat \<Rightarrow> nat \<Rightarrow> 'a \<Rightarrow> 'a list \<Rightarrow> bool" where
  "part_inv head tail pivot pv xs \<longleftrightarrow> head \<le> Suc tail \<and> tail < length xs \<and> pivot < length xs \<and>
     xs ! pivot = pv \<and> (\<forall>i < head. g (xs ! i) pv \<le> 0) \<and>
     (\<forall>i. tail < i \<and> i < length xs \<longrightarrow> 0 < g (xs ! i) pv)"

lemma part_inv_exchange:
  assumes inv: "part_inv head tail pivot pv xs" and "head < tail"
    and "0 < g (xs ! head) pv" "g (xs ! tail) pv \<le> 0"
  shows "part_inv (head + 1) (tail - 1)
     (if pivot = head then tail else if pivot = tail then head else pivot) pv (qexchange head tail xs)"
  using assms unfolding part_inv_def
  by (auto simp: nth_qexchange less_Suc_eq)

lemma qpartition_inv:
  assumes "defined_on f g (mset xs)" "part_inv head tail pivot pv xs"
  shows "\<exists>h t p ys. qpartition f head tail pivot xs = Some (h, t, p, ys) \<and> part_inv h t p pv ys \<and>
     t \<le> h \<and> mset ys = mset xs"
  using assms
proof (induction "tail - head" arbitrary: head tail pivot xs rule: less_induct)
  case less
  note inv = less.prems(2)
  have pv: "xs ! pivot = pv" "pivot < length xs" "tail < length xs" "head \<le> Suc tail"
    using inv by (simp_all add: part_inv_def)
  show ?case
  proof (cases "head < tail")
    case False
    with inv show ?thesis by (subst qpartition.simps) simp
  next
    case True
    have c: "qcompare f xs head pivot = Some (g (xs ! head) pv)"
      using qcompare_eq [OF less.prems(1), of head pivot] pv True by simp
    have c2: "qcompare f xs tail pivot = Some (g (xs ! tail) pv)"
      using qcompare_eq [OF less.prems(1), of tail pivot] pv by simp
    consider (up) "g (xs ! head) pv \<le> 0" | (down) "0 < g (xs ! head) pv" "0 < g (xs ! tail) pv"
      | (swap) "0 < g (xs ! head) pv" "g (xs ! tail) pv \<le> 0" by linarith
    then show ?thesis
    proof cases
      case up
      have "part_inv (head + 1) tail pivot pv xs"
        using inv up True by (auto simp: part_inv_def less_Suc_eq)
      from less.hyps [OF _ less.prems(1) this] True c up show ?thesis
        by (subst qpartition.simps) auto
    next
      case down
      have "part_inv head (tail - 1) pivot pv xs"
        using inv down True by (auto simp: part_inv_def) (metis Suc_pred less_antisym not_less_eq
            less_nat_zero_code gr0I)
      from less.hyps [OF _ less.prems(1) this] True c c2 down show ?thesis
        by (subst qpartition.simps) auto
    next
      case swap
      let ?ys = "qexchange head tail xs"
      have m: "mset ?ys = mset xs" using True pv by (intro mset_qexchange) auto
      then have "defined_on f g (mset ?ys)" using less.prems(1) by simp
      from less.hyps [OF _ this part_inv_exchange [OF inv True swap]] True c c2 swap m show ?thesis
        by (subst qpartition.simps) auto
    qed
  qed
qed

lemma qsplit_correct:
  assumes "defined_on f g (mset xs)" "2 \<le> length xs"
  obtains t p ys where "qsplit f xs = Some (t, p, ys)" "mset ys = mset xs" "p < t" "t \<le> length xs"
    "\<forall>i < t. g (ys ! i) (ys ! p) \<le> 0" "\<forall>i. t \<le> i \<and> i < length ys \<longrightarrow> 0 < g (ys ! i) (ys ! p)"
proof -
  let ?n = "length xs"
  have "part_inv 0 (?n - 1) (?n div 2) (xs ! (?n div 2)) xs"
    using assms(2) by (auto simp: part_inv_def)
  from qpartition_inv [OF assms(1) this] obtain h t p ys where
    q: "qpartition f 0 (?n - 1) (?n div 2) xs = Some (h, t, p, ys)"
      "part_inv h t p (xs ! (?n div 2)) ys" "t \<le> h" "mset ys = mset xs" by blast
  have len: "length ys = ?n" using mset_eq_length [OF q(4)] .
  have inv: "h \<le> Suc t" "t < ?n" "p < ?n" "\<forall>i < h. g (ys ! i) (ys ! p) \<le> 0"
    "\<forall>i. t < i \<and> i < ?n \<longrightarrow> 0 < g (ys ! i) (ys ! p)"
    using q(2) len by (auto simp: part_inv_def)
  have p_front: "\<not> (t < p)" using inv(3,5) refl [of "ys ! p"] by auto
  show thesis
  proof (cases "t < h")
    case True
    then have "h = Suc t" using inv(1) by simp
    with q inv True p_front len show ?thesis
      by (intro that [of "t + 1" p ys]) (auto simp: qsplit_def Suc_le_eq)
  next
    case False
    then have h: "h = t" using q(3) by simp
    have c: "qcompare f ys h p = Some (g (ys ! t) (ys ! p))"
      using qcompare_eq [of ys h p] assms(1) q(4) inv h len by simp
    show ?thesis
    proof (cases "g (ys ! t) (ys ! p) \<le> 0")
      case True
      with q inv h c p_front len show ?thesis
        by (intro that [of "t + 1" p ys]) (auto simp: qsplit_def less_Suc_eq)
    next
      case gt: False
      then have "p \<noteq> t" using refl [of "ys ! p"] by auto
      with q inv h c p_front len gt show ?thesis
        by (intro that [of t p ys]) (auto simp: qsplit_def le_less)
    qed
  qed
qed

lemma qlop_correct:
  assumes "defined_on f g (mset xs)" "k < length xs"
  shows "\<exists>t. qlop f xs k = Some t \<and> t \<le> k \<and> (\<forall>i. t \<le> i \<and> i \<le> k \<longrightarrow> g (xs ! k) (xs ! i) \<le> 0)"
  using assms(2)
proof (induction k)
  case 0
  then show ?case by (simp add: refl)
next
  case (Suc k)
  have c: "qcompare f xs k (Suc k) = Some (g (xs ! k) (xs ! Suc k))"
    using qcompare_eq [OF assms(1), of k "Suc k"] Suc.prems by simp
  show ?case
  proof (cases "g (xs ! k) (xs ! Suc k) = 0")
    case True
    then have eq: "g (xs ! Suc k) (xs ! k) \<le> 0" using sym [of "xs ! Suc k" "xs ! k"] by linarith
    from Suc obtain t where t: "qlop f xs k = Some t" "t \<le> k"
      "\<forall>i. t \<le> i \<and> i \<le> k \<longrightarrow> g (xs ! k) (xs ! i) \<le> 0" by auto
    have "g (xs ! Suc k) (xs ! i) \<le> 0" if "t \<le> i" "i \<le> Suc k" for i
      using t(3) trans [OF eq] that refl by (cases "i = Suc k") auto
    with t True c show ?thesis by auto
  next
    case False
    with c show ?thesis by (auto simp: le_antisym refl)
  qed
qed

lemma qsort_max_correct:
  assumes def: "defined_on f g (mset xs)" and p: "p < length xs"
    and le: "\<forall>i < length xs. g (xs ! i) (xs ! p) \<le> 0"
  obtains t ys where "qsort_max f p xs = Some (t, ys)" "mset ys = mset xs" "t < length xs"
    "\<forall>i < length xs. \<forall>j. t \<le> j \<and> j < length xs \<longrightarrow> g (ys ! i) (ys ! j) \<le> 0"
proof -
  let ?l = "length xs - 1"
  have l: "?l < length xs" using p by simp
  obtain ys where ys: "qsort_order f p xs = Some ys" "mset ys = mset xs"
    "\<forall>i < length xs. g (ys ! i) (ys ! ?l) \<le> 0"
  proof (cases "p < ?l \<and> 0 < g (xs ! p) (xs ! ?l)")
    case True
    then have "qsort_order f p xs = Some (qexchange p ?l xs)"
      using qcompare_eq [OF def p l] by (simp add: qsort_order_def Let_def)
    moreover have "\<forall>i < length xs. g (qexchange p ?l xs ! i) (qexchange p ?l xs ! ?l) \<le> 0"
      using le p l by (auto simp: nth_qexchange)
    ultimately show thesis using that mset_qexchange [OF p l] by blast
  next
    case False
    then have "qsort_order f p xs = Some xs"
      using qcompare_eq [OF def p l] by (auto simp: qsort_order_def Let_def)
    moreover have "g (xs ! p) (xs ! ?l) \<le> 0"
    proof (cases "p < ?l")
      case True
      then show ?thesis using False by simp
    next
      case False
      then have "p = ?l" using p by simp
      then show ?thesis by (simp add: refl)
    qed
    then have "\<forall>i < length xs. g (xs ! i) (xs ! ?l) \<le> 0" using le trans by blast
    ultimately show thesis using that by blast
  qed
  have len: "length ys = length xs" using mset_eq_length [OF ys(2)] .
  from qlop_correct [of ys ?l] def ys(2) l len obtain t where
    t: "qlop f ys ?l = Some t" "t \<le> ?l" "\<forall>i. t \<le> i \<and> i \<le> ?l \<longrightarrow> g (ys ! ?l) (ys ! i) \<le> 0" by auto
  have "g (ys ! i) (ys ! j) \<le> 0" if "i < length xs" "t \<le> j" "j < length xs" for i j
    by (rule trans [of _ "ys ! ?l"]) (use ys(3) t(3) that in auto)
  with ys t l len show thesis by (intro that [of t ys]) (auto simp: qsort_max_def)
qed

lemma qsort_correct:
  assumes "defined_on f g (mset xs)"
  shows "\<exists>ys. qsort f xs = Some ys \<and> mset ys = mset xs \<and> sorted_wrt (\<lambda>x y. g x y \<le> 0) ys"
  using assms
proof (induction "length xs" arbitrary: xs rule: less_induct)
  case less
  note def = less.prems
  show ?case
  proof (cases "length xs \<le> 1")
    case True
    then have "xs = [] \<or> (\<exists>x. xs = [x])" by (cases xs) auto
    then show ?thesis by (subst qsort.simps) auto
  next
    case False
    then have two: "2 \<le> length xs" by simp
    show ?thesis
    proof (cases "length xs = 2 \<and> 0 < g (xs ! 0) (xs ! 1)")
      case True
      then have "qsort_pair f xs = Some True"
        using qcompare_eq [OF def, of 0 1] by (simp add: qsort_pair_def)
      moreover from True obtain a b where "xs = [a, b]" by (auto simp: numeral_2_eq_2 length_Suc_conv)
      ultimately show ?thesis using True sym [of a b]
        by (subst qsort.simps) (auto simp: qexchange_def)
    next
      case no_pair: False
      have pair: "qsort_pair f xs = Some False"
        using qcompare_eq [OF def, of 0 1] no_pair two
        by (cases "length xs = 2") (simp_all add: qsort_pair_def)
      obtain t p ys where q: "qsplit f xs = Some (t, p, ys)" "mset ys = mset xs" "p < t"
        "t \<le> length xs" "\<forall>i < t. g (ys ! i) (ys ! p) \<le> 0"
        "\<forall>i. t \<le> i \<and> i < length ys \<longrightarrow> 0 < g (ys ! i) (ys ! p)"
        using qsplit_correct [OF def two] by blast
      have len: "length ys = length xs" using mset_eq_length [OF q(2)] .
      have defy: "defined_on f g (mset ys)" using def q(2) by simp
      have part: "\<exists>us. qsort f us' = Some us \<and> mset us = mset us' \<and> sorted_wrt (\<lambda>x y. g x y \<le> 0) us"
        if "mset us' \<subseteq># mset xs" "length us' < length xs" for us'
        using less.hyps [OF that(2) defined_on_subset [OF def that(1)]] .
      show ?thesis
      proof (cases "t = length xs")
        case True
        then obtain k zs where z: "qsort_max f p ys = Some (k, zs)" "mset zs = mset ys" "k < length ys"
          "\<forall>i < length ys. \<forall>j. k \<le> j \<and> j < length ys \<longrightarrow> g (zs ! i) (zs ! j) \<le> 0"
          using qsort_max_correct [OF defy, of p] q len by auto
        have cross: "g x y \<le> 0" if "x \<in> set zs" "y \<in> set (drop k zs)" for x y
        proof -
          have lz: "length zs = length ys" using mset_eq_length [OF z(2)] .
          from that(1) obtain i where "x = zs ! i" "i < length ys" by (metis in_set_conv_nth lz)
          moreover from that(2) obtain j where "y = drop k zs ! j" "j < length (drop k zs)"
            by (metis in_set_conv_nth)
          then have "y = zs ! (k + j)" "k \<le> k + j" "k + j < length ys" using lz by simp_all
          ultimately show ?thesis using z(4) by blast
        qed
        have sub: "set (take k zs) \<subseteq> set zs" "set (drop k zs) \<subseteq> set zs"
          by (rule set_take_subset, rule set_drop_subset)
        have rest: "sorted_wrt (\<lambda>x y. g x y \<le> 0) (drop k zs)"
          using cross sub by (intro sorted_wrt_all) blast
        have split: "mset (take k zs) + mset (drop k zs) = mset zs"
          by (metis append_take_drop_id mset_append)
        then obtain us where us: "qsort f (take k zs) = Some us" "mset us = mset (take k zs)"
          "sorted_wrt (\<lambda>x y. g x y \<le> 0) us"
          using part [of "take k zs"] z(2,3) q(2) len by (metis length_take min.strict_coboundedI2
              mset_subset_eq_add_left)
        have "sorted_wrt (\<lambda>x y. g x y \<le> 0) (us @ drop k zs)"
          using us(3) rest cross sub mset_eq_setD [OF us(2)] by (auto simp: sorted_wrt_append)
        moreover have "mset (us @ drop k zs) = mset xs" using us(2) split z(2) q(2) by simp
        ultimately show ?thesis using us pair q(1) z(1) True False
          by (subst qsort.simps) auto
      next
        case tl: False
        then have t: "0 < t" "t < length xs" using q(3,4) by simp_all
        have split: "mset (take t ys) + mset (drop t ys) = mset xs"
          by (metis append_take_drop_id mset_append q(2))
        have lens: "length (take t ys) < length xs" "length (drop t ys) < length xs" using t len by simp_all
        obtain us where us: "qsort f (take t ys) = Some us" "mset us = mset (take t ys)"
          "sorted_wrt (\<lambda>x y. g x y \<le> 0) us"
          using part [of "take t ys"] lens(1) split by (metis mset_subset_eq_add_left)
        obtain vs where vs: "qsort f (drop t ys) = Some vs" "mset vs = mset (drop t ys)"
          "sorted_wrt (\<lambda>x y. g x y \<le> 0) vs"
          using part [of "drop t ys"] lens(2) split by (metis mset_subset_eq_add_right)
        have "g x y \<le> 0" if "x \<in> set (take t ys)" "y \<in> set (drop t ys)" for x y
        proof -
          from that(1) obtain i where "x = ys ! i" "i < t" by (auto simp: in_set_conv_nth)
          then have "g x (ys ! p) \<le> 0" using q(5) by simp
          moreover from that(2) obtain j where "y = ys ! (t + j)" "t + j < length ys"
            by (auto simp: in_set_conv_nth)
          then have "g (ys ! p) y \<le> 0" using q(6) sym [of y "ys ! p"] by fastforce
          ultimately show ?thesis by (rule trans)
        qed
        then have "sorted_wrt (\<lambda>x y. g x y \<le> 0) (us @ vs)"
          using us(3) vs(3) mset_eq_setD [OF us(2)] mset_eq_setD [OF vs(2)]
          by (auto simp: sorted_wrt_append)
        moreover have "mset (us @ vs) = mset xs" using us(2) vs(2) split by simp
        ultimately show ?thesis using us vs pair q(1) t False tl
          by (subst qsort.simps) auto
      qed
    qed
  qed
qed

end

section \<open>Properties\<close>

text \<open>C22. For a comparison function that answers, on any two elements at different places of the array,
  as a total preorder does, \<^verbatim>\<open>qsort\<close> returns: its recursion ends and its assertion holds.  The result
  is a permutation of the array in ascending order.\<close>

theorem qsort_sorts:
  assumes "\<And>x y. 0 < g x y \<longleftrightarrow> g y x < 0" "\<And>x y z. g x y \<le> 0 \<Longrightarrow> g y z \<le> 0 \<Longrightarrow> g x z \<le> 0"
    and "defined_on f g (mset xs)"
  shows "\<exists>ys. qsort f xs = Some ys \<and> mset ys = mset xs \<and> sorted_wrt (\<lambda>x y. g x y \<le> 0) ys"
  by (rule comparator.qsort_correct [OF comparator.intro]) (use assms in auto)

theorem qsort_sorts_witness:
  "\<exists>ys. qsort (\<lambda>x y. Some (x - y)) [3, 1, 2, 1 :: int] = Some ys \<and> mset ys = {#1, 1, 2, 3#} \<and>
     sorted_wrt (\<lambda>x y. x - y \<le> 0) ys"
  using qsort_sorts [of "\<lambda>x y :: int. x - y" "\<lambda>x y. Some (x - y)" "[3, 1, 2, 1]"]
  by (simp add: defined_on_def add_mset_commute)

end
