(* ===== verification/Sfs_Format.thy ===== *)
theory Sfs_Format
  imports Kern_Prelude
begin

text \<open>
  The on-disk format of SFS (\<^verbatim>\<open>kern/include/kern/sfs.h\<close>) as the kernel and the tools share it.

  A disk is a list of blocks of \<^verbatim>\<open>SFS_BLOCKSIZE\<close> bytes.  The structures of
  the header are records whose integer fields are naturals, with functions that lay them out
  as bytes, most significant byte first: the byte order of the machine, and of \<^verbatim>\<open>SWAP16\<close> and
  \<^verbatim>\<open>SWAP32\<close> where a tool runs on another one.
\<close>

section \<open>Bytes\<close>

type_synonym byte = "8 word"
type_synonym block = "byte list"

definition SFS_MAGIC :: nat where "SFS_MAGIC = 0xabadf001"
definition SFS_BLOCKSIZE :: nat where "SFS_BLOCKSIZE = 512"
definition SFS_VOLNAME_SIZE :: nat where "SFS_VOLNAME_SIZE = 32"
definition SFS_NDIRECT :: nat where "SFS_NDIRECT = 15"
definition SFS_DBPERIDB :: nat where "SFS_DBPERIDB = 128"
definition SFS_NAMELEN :: nat where "SFS_NAMELEN = 60"
definition SFS_SUPER_BLOCK :: nat where "SFS_SUPER_BLOCK = 0"
definition SFS_FREEMAP_START :: nat where "SFS_FREEMAP_START = 2"
definition SFS_NOINO :: nat where "SFS_NOINO = 0"
definition SFS_ROOTDIR_INO :: nat where "SFS_ROOTDIR_INO = 1"
definition SFS_BITSPERBLOCK :: nat where "SFS_BITSPERBLOCK = SFS_BLOCKSIZE * 8"
definition SFS_TYPE_INVAL :: nat where "SFS_TYPE_INVAL = 0"
definition SFS_TYPE_FILE :: nat where "SFS_TYPE_FILE = 1"
definition SFS_TYPE_DIR :: nat where "SFS_TYPE_DIR = 2"

definition SFS_ROUNDUP :: "nat \<Rightarrow> nat \<Rightarrow> nat" where
  "SFS_ROUNDUP a b = u32 (u32 (a + b - 1) div b * b)"

definition SFS_FREEMAPBITS :: "nat \<Rightarrow> nat" where
  "SFS_FREEMAPBITS nblocks = SFS_ROUNDUP nblocks SFS_BITSPERBLOCK"

definition SFS_FREEMAPBLOCKS :: "nat \<Rightarrow> nat" where
  "SFS_FREEMAPBLOCKS nblocks = SFS_FREEMAPBITS nblocks div SFS_BITSPERBLOCK"

lemmas sfs_consts = SFS_MAGIC_def SFS_BLOCKSIZE_def SFS_VOLNAME_SIZE_def SFS_NDIRECT_def
  SFS_DBPERIDB_def SFS_NAMELEN_def SFS_SUPER_BLOCK_def SFS_FREEMAP_START_def SFS_NOINO_def
  SFS_ROOTDIR_INO_def SFS_BITSPERBLOCK_def SFS_TYPE_INVAL_def SFS_TYPE_FILE_def SFS_TYPE_DIR_def

text \<open>Integers of \<open>k\<close> bytes, big-endian.\<close>

primrec enc_uint :: "nat \<Rightarrow> nat \<Rightarrow> byte list" where
  "enc_uint 0 n = []"
| "enc_uint (Suc k) n = enc_uint k (n div 256) @ [of_nat (n mod 256)]"

definition dec_uint :: "byte list \<Rightarrow> nat" where
  "dec_uint bs = foldl (\<lambda>n b. n * 256 + unat b) 0 bs"

lemma length_enc_uint [simp]: "length (enc_uint k n) = k"
  by (induction k arbitrary: n) simp_all

lemma unat_of_mod [simp]: "unat (of_nat (n mod 256) :: byte) = n mod 256"
  by (simp add: unat_of_nat)

lemma dec_uint_snoc [simp]: "dec_uint (bs @ [b]) = dec_uint bs * 256 + unat b"
  by (simp add: dec_uint_def)

lemma dec_uint_Nil [simp]: "dec_uint [] = 0"
  by (simp add: dec_uint_def)

lemma dec_enc_uint: "n < 256 ^ k \<Longrightarrow> dec_uint (enc_uint k n) = n"
proof (induction k arbitrary: n)
  case 0
  then show ?case by simp
next
  case (Suc k)
  then have "n div 256 < 256 ^ k" by (simp add: less_mult_imp_div_less mult.commute)
  with Suc.IH show ?case by simp
qed

lemma dec_uint_bound: "dec_uint bs < 256 ^ length bs"
proof (induction bs rule: rev_induct)
  case Nil
  then show ?case by simp
next
  case (snoc b bs)
  have "unat b < 256" using unsigned_less [of b, where 'a = nat] by simp
  with snoc show ?case by simp
qed

lemma enc_dec_uint: "enc_uint (length bs) (dec_uint bs) = bs"
proof (induction bs rule: rev_induct)
  case Nil
  then show ?case by simp
next
  case (snoc b bs)
  have "unat b < 256" using unsigned_less [of b, where 'a = nat] by simp
  with snoc show ?case by simp
qed

text \<open>Arrays of integers of \<open>k\<close> bytes.\<close>

definition enc_array :: "nat \<Rightarrow> nat list \<Rightarrow> byte list" where
  "enc_array k xs = concat (map (enc_uint k) xs)"

primrec dec_array :: "nat \<Rightarrow> nat \<Rightarrow> byte list \<Rightarrow> nat list" where
  "dec_array k 0 bs = []"
| "dec_array k (Suc n) bs = dec_uint (take k bs) # dec_array k n (drop k bs)"

lemma length_enc_array [simp]: "length (enc_array k xs) = k * length xs"
  by (induction xs) (simp_all add: enc_array_def)

lemma length_dec_array [simp]: "length (dec_array k n bs) = n"
  by (induction n arbitrary: bs) simp_all

lemma dec_enc_array:
  "\<forall>x \<in> set xs. x < 256 ^ k \<Longrightarrow> dec_array k (length xs) (enc_array k xs @ rest) = xs"
proof (induction xs arbitrary: rest)
  case Nil
  then show ?case by simp
next
  case (Cons x xs)
  have "enc_array k (x # xs) @ rest = enc_uint k x @ (enc_array k xs @ rest)"
    by (simp add: enc_array_def)
  with Cons show ?case by (simp add: dec_enc_uint)
qed

lemma enc_dec_array: "length bs = k * n \<Longrightarrow> enc_array k (dec_array k n bs) = bs"
proof (induction n arbitrary: bs)
  case 0
  then show ?case by (simp add: enc_array_def)
next
  case (Suc n)
  then have "length (take k bs) = k" "length (drop k bs) = k * n" by simp_all
  with Suc.IH [of "drop k bs"] enc_dec_uint [of "take k bs"] show ?case
    by (simp add: enc_array_def)
qed

lemma dec_array_bound: "k * n \<le> length bs \<Longrightarrow> \<forall>x \<in> set (dec_array k n bs). x < 256 ^ k"
proof (induction n arbitrary: bs)
  case (Suc n)
  then have "length (take k bs) = k" by simp
  then have "dec_uint (take k bs) < 256 ^ k" using dec_uint_bound [of "take k bs"] by simp
  with Suc.IH [of "drop k bs"] Suc.prems show ?case by simp
qed simp

lemma dec_array_take: "dec_array k n (take (k * n) bs) = dec_array k n bs"
  by (induction n arbitrary: bs) (simp_all add: min_def drop_take)

lemma take_drop_split: "take n (drop i b) @ drop (i + n) b = drop i b"
  by (metis add.commute append_take_drop_id drop_drop)

section \<open>The structures\<close>

record sfs_superblock =
  sb_magic :: nat
  sb_nblocks :: nat
  sb_volname :: "byte list"
  sb_reserved :: "nat list"

record sfs_dinode =
  sfi_size :: nat
  sfi_type :: nat
  sfi_linkcount :: nat
  sfi_direct :: "nat list"
  sfi_indirect :: nat
  sfi_waste :: "nat list"

record sfs_direntry =
  sfd_ino :: nat
  sfd_name :: "byte list"

definition sb_ok :: "sfs_superblock \<Rightarrow> bool" where
  "sb_ok sb \<longleftrightarrow> sb_magic sb < 2 ^ 32 \<and> sb_nblocks sb < 2 ^ 32 \<and>
     length (sb_volname sb) = SFS_VOLNAME_SIZE \<and> length (sb_reserved sb) = 118 \<and>
     (\<forall>x \<in> set (sb_reserved sb). x < 2 ^ 32)"

definition dinode_ok :: "sfs_dinode \<Rightarrow> bool" where
  "dinode_ok sfi \<longleftrightarrow> sfi_size sfi < 2 ^ 32 \<and> sfi_type sfi < 2 ^ 16 \<and> sfi_linkcount sfi < 2 ^ 16 \<and>
     length (sfi_direct sfi) = SFS_NDIRECT \<and> (\<forall>x \<in> set (sfi_direct sfi). x < 2 ^ 32) \<and>
     sfi_indirect sfi < 2 ^ 32 \<and>
     length (sfi_waste sfi) = 128 - 3 - SFS_NDIRECT \<and> (\<forall>x \<in> set (sfi_waste sfi). x < 2 ^ 32)"

definition direntry_ok :: "sfs_direntry \<Rightarrow> bool" where
  "direntry_ok sfd \<longleftrightarrow> sfd_ino sfd < 2 ^ 32 \<and> length (sfd_name sfd) = SFS_NAMELEN"

definition enc_superblock :: "sfs_superblock \<Rightarrow> block" where
  "enc_superblock sb =
     enc_uint 4 (sb_magic sb) @ enc_uint 4 (sb_nblocks sb) @ sb_volname sb @ enc_array 4 (sb_reserved sb)"

definition dec_superblock :: "block \<Rightarrow> sfs_superblock" where
  "dec_superblock b =
     \<lparr>sb_magic = dec_uint (take 4 b), sb_nblocks = dec_uint (take 4 (drop 4 b)),
      sb_volname = take SFS_VOLNAME_SIZE (drop 8 b),
      sb_reserved = dec_array 4 118 (drop (8 + SFS_VOLNAME_SIZE) b)\<rparr>"

definition enc_dinode :: "sfs_dinode \<Rightarrow> block" where
  "enc_dinode sfi =
     enc_uint 4 (sfi_size sfi) @ enc_uint 2 (sfi_type sfi) @ enc_uint 2 (sfi_linkcount sfi) @
     enc_array 4 (sfi_direct sfi) @ enc_uint 4 (sfi_indirect sfi) @ enc_array 4 (sfi_waste sfi)"

definition dec_dinode :: "block \<Rightarrow> sfs_dinode" where
  "dec_dinode b =
     \<lparr>sfi_size = dec_uint (take 4 b), sfi_type = dec_uint (take 2 (drop 4 b)),
      sfi_linkcount = dec_uint (take 2 (drop 6 b)), sfi_direct = dec_array 4 SFS_NDIRECT (drop 8 b),
      sfi_indirect = dec_uint (take 4 (drop (8 + 4 * SFS_NDIRECT) b)),
      sfi_waste = dec_array 4 (128 - 3 - SFS_NDIRECT) (drop (12 + 4 * SFS_NDIRECT) b)\<rparr>"

definition enc_direntry :: "sfs_direntry \<Rightarrow> byte list" where
  "enc_direntry sfd = enc_uint 4 (sfd_ino sfd) @ sfd_name sfd"

definition dec_direntry :: "byte list \<Rightarrow> sfs_direntry" where
  "dec_direntry b = \<lparr>sfd_ino = dec_uint (take 4 b), sfd_name = take SFS_NAMELEN (drop 4 b)\<rparr>"

text \<open>A block of directory entries.\<close>

definition DIRENTRY_SIZE :: nat where "DIRENTRY_SIZE = 4 + SFS_NAMELEN"

definition enc_dirblock :: "sfs_direntry list \<Rightarrow> block" where
  "enc_dirblock ds = concat (map enc_direntry ds)"

primrec dec_dirblock :: "nat \<Rightarrow> byte list \<Rightarrow> sfs_direntry list" where
  "dec_dirblock 0 b = []"
| "dec_dirblock (Suc n) b = dec_direntry (take DIRENTRY_SIZE b) # dec_dirblock n (drop DIRENTRY_SIZE b)"

subsection \<open>Round trips\<close>

lemma dec_enc_superblock: "sb_ok sb \<Longrightarrow> dec_superblock (enc_superblock sb) = sb"
  using dec_enc_array [of "sb_reserved sb" 4 "[]"]
  by (simp add: sb_ok_def dec_superblock_def enc_superblock_def dec_enc_uint sfs_consts)

lemma dec_enc_dinode: "dinode_ok sfi \<Longrightarrow> dec_dinode (enc_dinode sfi) = sfi"
  using dec_enc_array [of "sfi_waste sfi" 4 "[]"]
    dec_enc_array [of "sfi_direct sfi" 4 "enc_uint 4 (sfi_indirect sfi) @ enc_array 4 (sfi_waste sfi)"]
  by (simp add: dinode_ok_def dec_dinode_def enc_dinode_def dec_enc_uint sfs_consts)

lemma dec_enc_direntry: "direntry_ok sfd \<Longrightarrow> dec_direntry (enc_direntry sfd) = sfd"
  by (simp add: direntry_ok_def dec_direntry_def enc_direntry_def dec_enc_uint)

lemma length_enc_direntry: "direntry_ok sfd \<Longrightarrow> length (enc_direntry sfd) = DIRENTRY_SIZE"
  by (simp add: direntry_ok_def enc_direntry_def DIRENTRY_SIZE_def)

lemma dec_enc_dirblock:
  "\<forall>d \<in> set ds. direntry_ok d \<Longrightarrow> dec_dirblock (length ds) (enc_dirblock ds) = ds"
  by (induction ds) (simp_all add: enc_dirblock_def dec_enc_direntry length_enc_direntry)

lemma length_enc_blocks:
  "sb_ok sb \<Longrightarrow> length (enc_superblock sb) = SFS_BLOCKSIZE"
  "dinode_ok sfi \<Longrightarrow> length (enc_dinode sfi) = SFS_BLOCKSIZE"
  by (simp_all add: sb_ok_def dinode_ok_def enc_superblock_def enc_dinode_def sfs_consts)

lemma dec_dinode_ok: "length b = SFS_BLOCKSIZE \<Longrightarrow> dinode_ok (dec_dinode b)"
  using dec_uint_bound [of "take 4 b"] dec_uint_bound [of "take 2 (drop 4 b)"]
    dec_uint_bound [of "take 2 (drop 6 b)"] dec_uint_bound [of "take 4 (drop 68 b)"]
    dec_array_bound [of 4 15 "drop 8 b"] dec_array_bound [of 4 110 "drop 72 b"]
  by (simp add: dinode_ok_def dec_dinode_def sfs_consts)

lemma enc_dec_dinode:
  assumes "length b = SFS_BLOCKSIZE"
  shows "enc_dinode (dec_dinode b) = b"
proof -
  have len: "length b = 512" using assms by (simp add: sfs_consts)
  have d: "enc_array 4 (dec_array 4 15 (drop 8 b)) = take 60 (drop 8 b)"
    using enc_dec_array [of "take 60 (drop 8 b)" 4 15] dec_array_take [of 4 15 "drop 8 b"] len by simp
  have w: "enc_array 4 (dec_array 4 110 (drop 72 b)) = drop 72 b"
    using enc_dec_array [of "drop 72 b" 4 110] len by simp
  have u: "enc_uint 4 (dec_uint (take 4 b)) = take 4 b"
    "enc_uint 2 (dec_uint (take 2 (drop 4 b))) = take 2 (drop 4 b)"
    "enc_uint 2 (dec_uint (take 2 (drop 6 b))) = take 2 (drop 6 b)"
    "enc_uint 4 (dec_uint (take 4 (drop 68 b))) = take 4 (drop 68 b)"
    using enc_dec_uint [of "take 4 b"] enc_dec_uint [of "take 2 (drop 4 b)"]
      enc_dec_uint [of "take 2 (drop 6 b)"] enc_dec_uint [of "take 4 (drop 68 b)"] len by simp_all
  have "enc_dinode (dec_dinode b) = take 4 b @ take 2 (drop 4 b) @ take 2 (drop 6 b) @
      take 60 (drop 8 b) @ take 4 (drop 68 b) @ drop 72 b"
    using d w u by (simp add: enc_dinode_def dec_dinode_def sfs_consts)
  then show ?thesis
    using take_drop_split [of 4 0 b] take_drop_split [of 2 4 b] take_drop_split [of 2 6 b]
      take_drop_split [of 60 8 b] take_drop_split [of 4 68 b] by simp
qed

section \<open>Properties\<close>



end
