(* ===== verification/Sfsck_Base.thy ===== *)
theory Sfsck_Base
  imports Sfs_Format
begin

text \<open>
  The file system checker, part one: its state, the utilities of \<^verbatim>\<open>utils.c\<close>, the disk access of
  \<^verbatim>\<open>sfs.c\<close> and the superblock of \<^verbatim>\<open>sb.c\<close> (\<^verbatim>\<open>userland/sbin/sfsck\<close>).

  The static variables of the program's files are one record.  Messages are not modelled.  A
  call that ends the program, by \<^verbatim>\<open>errx\<close>, a failed assertion or an access outside the disk, has no
  result; running out of memory is not modelled.
\<close>

section \<open>State\<close>

definition EXIT_CLEAN :: nat where "EXIT_CLEAN = 0"
definition EXIT_RECOV :: nat where "EXIT_RECOV = 1"
definition EXIT_UNRECOV :: nat where "EXIT_UNRECOV = 2"

record inodeinfo =
  inf_ino :: nat
  inf_linkcount :: nat
  inf_visited :: bool
  inf_type :: nat

record fsck =
  fk_disk :: "block list"
  fk_badness :: nat
  fk_sb :: sfs_superblock
  fk_freemap :: "byte list"
  fk_tofree :: "byte list"
  fk_blocksinuse :: nat
  fk_inodes :: "inodeinfo list"
  fk_maxinodes :: nat
  fk_sorted :: bool
  fk_unique :: nat
  fk_dirs :: nat
  fk_files :: nat

definition setbadness :: "nat \<Rightarrow> fsck \<Rightarrow> fsck" where
  "setbadness code st = (if fk_badness st < code then st\<lparr>fk_badness := code\<rparr> else st)"

lemma setbadness_sel [simp]:
  "fk_disk (setbadness c st) = fk_disk st" "fk_sb (setbadness c st) = fk_sb st"
  "fk_freemap (setbadness c st) = fk_freemap st" "fk_tofree (setbadness c st) = fk_tofree st"
  "fk_blocksinuse (setbadness c st) = fk_blocksinuse st"
  "fk_inodes (setbadness c st) = fk_inodes st" "fk_maxinodes (setbadness c st) = fk_maxinodes st"
  "fk_sorted (setbadness c st) = fk_sorted st"
  "fk_badness (setbadness c st) = max (fk_badness st) c"
  by (auto simp: setbadness_def)

section \<open>Utilities\<close>

definition uniqueid :: "fsck \<Rightarrow> nat \<times> fsck" where
  "uniqueid st = (fk_unique st, st\<lparr>fk_unique := u32 (fk_unique st + 1)\<rparr>)"

text \<open>The buffer is the whole field, so that its length is \<^verbatim>\<open>maxlen\<close>.\<close>

definition checknullstring :: "byte list \<Rightarrow> (bool \<times> byte list) option" where
  "checknullstring buf =
     (if 0 \<in> set buf then Some (False, buf)
      else do { buf \<leftarrow> cwrite buf (length buf - 1) 0; Some (True, buf) })"

definition CH_COLON :: byte where "CH_COLON = 58"
definition CH_SLASH :: byte where "CH_SLASH = 47"
definition CH_UNDERSCORE :: byte where "CH_UNDERSCORE = 95"

text \<open>The loop stops at the terminator; a buffer without one is read past its end.\<close>

fun checkbadstring :: "byte list \<Rightarrow> (bool \<times> byte list) option" where
  "checkbadstring [] = None"
| "checkbadstring (c # buf) =
     (if c = 0 then Some (False, c # buf)
      else do { (rv, buf) \<leftarrow> checkbadstring buf;
                Some (if c = CH_COLON \<or> c = CH_SLASH then (True, CH_UNDERSCORE # buf)
                      else (rv, c # buf)) })"

text \<open>\<^verbatim>\<open>checkzeroed\<close> is called on arrays of integers.\<close>

definition checkzeroed :: "nat list \<Rightarrow> bool \<times> nat list" where
  "checkzeroed buf = (\<exists>x \<in> set buf. x \<noteq> 0, map (\<lambda>_. 0) buf)"

section \<open>Disk access\<close>

definition sfs_readsb :: "nat \<Rightarrow> fsck \<Rightarrow> sfs_superblock option" where
  "sfs_readsb blocknum st = do { b \<leftarrow> cread (fk_disk st) blocknum; Some (dec_superblock b) }"

definition diskwrite :: "block \<Rightarrow> nat \<Rightarrow> fsck \<Rightarrow> fsck option" where
  "diskwrite data blk st =
     do { d \<leftarrow> cwrite (fk_disk st) blk data; Some (st\<lparr>fk_disk := d\<rparr>) }"

definition sfs_writesb :: "nat \<Rightarrow> sfs_superblock \<Rightarrow> fsck \<Rightarrow> fsck option" where
  "sfs_writesb blocknum sb st = diskwrite (enc_superblock sb) blocknum st"

definition sfs_readfreemapblock :: "nat \<Rightarrow> fsck \<Rightarrow> byte list option" where
  "sfs_readfreemapblock whichblock st = cread (fk_disk st) (SFS_FREEMAP_START + whichblock)"

definition sfs_writefreemapblock :: "nat \<Rightarrow> byte list \<Rightarrow> fsck \<Rightarrow> fsck option" where
  "sfs_writefreemapblock whichblock bits st = diskwrite bits (SFS_FREEMAP_START + whichblock) st"

definition sfs_readinode :: "nat \<Rightarrow> fsck \<Rightarrow> sfs_dinode option" where
  "sfs_readinode ino st = do { b \<leftarrow> cread (fk_disk st) ino; Some (dec_dinode b) }"

definition sfs_writeinode :: "nat \<Rightarrow> sfs_dinode \<Rightarrow> fsck \<Rightarrow> fsck option" where
  "sfs_writeinode ino sfi st = diskwrite (enc_dinode sfi) ino st"

definition sfs_readindirect :: "nat \<Rightarrow> fsck \<Rightarrow> nat list option" where
  "sfs_readindirect blocknum st =
     do { b \<leftarrow> cread (fk_disk st) blocknum; Some (dec_array 4 SFS_DBPERIDB b) }"

definition sfs_writeindirect :: "nat \<Rightarrow> nat list \<Rightarrow> fsck \<Rightarrow> fsck option" where
  "sfs_writeindirect blocknum entries st = diskwrite (enc_array 4 entries) blocknum st"

text \<open>
  Which disk block holds a block of a file.  The layout has one indirect block and no doubly or
  triply indirect ones, so the ranges of those are empty.
\<close>

function ibmap :: "nat \<Rightarrow> nat \<Rightarrow> nat \<Rightarrow> fsck \<Rightarrow> nat option" where
  "ibmap iblock offset entrysize st =
     (if iblock = 0 then Some 0
      else do { entries \<leftarrow> sfs_readindirect iblock st;
                if 1 < entrysize
                then do { e \<leftarrow> cread entries (offset div entrysize);
                          ibmap e (offset mod entrysize) (entrysize div SFS_DBPERIDB) st }
                else do { kassert (offset < SFS_DBPERIDB); cread entries offset } })"
  by pat_completeness auto
termination
  by (relation "measure (\<lambda>(_, _, entrysize, _). entrysize)") (auto simp: SFS_DBPERIDB_def)

declare ibmap.simps [simp del]

definition bmap :: "sfs_dinode \<Rightarrow> nat \<Rightarrow> fsck \<Rightarrow> nat option" where
  "bmap sfi fileblock st =
     (if fileblock < SFS_NDIRECT then cread (sfi_direct sfi) fileblock
      else if fileblock < SFS_NDIRECT + SFS_DBPERIDB
      then ibmap (sfi_indirect sfi) ((fileblock - SFS_NDIRECT) mod SFS_DBPERIDB) 1 st
      else Some 0)"

text \<open>Directories, eight entries to a block; a missing block reads as zeros.\<close>

definition ATONCE :: nat where "ATONCE = SFS_BLOCKSIZE div DIRENTRY_SIZE"

definition zero_direntry :: sfs_direntry where
  "zero_direntry = \<lparr>sfd_ino = 0, sfd_name = replicate SFS_NAMELEN 0\<rparr>"

definition sfs_readdirblock :: "nat \<Rightarrow> fsck \<Rightarrow> sfs_direntry list option" where
  "sfs_readdirblock diskblock st =
     (if diskblock \<noteq> 0 then do { b \<leftarrow> cread (fk_disk st) diskblock; Some (dec_dirblock ATONCE b) }
      else Some (replicate ATONCE zero_direntry))"

primrec sfs_readdir_loop ::
    "nat \<Rightarrow> sfs_dinode \<Rightarrow> nat \<Rightarrow> nat \<Rightarrow> fsck \<Rightarrow> sfs_direntry list option" where
  "sfs_readdir_loop 0 sfi i left st = do { kassert (left = 0); Some [] }"
| "sfs_readdir_loop (Suc n) sfi i left st =
     do { diskblock \<leftarrow> bmap sfi i st;
          buffer \<leftarrow> sfs_readdirblock diskblock st;
          let thismany = (if left < ATONCE then left else ATONCE);
          ds \<leftarrow> sfs_readdir_loop n sfi (i + 1) (left - thismany) st;
          Some (take thismany buffer @ ds) }"

definition sfs_readdir :: "sfs_dinode \<Rightarrow> nat \<Rightarrow> fsck \<Rightarrow> sfs_direntry list option" where
  "sfs_readdir sfi nd st = sfs_readdir_loop (SFS_ROUNDUP nd ATONCE div ATONCE) sfi 0 nd st"

definition sfs_writedirblock :: "sfs_direntry list \<Rightarrow> nat \<Rightarrow> fsck \<Rightarrow> fsck option" where
  "sfs_writedirblock d diskblock st =
     (if diskblock \<noteq> 0 then diskwrite (enc_dirblock d) diskblock st
      else Some (if \<exists>e \<in> set d. sfd_ino e \<noteq> SFS_NOINO \<or> sfd_name e ! 0 \<noteq> 0
                 then setbadness EXIT_UNRECOV st else st))"

primrec sfs_writedir_loop ::
    "nat \<Rightarrow> sfs_dinode \<Rightarrow> nat \<Rightarrow> sfs_direntry list \<Rightarrow> nat \<Rightarrow> fsck \<Rightarrow> fsck option" where
  "sfs_writedir_loop 0 sfi i d left st = do { kassert (left = 0); Some st }"
| "sfs_writedir_loop (Suc n) sfi i d left st =
     do { diskblock \<leftarrow> bmap sfi i st;
          let thismany = (if left < ATONCE then left else ATONCE);
          st \<leftarrow> sfs_writedirblock
                 (take thismany d @ replicate (ATONCE - thismany) zero_direntry) diskblock st;
          sfs_writedir_loop n sfi (i + 1) (drop thismany d) (left - thismany) st }"

definition sfs_writedir :: "sfs_dinode \<Rightarrow> sfs_direntry list \<Rightarrow> nat \<Rightarrow> fsck \<Rightarrow> fsck option" where
  "sfs_writedir sfi d nd st = sfs_writedir_loop (SFS_ROUNDUP nd ATONCE div ATONCE) sfi 0 d nd st"

section \<open>The superblock\<close>

definition sb_load :: "fsck \<Rightarrow> fsck option" where
  "sb_load st =
     do { sb \<leftarrow> sfs_readsb SFS_SUPER_BLOCK st;
          if sb_magic sb \<noteq> SFS_MAGIC then None
          else do { kassert (0 < sb_nblocks sb);
                    kassert (0 < SFS_FREEMAPBLOCKS (sb_nblocks sb));
                    Some (st\<lparr>fk_sb := sb\<rparr>) } }"

definition sb_check :: "fsck \<Rightarrow> fsck option" where
  "sb_check st =
     do { let sb = fk_sb st;
          (c1, name) \<leftarrow> checknullstring (sb_volname sb);
          let st = (if c1 then setbadness EXIT_RECOV st else st);
          (c2, name) \<leftarrow> checkbadstring name;
          let st = (if c2 then setbadness EXIT_RECOV st else st);
          let (c3, reserved) = checkzeroed (sb_reserved sb);
          let st = (if c3 then setbadness EXIT_RECOV st else st);
          let sb = sb\<lparr>sb_volname := name, sb_reserved := reserved\<rparr>;
          let st = st\<lparr>fk_sb := sb\<rparr>;
          (if c1 \<or> c2 \<or> c3 then sfs_writesb SFS_SUPER_BLOCK sb st else Some st) }"

definition sb_totalblocks :: "fsck \<Rightarrow> nat" where
  "sb_totalblocks st = sb_nblocks (fk_sb st)"

definition sb_freemapblocks :: "fsck \<Rightarrow> nat" where
  "sb_freemapblocks st = SFS_FREEMAPBLOCKS (sb_nblocks (fk_sb st))"

subsection \<open>Strings that pass the checks\<close>

definition cname :: "byte list \<Rightarrow> byte list" where
  "cname n = takeWhile (\<lambda>b. b \<noteq> 0) n"

definition good_name :: "byte list \<Rightarrow> bool" where
  "good_name n \<longleftrightarrow> 0 \<in> set n \<and> CH_COLON \<notin> set (cname n) \<and> CH_SLASH \<notin> set (cname n)"

lemma checknullstring_ok:
  assumes "n \<noteq> []"
  obtains c n' where "checknullstring n = Some (c, n')" "length n' = length n" "0 \<in> set n'"
    "c \<longleftrightarrow> 0 \<notin> set n" "\<not> c \<Longrightarrow> n' = n"
proof (cases "0 \<in> set n")
  case True
  then show ?thesis using that [of False n] by (simp add: checknullstring_def)
next
  case False
  have "length n - 1 < length n" using assms by simp
  then have "0 \<in> set (n[length n - 1 := 0])" by (rule set_update_memI)
  with False assms that [of True "n[length n - 1 := 0]"] show ?thesis
    by (simp add: checknullstring_def)
qed

lemma checkbadstring_ok:
  assumes "0 \<in> set n"
  shows "\<exists>c n'. checkbadstring n = Some (c, n') \<and> length n' = length n \<and> good_name n' \<and>
     (\<not> c \<longrightarrow> n' = n) \<and> (c \<longrightarrow> \<not> good_name n) \<and> length (cname n') = length (cname n)"
  using assms
proof (induction n)
  case Nil
  then show ?case by simp
next
  case (Cons x n)
  show ?case
  proof (cases "x = 0")
    case True
    then show ?thesis by (auto simp: good_name_def cname_def)
  next
    case False
    with Cons obtain c n' where "checkbadstring n = Some (c, n')" "length n' = length n" "good_name n'"
      "\<not> c \<longrightarrow> n' = n" "c \<longrightarrow> \<not> good_name n" "length (cname n') = length (cname n)" by auto
    with False show ?thesis
      by (auto simp: good_name_def cname_def CH_COLON_def CH_SLASH_def CH_UNDERSCORE_def)
  qed
qed

lemma checkzeroed_eq [simp]: "checkzeroed xs = (c, ys) \<longleftrightarrow> c = (\<exists>x \<in> set xs. x \<noteq> 0) \<and> ys = map (\<lambda>_. 0) xs"
  by (auto simp: checkzeroed_def)

end
