(* ===== verification/Sfsck_Freemap.thy ===== *)
theory Sfsck_Freemap
  imports Sfsck_Base
begin

text \<open>
  The checker's free block bitmap, \<^verbatim>\<open>userland/sbin/sfsck/freemap.c\<close>: the blocks found in use, the
  blocks to be freed, and the comparison with the bitmap on the disk.
\<close>

section \<open>Operations\<close>

datatype blockusage = B_SUPERBLOCK | B_FREEMAPBLOCK | B_INODE | B_IBLOCK | B_DIRDATA | B_DATA | B_PASTEND

definition freemap_blockinuse :: "nat \<Rightarrow> blockusage \<Rightarrow> fsck \<Rightarrow> fsck option" where
  "freemap_blockinuse blk how st =
     do { let index = blk div 8;
          let bmask = (push_bit (blk mod 8) 1 :: byte);
          t \<leftarrow> cread (fk_tofree st) index;
          st \<leftarrow> (if t AND bmask \<noteq> 0
                 then do { d \<leftarrow> cwrite (fk_tofree st) index (t AND NOT bmask);
                           Some (st\<lparr>fk_tofree := d\<rparr>) }
                 else Some st);
          f \<leftarrow> cread (fk_freemap st) index;
          let st = (if f AND bmask \<noteq> 0 then setbadness EXIT_UNRECOV st else st);
          d \<leftarrow> cwrite (fk_freemap st) index (f OR bmask);
          let st = st\<lparr>fk_freemap := d\<rparr>;
          Some (if how \<noteq> B_PASTEND then st\<lparr>fk_blocksinuse := u32 (fk_blocksinuse st + 1)\<rparr> else st) }"

definition freemap_setup :: "fsck \<Rightarrow> fsck option" where
  "freemap_setup st =
     do { let fsblocks = sb_totalblocks st;
          let mapblocks = sb_freemapblocks st;
          let mapbytes = mapblocks * SFS_BLOCKSIZE;
          let st = st\<lparr>fk_freemap := replicate mapbytes 0, fk_tofree := replicate mapbytes 0\<rparr>;
          st \<leftarrow> for_each [fsblocks..<mapblocks * SFS_BITSPERBLOCK]
                 (\<lambda>i st. freemap_blockinuse i B_PASTEND st) st;
          st \<leftarrow> freemap_blockinuse SFS_SUPER_BLOCK B_SUPERBLOCK st;
          for_each [0..<mapblocks] (\<lambda>i st. freemap_blockinuse (SFS_FREEMAP_START + i) B_FREEMAPBLOCK st) st }"

definition freemap_blockfree :: "nat \<Rightarrow> fsck \<Rightarrow> fsck option" where
  "freemap_blockfree blk st =
     do { let index = blk div 8;
          let bmask = (push_bit (blk mod 8) 1 :: byte);
          t \<leftarrow> cread (fk_tofree st) index;
          if t AND bmask \<noteq> 0 then Some st
          else do { f \<leftarrow> cread (fk_freemap st) index;
                    if f AND bmask \<noteq> 0 then Some st
                    else do { d \<leftarrow> cwrite (fk_tofree st) index (t OR bmask);
                              Some (st\<lparr>fk_tofree := d\<rparr>) } } }"

definition countbits :: "byte \<Rightarrow> nat" where
  "countbits v = length (filter (\<lambda>k. v AND push_bit k 1 \<noteq> 0) [0..<8])"

text \<open>One byte of the comparison: the new byte, whether it changed, and the two counts.\<close>

definition freemap_byte :: "byte \<Rightarrow> byte \<Rightarrow> byte \<Rightarrow> (byte \<times> bool \<times> nat \<times> nat) option" where
  "freemap_byte expected tofree actual =
     do { kassert (expected AND tofree = 0);
          if actual = expected then Some (actual, False, 0, 0)
          else if actual = expected OR tofree then Some (expected, True, 0, 0)
          else do { let actual = actual AND NOT tofree;
                    let alloc = (if actual AND expected \<noteq> expected
                                 then countbits (expected AND NOT actual) else 0);
                    let free = (if actual AND expected \<noteq> actual
                                then countbits (actual AND NOT expected) else 0);
                    Some (expected, True, alloc, free) } }"

text \<open>The loop over the bytes of a block; the three arrays are walked together.\<close>

fun freemap_bytes ::
    "byte list \<Rightarrow> byte list \<Rightarrow> byte list \<Rightarrow> (byte list \<times> bool \<times> nat \<times> nat) option" where
  "freemap_bytes (e # es) (t # ts) (a # as) =
     do { (b, c, m, n) \<leftarrow> freemap_byte e t a;
          (bs, cs, ms, ns) \<leftarrow> freemap_bytes es ts as;
          Some (b # bs, c \<or> cs, m + ms, n + ns) }"
| "freemap_bytes _ _ _ = Some ([], False, 0, 0)"

definition freemap_checkblock :: "nat \<Rightarrow> (nat \<times> nat) \<times> fsck \<Rightarrow> ((nat \<times> nat) \<times> fsck) option" where
  "freemap_checkblock i s =
     do { let ((alloccount, freecount), st) = s;
          actual \<leftarrow> sfs_readfreemapblock i st;
          let expected = take SFS_BLOCKSIZE (drop (i * SFS_BLOCKSIZE) (fk_freemap st));
          let tofree = take SFS_BLOCKSIZE (drop (i * SFS_BLOCKSIZE) (fk_tofree st));
          (actual, bchanged, m, n) \<leftarrow> freemap_bytes expected tofree actual;
          st \<leftarrow> (if bchanged then sfs_writefreemapblock i actual st else Some st);
          Some ((u32 (alloccount + m), u32 (freecount + n)), st) }"

definition freemap_check :: "fsck \<Rightarrow> fsck option" where
  "freemap_check st =
     do { ((alloccount, freecount), st) \<leftarrow>
            for_each [0..<sb_freemapblocks st] freemap_checkblock ((0, 0), st);
          let st = (if 0 < alloccount then setbadness EXIT_RECOV st else st);
          Some (if 0 < freecount then setbadness EXIT_RECOV st else st) }"

definition freemap_blocksused :: "fsck \<Rightarrow> nat" where
  "freemap_blocksused st = fk_blocksinuse st"

section \<open>The sets of blocks\<close>

text \<open>The numbers whose bits are set in a bitmap.\<close>

definition bitset :: "byte list \<Rightarrow> nat set" where
  "bitset v = {b. b div 8 < length v \<and> bit (v ! (b div 8)) (b mod 8)}"

lemma bitset_replicate [simp]: "bitset (replicate n 0) = {}"
  by (auto simp: bitset_def)

lemma bitset_or:
  assumes "b div 8 < length v"
  shows "bitset (v[b div 8 := v ! (b div 8) OR 2 ^ (b mod 8)]) = insert b (bitset v)"
proof -
  have "c div 8 = b div 8 \<Longrightarrow> c mod 8 = b mod 8 \<longleftrightarrow> c = b" for c
    using index_split [of c b] by auto
  then show ?thesis using assms
    by (auto simp: bitset_def nth_list_update bit_or_mask)
qed

lemma bitset_and_not:
  assumes "b div 8 < length v"
  shows "bitset (v[b div 8 := v ! (b div 8) AND NOT (2 ^ (b mod 8))]) = bitset v - {b}"
proof -
  have "c div 8 = b div 8 \<Longrightarrow> c mod 8 = b mod 8 \<longleftrightarrow> c = b" for c
    using index_split [of c b] by auto
  then show ?thesis using assms
    by (auto simp: bitset_def nth_list_update bit_and_not_mask)
qed

lemma bitset_mem: "b div 8 < length v \<Longrightarrow> b \<in> bitset v \<longleftrightarrow> v ! (b div 8) AND 2 ^ (b mod 8) \<noteq> 0"
  by (simp add: bitset_def mask_and_eq_0)

lemma bitset_inj: "length v = length w \<Longrightarrow> bitset v = bitset w \<Longrightarrow> v = w"
proof (rule nth_equalityI)
  fix i assume len: "length v = length w" and eq: "bitset v = bitset w" and i: "i < length v"
  show "v ! i = w ! i"
  proof (rule bit_word_eqI)
    fix n :: nat assume "n < LENGTH(8)"
    then have "(i * 8 + n) div 8 = i" "(i * 8 + n) mod 8 = n" by simp_all
    then show "bit (v ! i) n \<longleftrightarrow> bit (w ! i) n"
      using eq i len unfolding bitset_def by (metis (mono_tags, lifting) mem_Collect_eq)
  qed
qed

text \<open>
  The bitmaps cover the volume and no block is both in use and to be freed.
\<close>

definition fm_ok :: "fsck \<Rightarrow> bool" where
  "fm_ok st \<longleftrightarrow> length (fk_freemap st) = sb_freemapblocks st * SFS_BLOCKSIZE \<and>
     length (fk_tofree st) = length (fk_freemap st) \<and>
     bitset (fk_freemap st) \<inter> bitset (fk_tofree st) = {}"

text \<open>The part of the state the bitmaps leave alone.\<close>

definition fm_frame :: "fsck \<Rightarrow> fsck \<Rightarrow> bool" where
  "fm_frame st st' \<longleftrightarrow> fk_disk st' = fk_disk st \<and> fk_sb st' = fk_sb st \<and>
     fk_inodes st' = fk_inodes st \<and> fk_maxinodes st' = fk_maxinodes st \<and> fk_sorted st' = fk_sorted st"

lemma fm_frame_refl [simp]: "fm_frame st st"
  by (simp add: fm_frame_def)

lemma fm_frame_trans: "fm_frame a b \<Longrightarrow> fm_frame b c \<Longrightarrow> fm_frame a c"
  by (simp add: fm_frame_def)

lemma freemap_blockinuse_ok:
  assumes "fm_ok st" "blk div 8 < length (fk_freemap st)"
  shows "\<exists>st'. freemap_blockinuse blk how st = Some st' \<and> fm_ok st' \<and> fm_frame st st' \<and>
     bitset (fk_freemap st') = insert blk (bitset (fk_freemap st)) \<and>
     bitset (fk_tofree st') = bitset (fk_tofree st) - {blk} \<and>
     length (fk_freemap st') = length (fk_freemap st)"
proof -
  have len: "blk div 8 < length (fk_tofree st)" using assms by (simp add: fm_ok_def)
  show ?thesis
  proof (cases "fk_tofree st ! (blk div 8) AND 2 ^ (blk mod 8) = 0")
    case True
    then have "blk \<notin> bitset (fk_tofree st)" using bitset_mem [OF len] by simp
    with True show ?thesis using assms len
      by (auto simp: freemap_blockinuse_def Let_def fm_ok_def fm_frame_def bitset_or sb_freemapblocks_def)
  next
    case False
    then show ?thesis using assms len
      by (auto simp: freemap_blockinuse_def Let_def fm_ok_def fm_frame_def bitset_or bitset_and_not
          sb_freemapblocks_def)
  qed
qed

lemma freemap_blockfree_ok:
  assumes "fm_ok st" "blk div 8 < length (fk_freemap st)"
  shows "\<exists>st'. freemap_blockfree blk st = Some st' \<and> fm_ok st' \<and> fm_frame st st' \<and>
     fk_freemap st' = fk_freemap st \<and>
     bitset (fk_tofree st') = (if blk \<in> bitset (fk_freemap st) then bitset (fk_tofree st)
        else insert blk (bitset (fk_tofree st)))"
proof -
  have len: "blk div 8 < length (fk_tofree st)" using assms by (simp add: fm_ok_def)
  show ?thesis using assms len bitset_mem [OF len] bitset_mem [OF assms(2)]
    by (auto simp: freemap_blockfree_def Let_def fm_ok_def fm_frame_def bitset_or sb_freemapblocks_def
        insert_absorb)
qed

subsection \<open>Comparing with the disk\<close>

lemma freemap_byte_eq:
  "e AND t = 0 \<Longrightarrow> \<exists>c m n. freemap_byte e t a = Some (e, c, m, n) \<and> (\<not> c \<longrightarrow> a = e)"
  by (auto simp: freemap_byte_def Let_def)

lemma freemap_bytes_eq:
  assumes "length ts = length es" "length as = length es" "\<forall>i < length es. es ! i AND ts ! i = 0"
  shows "\<exists>c m n. freemap_bytes es ts as = Some (es, c, m, n) \<and> (\<not> c \<longrightarrow> as = es)"
  using assms
proof (induction es ts as rule: freemap_bytes.induct)
  case (1 e es t ts a as)
  have "e AND t = 0" using 1(4) by (auto dest: spec [of _ 0])
  moreover have "\<forall>i < length es. es ! i AND ts ! i = 0" using 1(4) by (auto dest: spec [of _ "Suc _"])
  ultimately show ?case using 1(1-3) freemap_byte_eq [of e t a] by fastforce
qed auto

lemma bitset_disjoint:
  assumes "length v = length w" "bitset v \<inter> bitset w = {}" "i < length v"
  shows "v ! i AND w ! i = 0"
proof (rule bit_word_eqI)
  fix n :: nat assume n: "n < LENGTH(8)"
  then have "(i * 8 + n) div 8 = i" "(i * 8 + n) mod 8 = n" by simp_all
  then have "bit (v ! i) n \<longleftrightarrow> i * 8 + n \<in> bitset v" "bit (w ! i) n \<longleftrightarrow> i * 8 + n \<in> bitset w"
    using assms(1,3) by (simp_all add: bitset_def)
  then show "bit (v ! i AND w ! i) n \<longleftrightarrow> bit 0 n" using assms(2) by (auto simp: bit_and_iff)
qed

text \<open>The part of the bitmap in block \<open>i\<close>.\<close>

definition map_block :: "nat \<Rightarrow> byte list \<Rightarrow> byte list" where
  "map_block i v = take SFS_BLOCKSIZE (drop (i * SFS_BLOCKSIZE) v)"

definition disk_ok :: "fsck \<Rightarrow> bool" where
  "disk_ok st \<longleftrightarrow> sb_totalblocks st \<le> length (fk_disk st) \<and>
     (\<forall>b \<in> set (fk_disk st). length b = SFS_BLOCKSIZE) \<and>
     SFS_FREEMAP_START + sb_freemapblocks st \<le> length (fk_disk st)"

lemma freemap_checkblock_ok:
  assumes ok: "fm_ok st" "disk_ok st" and i: "i < sb_freemapblocks st"
  shows "\<exists>c' f'. freemap_checkblock i ((c, f), st) = Some ((c', f'),
     st\<lparr>fk_disk := (fk_disk st)[SFS_FREEMAP_START + i := map_block i (fk_freemap st)]\<rparr>)"
proof -
  let ?k = "SFS_FREEMAP_START + i" and ?F = "fk_freemap st" and ?T = "fk_tofree st"
  have k: "?k < length (fk_disk st)" using ok(2) i by (simp add: disk_ok_def)
  have len: "i * SFS_BLOCKSIZE + SFS_BLOCKSIZE \<le> length ?F"
    using ok(1) i mult_le_mono1 [of "Suc i" "sb_freemapblocks st" SFS_BLOCKSIZE]
    by (simp add: fm_ok_def)
  have tlen: "length ?T = length ?F" using ok(1) by (simp add: fm_ok_def)
  have blen: "length (map_block i ?F) = SFS_BLOCKSIZE" "length (map_block i ?T) = SFS_BLOCKSIZE"
    using len tlen by (simp_all add: map_block_def)
  have "length (fk_disk st ! ?k) = SFS_BLOCKSIZE" using ok(2) k by (simp add: disk_ok_def)
  moreover have "\<forall>j < length (map_block i ?F). map_block i ?F ! j AND map_block i ?T ! j = 0"
  proof (intro allI impI)
    fix j assume "j < length (map_block i ?F)"
    then have j: "j < SFS_BLOCKSIZE" "i * SFS_BLOCKSIZE + j < length ?F" using blen len by simp_all
    then have "?F ! (i * SFS_BLOCKSIZE + j) AND ?T ! (i * SFS_BLOCKSIZE + j) = 0"
      using bitset_disjoint [of ?F ?T] ok(1) by (simp add: fm_ok_def)
    with j len tlen show "map_block i ?F ! j AND map_block i ?T ! j = 0" by (simp add: map_block_def)
  qed
  ultimately obtain c m n where b:
    "freemap_bytes (map_block i ?F) (map_block i ?T) (fk_disk st ! ?k) = Some (map_block i ?F, c, m, n)"
    "\<not> c \<longrightarrow> fk_disk st ! ?k = map_block i ?F"
    using freemap_bytes_eq [of "map_block i ?T" "map_block i ?F" "fk_disk st ! ?k"] blen by auto
  have same: "st\<lparr>fk_disk := (fk_disk st)[?k := map_block i ?F]\<rparr> = st" if "\<not> c"
    using b(2) that by (metis fsck.surjective fsck.update_convs(1) list_update_id)
  show ?thesis using k b same
    by (cases c) (simp_all add: freemap_checkblock_def sfs_readfreemapblock_def
        sfs_writefreemapblock_def diskwrite_def map_block_def [symmetric] Let_def)
qed

lemma freemap_check_ok:
  assumes ok: "fm_ok st" "disk_ok st"
  shows "\<exists>st'. freemap_check st = Some st' \<and> length (fk_disk st') = length (fk_disk st) \<and>
     fk_freemap st' = fk_freemap st \<and> fk_sb st' = fk_sb st \<and>
     (\<forall>k < length (fk_disk st). fk_disk st' ! k =
        (if SFS_FREEMAP_START \<le> k \<and> k < SFS_FREEMAP_START + sb_freemapblocks st
         then map_block (k - SFS_FREEMAP_START) (fk_freemap st) else fk_disk st ! k))"
proof -
  define I where "I = (\<lambda>(ys :: nat list) (s :: (nat \<times> nat) \<times> fsck). \<exists>d. snd s = st\<lparr>fk_disk := d\<rparr> \<and>
     length d = length (fk_disk st) \<and> (\<forall>b \<in> set d. length b = SFS_BLOCKSIZE) \<and>
     (\<forall>k < length d. d ! k =
        (if SFS_FREEMAP_START \<le> k \<and> k < SFS_FREEMAP_START + length ys
         then map_block (k - SFS_FREEMAP_START) (fk_freemap st) else fk_disk st ! k)))"
  have "\<exists>s. for_each [0..<sb_freemapblocks st] freemap_checkblock ((0, 0), st) = Some s \<and>
      I [0..<sb_freemapblocks st] s"
  proof (rule for_each_inv)
    show "I [] ((0, 0), st)" using ok(2)
      by (auto simp: I_def disk_ok_def intro!: exI [of _ "fk_disk st"])
  next
    fix ys y zs s assume split: "[0..<sb_freemapblocks st] = ys @ y # zs" and inv: "I ys s"
    have y: "y = length ys" "y < sb_freemapblocks st"
      using upt_split [OF split] by simp_all
    obtain c f st1 where s: "s = ((c, f), st1)" by (cases s) auto
    from inv s obtain d where d: "st1 = st\<lparr>fk_disk := d\<rparr>" "length d = length (fk_disk st)"
      "\<forall>b \<in> set d. length b = SFS_BLOCKSIZE"
      "\<forall>k < length d. d ! k =
        (if SFS_FREEMAP_START \<le> k \<and> k < SFS_FREEMAP_START + length ys
         then map_block (k - SFS_FREEMAP_START) (fk_freemap st) else fk_disk st ! k)"
      by (auto simp: I_def)
    have ok1: "fm_ok st1" "disk_ok st1" "y < sb_freemapblocks st1"
      using ok d y by (simp_all add: fm_ok_def disk_ok_def sb_freemapblocks_def sb_totalblocks_def)
    obtain c' f' where step: "freemap_checkblock y s = Some ((c', f'),
        st1\<lparr>fk_disk := d[SFS_FREEMAP_START + y := map_block y (fk_freemap st)]\<rparr>)"
      using freemap_checkblock_ok [OF ok1, of c f] s d(1) by auto
    have mb: "length (map_block y (fk_freemap st)) = SFS_BLOCKSIZE"
      using ok(1) y(2) mult_le_mono1 [of "Suc y" "sb_freemapblocks st" SFS_BLOCKSIZE]
      by (simp add: fm_ok_def map_block_def)
    have "I (ys @ [y]) ((c', f'), st1\<lparr>fk_disk := d[SFS_FREEMAP_START + y := map_block y (fk_freemap st)]\<rparr>)"
      unfolding I_def using d y mb
      by (intro exI [of _ "d[SFS_FREEMAP_START + y := map_block y (fk_freemap st)]"])
        (auto simp: nth_list_update less_Suc_eq dest: subsetD [OF set_update_subset_insert])
    with step show "\<exists>s'. freemap_checkblock y s = Some s' \<and> I (ys @ [y]) s'" by blast
  qed
  then obtain c f d where loop: "for_each [0..<sb_freemapblocks st] freemap_checkblock ((0, 0), st)
      = Some ((c, f), st\<lparr>fk_disk := d\<rparr>)" "length d = length (fk_disk st)"
    "\<forall>k < length d. d ! k =
        (if SFS_FREEMAP_START \<le> k \<and> k < SFS_FREEMAP_START + sb_freemapblocks st
         then map_block (k - SFS_FREEMAP_START) (fk_freemap st) else fk_disk st ! k)"
    unfolding I_def by (auto split: prod.splits)
  then show ?thesis by (auto simp: freemap_check_def Let_def)
qed

subsection \<open>Marking many blocks\<close>

lemma for_each_inuse:
  assumes "fm_ok st" "\<forall>x \<in> set xs. h x div 8 < length (fk_freemap st)"
  shows "\<exists>st'. for_each xs (\<lambda>x st. freemap_blockinuse (h x) how st) st = Some st' \<and> fm_ok st' \<and>
     fm_frame st st' \<and> bitset (fk_freemap st') = bitset (fk_freemap st) \<union> h ` set xs \<and>
     bitset (fk_tofree st') = bitset (fk_tofree st) - h ` set xs \<and>
     length (fk_freemap st') = length (fk_freemap st)"
  using assms
proof (induction xs arbitrary: st)
  case Nil
  then show ?case by simp
next
  case (Cons x xs)
  then obtain st1 where st1: "freemap_blockinuse (h x) how st = Some st1" "fm_ok st1" "fm_frame st st1"
    "bitset (fk_freemap st1) = insert (h x) (bitset (fk_freemap st))"
    "bitset (fk_tofree st1) = bitset (fk_tofree st) - {h x}"
    "length (fk_freemap st1) = length (fk_freemap st)"
    using freemap_blockinuse_ok [of st "h x" how] by auto
  with Cons.IH [of st1] Cons.prems obtain st' where
    "for_each xs (\<lambda>x st. freemap_blockinuse (h x) how st) st1 = Some st'" "fm_ok st'" "fm_frame st1 st'"
    "bitset (fk_freemap st') = bitset (fk_freemap st1) \<union> h ` set xs"
    "bitset (fk_tofree st') = bitset (fk_tofree st1) - h ` set xs"
    "length (fk_freemap st') = length (fk_freemap st1)" by auto
  with st1 show ?case using fm_frame_trans [of st st1 st'] by auto
qed

text \<open>A volume of at most \<open>2 ^ 31\<close> blocks: the bitmap covers it, with the bitmap's own blocks.\<close>

lemma freemapblocks_cover:
  assumes "0 < n" "n \<le> 2 ^ 31"
  shows "n \<le> SFS_FREEMAPBLOCKS n * SFS_BITSPERBLOCK" "0 < SFS_FREEMAPBLOCKS n"
proof -
  have "u32 (n + 4096 - 1) = n + 4095" using assms by simp
  moreover have "(n + 4095) div 4096 * 4096 \<le> n + 4095" by simp
  then have "u32 ((n + 4095) div 4096 * 4096) = (n + 4095) div 4096 * 4096" using assms by simp
  ultimately have eq: "SFS_FREEMAPBLOCKS n = (n + 4095) div 4096"
    by (simp add: SFS_FREEMAPBLOCKS_def SFS_FREEMAPBITS_def SFS_ROUNDUP_def sfs_consts)
  show "n \<le> SFS_FREEMAPBLOCKS n * SFS_BITSPERBLOCK" "0 < SFS_FREEMAPBLOCKS n"
    unfolding eq using assms(1) by (simp_all add: sfs_consts)
qed

text \<open>What is in use before the volume has been looked at.\<close>

definition fixed_blocks :: "nat \<Rightarrow> nat set" where
  "fixed_blocks n = {SFS_SUPER_BLOCK} \<union> {SFS_FREEMAP_START..<SFS_FREEMAP_START + SFS_FREEMAPBLOCKS n} \<union>
     {n..<SFS_FREEMAPBLOCKS n * SFS_BITSPERBLOCK}"

lemma freemap_setup_ok:
  assumes n: "0 < sb_totalblocks st" "sb_totalblocks st \<le> 2 ^ 31"
  shows "\<exists>st'. freemap_setup st = Some st' \<and> fm_ok st' \<and> fm_frame st st' \<and>
     bitset (fk_freemap st') = fixed_blocks (sb_totalblocks st) \<and> bitset (fk_tofree st') = {}"
proof -
  let ?n = "sb_totalblocks st" and ?m = "sb_freemapblocks st"
  have m: "?m = SFS_FREEMAPBLOCKS ?n" by (simp add: sb_freemapblocks_def sb_totalblocks_def)
  have cover: "?n \<le> ?m * SFS_BITSPERBLOCK" "0 < ?m" using freemapblocks_cover [OF n] m by simp_all
  let ?st = "st\<lparr>fk_freemap := replicate (?m * SFS_BLOCKSIZE) 0, fk_tofree := replicate (?m * SFS_BLOCKSIZE) 0\<rparr>"
  have ok: "fm_ok ?st" "fm_frame st ?st"
    by (simp_all add: fm_ok_def fm_frame_def sb_freemapblocks_def)
  have len: "length (fk_freemap ?st) = ?m * SFS_BLOCKSIZE" by simp
  have lt: "i div 8 < ?m * SFS_BLOCKSIZE" if "i < ?m * SFS_BITSPERBLOCK" for i
    using that by (simp add: sfs_consts)
  obtain st1 where st1: "for_each [?n..<?m * SFS_BITSPERBLOCK] (\<lambda>i st. freemap_blockinuse i B_PASTEND st) ?st
      = Some st1" "fm_ok st1" "fm_frame ?st st1"
    "bitset (fk_freemap st1) = {?n..<?m * SFS_BITSPERBLOCK}" "bitset (fk_tofree st1) = {}"
    "length (fk_freemap st1) = ?m * SFS_BLOCKSIZE"
    using for_each_inuse [OF ok(1), of "[?n..<?m * SFS_BITSPERBLOCK]" id B_PASTEND] lt len by auto
  have z: "SFS_SUPER_BLOCK div 8 < length (fk_freemap st1)"
    using st1(6) cover(2) by (simp add: sfs_consts)
  obtain st2 where st2: "freemap_blockinuse SFS_SUPER_BLOCK B_SUPERBLOCK st1 = Some st2" "fm_ok st2"
    "fm_frame st1 st2" "bitset (fk_freemap st2) = insert SFS_SUPER_BLOCK {?n..<?m * SFS_BITSPERBLOCK}"
    "bitset (fk_tofree st2) = {}" "length (fk_freemap st2) = ?m * SFS_BLOCKSIZE"
    using freemap_blockinuse_ok [OF st1(2) z, of B_SUPERBLOCK] unfolding st1(4-6) by blast
  have "(SFS_FREEMAP_START + i) div 8 < ?m * SFS_BLOCKSIZE" if "i < ?m" for i
    using that cover(2) by (intro lt) (simp add: sfs_consts)
  then obtain st3 where st3:
    "for_each [0..<?m] (\<lambda>i st. freemap_blockinuse (SFS_FREEMAP_START + i) B_FREEMAPBLOCK st) st2 = Some st3"
    "fm_ok st3" "fm_frame st2 st3" "bitset (fk_tofree st3) = {}"
    "bitset (fk_freemap st3) = bitset (fk_freemap st2) \<union> (\<lambda>i. SFS_FREEMAP_START + i) ` {0..<?m}"
    using for_each_inuse [OF st2(2), of "[0..<?m]" "\<lambda>i. SFS_FREEMAP_START + i" B_FREEMAPBLOCK] st2(5,6)
    by auto
  have "(\<lambda>i. SFS_FREEMAP_START + i) ` {0..<?m} = {SFS_FREEMAP_START..<SFS_FREEMAP_START + ?m}"
    using image_add_atLeastLessThan [of SFS_FREEMAP_START 0 ?m] by (simp add: add.commute)
  with st3 st2(4) have "bitset (fk_freemap st3) = fixed_blocks ?n"
    by (auto simp: fixed_blocks_def m)
  moreover have "fm_frame st st3"
    using ok(2) st1(3) st2(3) st3(3) by (blast intro: fm_frame_trans)
  moreover have "sb_totalblocks ?st = ?n" "sb_freemapblocks ?st = ?m"
    by (simp_all add: sb_totalblocks_def sb_freemapblocks_def)
  ultimately show ?thesis using st1(1) st2(1) st3 by (simp add: freemap_setup_def Let_def)
qed

text \<open>What pass 1 does to the bitmaps: marking blocks in use and marking blocks to be freed.\<close>

datatype fm_op = InUse nat blockusage | ToFree nat

fun fm_step :: "fm_op \<Rightarrow> fsck \<Rightarrow> fsck option" where
  "fm_step (InUse b how) st = freemap_blockinuse b how st"
| "fm_step (ToFree b) st = freemap_blockfree b st"

fun fm_block :: "fm_op \<Rightarrow> nat" where
  "fm_block (InUse b how) = b"
| "fm_block (ToFree b) = b"

definition inuse_blocks :: "fm_op list \<Rightarrow> nat set" where
  "inuse_blocks ops = {b. \<exists>how. InUse b how \<in> set ops}"

lemma fm_steps_ok:
  assumes "fm_ok st" "\<forall>x \<in> set ops. fm_block x div 8 < length (fk_freemap st)"
  shows "\<exists>st'. for_each ops fm_step st = Some st' \<and> fm_ok st' \<and> fm_frame st st' \<and>
     bitset (fk_freemap st') = bitset (fk_freemap st) \<union> inuse_blocks ops"
  using assms
proof (induction ops arbitrary: st)
  case Nil
  then show ?case by (simp add: inuse_blocks_def)
next
  case (Cons x ops)
  obtain st1 where st1: "fm_step x st = Some st1" "fm_ok st1" "fm_frame st st1"
    "bitset (fk_freemap st1) = bitset (fk_freemap st) \<union> inuse_blocks [x]"
    "length (fk_freemap st1) = length (fk_freemap st)"
  proof (cases x)
    case (InUse b how)
    with Cons.prems that show ?thesis
      using freemap_blockinuse_ok [of st b how] by (auto simp: inuse_blocks_def)
  next
    case (ToFree b)
    with Cons.prems that show ?thesis
      using freemap_blockfree_ok [of st b] by (auto simp: inuse_blocks_def)
  qed
  with Cons.IH [of st1] Cons.prems obtain st' where
    "for_each ops fm_step st1 = Some st'" "fm_ok st'" "fm_frame st1 st'"
    "bitset (fk_freemap st') = bitset (fk_freemap st1) \<union> inuse_blocks ops" by auto
  with st1 show ?case using fm_frame_trans [of st st1 st'] by (auto simp: inuse_blocks_def)
qed

text \<open>The bitmap as it is on the disk.\<close>

definition disk_freemap :: "fsck \<Rightarrow> byte list" where
  "disk_freemap st = concat (map (\<lambda>i. fk_disk st ! (SFS_FREEMAP_START + i)) [0..<sb_freemapblocks st])"

lemma concat_map_blocks:
  "length v = m * SFS_BLOCKSIZE \<Longrightarrow> concat (map (\<lambda>i. map_block i v) [0..<m]) = v"
proof (induction m arbitrary: v)
  case 0
  then show ?case by simp
next
  case (Suc m)
  let ?w = "take (m * SFS_BLOCKSIZE) v"
  have len: "length ?w = m * SFS_BLOCKSIZE" using Suc.prems by simp
  have eq: "map_block i ?w = map_block i v" if "i < m" for i
  proof -
    have "i * SFS_BLOCKSIZE + SFS_BLOCKSIZE \<le> m * SFS_BLOCKSIZE"
      using that mult_le_mono1 [of "Suc i" m SFS_BLOCKSIZE] by simp
    then show ?thesis by (simp add: map_block_def drop_take take_take min_def) 
  qed
  have "concat (map (\<lambda>i. map_block i v) [0..<m]) = concat (map (\<lambda>i. map_block i ?w) [0..<m])"
    using eq by (intro arg_cong [where f = concat] map_cong) auto
  also have "\<dots> = ?w" using Suc.IH len by blast
  finally have front: "concat (map (\<lambda>i. map_block i v) [0..<m]) = ?w" .
  have "map_block m v = drop (m * SFS_BLOCKSIZE) v" using Suc.prems by (simp add: map_block_def)
  with front show ?case by simp
qed

section \<open>Properties\<close>

text \<open>C6. From the set-up of the bitmaps, after any sequence of marking blocks of the volume as in
  use or as to be freed, the check returns and the free block bitmap on the disk marks exactly
  the superblock, the bitmap's own blocks, the numbers past the end of the volume and the blocks
  found in use; every other block of the disk is as before.\<close>

theorem freemap_check_exact:
  assumes n: "0 < sb_totalblocks st" "sb_totalblocks st \<le> 2 ^ 31" and disk: "disk_ok st"
    and ops: "\<forall>x \<in> set ops. fm_block x < sb_totalblocks st"
  shows "\<exists>st1 st2 st3. freemap_setup st = Some st1 \<and> for_each ops fm_step st1 = Some st2 \<and>
     freemap_check st2 = Some st3 \<and>
     bitset (disk_freemap st3) = fixed_blocks (sb_totalblocks st) \<union> inuse_blocks ops \<and>
     (\<forall>k < length (fk_disk st). k < SFS_FREEMAP_START \<or> SFS_FREEMAP_START + sb_freemapblocks st \<le> k \<longrightarrow>
        fk_disk st3 ! k = fk_disk st ! k)"
proof -
  obtain st1 where st1: "freemap_setup st = Some st1" "fm_ok st1" "fm_frame st st1"
    "bitset (fk_freemap st1) = fixed_blocks (sb_totalblocks st)"
    using freemap_setup_ok [OF n] by blast
  have sb1: "sb_totalblocks st1 = sb_totalblocks st" "sb_freemapblocks st1 = sb_freemapblocks st"
    using st1(3) by (simp_all add: fm_frame_def sb_totalblocks_def sb_freemapblocks_def)
  have cover: "sb_totalblocks st \<le> sb_freemapblocks st * SFS_BITSPERBLOCK"
    using freemapblocks_cover [OF n] by (simp add: sb_freemapblocks_def sb_totalblocks_def)
  have "fm_block x div 8 < length (fk_freemap st1)" if "x \<in> set ops" for x
  proof -
    have "fm_block x < sb_freemapblocks st * SFS_BITSPERBLOCK" using ops that cover by force
    then show ?thesis using st1(2) sb1 by (simp add: fm_ok_def sfs_consts)
  qed
  then obtain st2 where st2: "for_each ops fm_step st1 = Some st2" "fm_ok st2" "fm_frame st1 st2"
    "bitset (fk_freemap st2) = bitset (fk_freemap st1) \<union> inuse_blocks ops"
    using fm_steps_ok [OF st1(2), of ops] by blast
  have f: "fm_frame st st2" using st1(3) st2(3) by (rule fm_frame_trans)
  then have sb2: "sb_freemapblocks st2 = sb_freemapblocks st" "fk_disk st2 = fk_disk st"
    by (simp_all add: fm_frame_def sb_freemapblocks_def)
  have "disk_ok st2"
    using disk f by (simp add: disk_ok_def fm_frame_def sb_totalblocks_def sb_freemapblocks_def)
  from freemap_check_ok [OF st2(2) this] obtain st3 where st3: "freemap_check st2 = Some st3"
    "length (fk_disk st3) = length (fk_disk st)" "fk_sb st3 = fk_sb st2"
    "\<forall>k < length (fk_disk st). fk_disk st3 ! k =
        (if SFS_FREEMAP_START \<le> k \<and> k < SFS_FREEMAP_START + sb_freemapblocks st
         then map_block (k - SFS_FREEMAP_START) (fk_freemap st2) else fk_disk st ! k)"
    using sb2 by auto
  have "fk_disk st3 ! (SFS_FREEMAP_START + i) = map_block i (fk_freemap st2)"
    if "i < sb_freemapblocks st" for i
    using st3(4) that disk by (simp add: disk_ok_def)
  moreover have "sb_freemapblocks st3 = sb_freemapblocks st"
    using st3(3) sb2 by (simp add: sb_freemapblocks_def)
  ultimately have "disk_freemap st3 = concat (map (\<lambda>i. map_block i (fk_freemap st2)) [0..<sb_freemapblocks st])"
    unfolding disk_freemap_def by (intro arg_cong [where f = concat] map_cong) auto
  also have "\<dots> = fk_freemap st2"
    using st2(2) sb2 by (intro concat_map_blocks) (simp add: fm_ok_def)
  finally show ?thesis using st1 st2 st3 by auto
qed

definition small_volume :: fsck where
  "small_volume = \<lparr>fk_disk = replicate 8 (replicate SFS_BLOCKSIZE 0), fk_badness = 0,
     fk_sb = \<lparr>sb_magic = SFS_MAGIC, sb_nblocks = 8, sb_volname = replicate SFS_VOLNAME_SIZE 0,
       sb_reserved = replicate 118 0\<rparr>,
     fk_freemap = [], fk_tofree = [], fk_blocksinuse = 0, fk_inodes = [], fk_maxinodes = 0,
     fk_sorted = False, fk_unique = 0, fk_dirs = 0, fk_files = 0\<rparr>"

theorem freemap_check_exact_witness:
  "\<exists>st1 st2 st3. freemap_setup small_volume = Some st1 \<and>
     for_each [InUse 1 B_INODE, ToFree 5] fm_step st1 = Some st2 \<and> freemap_check st2 = Some st3 \<and>
     1 \<in> bitset (disk_freemap st3) \<and> 5 \<notin> bitset (disk_freemap st3)"
proof -
  have fb: "SFS_FREEMAPBLOCKS 8 = 1"
    by (simp add: SFS_FREEMAPBLOCKS_def SFS_FREEMAPBITS_def SFS_ROUNDUP_def sfs_consts)
  have hyps: "0 < sb_totalblocks small_volume" "sb_totalblocks small_volume \<le> 2 ^ 31" "disk_ok small_volume"
    "\<forall>x \<in> set [InUse 1 B_INODE, ToFree 5]. fm_block x < sb_totalblocks small_volume"
    using fb by (auto simp: small_volume_def disk_ok_def sb_totalblocks_def sb_freemapblocks_def
        SFS_FREEMAP_START_def)
  have "1 \<in> fixed_blocks 8 \<union> inuse_blocks [InUse 1 B_INODE, ToFree 5]"
    "5 \<notin> fixed_blocks 8 \<union> inuse_blocks [InUse 1 B_INODE, ToFree 5]"
    using fb by (auto simp: fixed_blocks_def inuse_blocks_def SFS_SUPER_BLOCK_def SFS_FREEMAP_START_def)
  moreover have "sb_totalblocks small_volume = 8" by (simp add: small_volume_def sb_totalblocks_def)
  ultimately show ?thesis using freemap_check_exact [OF hyps] by (elim exE conjE) (intro exI conjI, auto)
qed

end
