(* ===== verification/Sfsck_Inode.thy ===== *)
theory Sfsck_Inode
  imports Sfsck_Base User_Qsort
begin

text \<open>
  The checker's table of inodes, \<^verbatim>\<open>userland/sbin/sfsck/inode.c\<close>: filled during pass 1, sorted with
  \<^verbatim>\<open>qsort\<close>, searched by bisection during pass 2, and used to correct the link counts on disk.
\<close>

section \<open>Operations\<close>

definition inode_addtable :: "nat \<Rightarrow> nat \<Rightarrow> fsck \<Rightarrow> fsck option" where
  "inode_addtable ino type st =
     do { let ninodes = length (fk_inodes st);
          kassert (ninodes \<le> fk_maxinodes st);
          let newmax = (if ninodes = fk_maxinodes st
                        then (if fk_maxinodes st \<noteq> 0 then u32 (fk_maxinodes st * 2) else 4)
                        else fk_maxinodes st);
          kassert (ninodes < newmax);
          Some (st\<lparr>fk_inodes := fk_inodes st @
                    [\<lparr>inf_ino = ino, inf_linkcount = 0, inf_visited = False, inf_type = type\<rparr>],
                  fk_maxinodes := newmax, fk_sorted := False\<rparr>) }"

text \<open>Two different elements of the table: the assertion fails when the numbers are equal.\<close>

definition inode_compare :: "inodeinfo \<Rightarrow> inodeinfo \<Rightarrow> int option" where
  "inode_compare a b =
     (if inf_ino a < inf_ino b then Some (- 1)
      else if inf_ino b < inf_ino a then Some 1
      else None)"

definition inode_sorttable :: "fsck \<Rightarrow> fsck option" where
  "inode_sorttable st =
     do { inodes \<leftarrow> qsort inode_compare (fk_inodes st);
          Some (st\<lparr>fk_inodes := inodes, fk_sorted := True\<rparr>) }"

function inode_search :: "inodeinfo list \<Rightarrow> nat \<Rightarrow> nat \<Rightarrow> nat \<Rightarrow> nat option" where
  "inode_search inodes ino lo hi =
     (if \<not> lo < hi then None
      else let i = lo + (hi - lo) div 2
           in if inf_ino (inodes ! i) < ino then inode_search inodes ino (i + 1) hi
              else if ino < inf_ino (inodes ! i) then inode_search inodes ino lo i
              else Some i)"
  by pat_completeness auto
termination by (relation "measure (\<lambda>(_, _, lo, hi). hi - lo)") auto

declare inode_search.simps [simp del]

definition inode_find :: "nat \<Rightarrow> fsck \<Rightarrow> nat option" where
  "inode_find ino st =
     do { kassert (fk_sorted st);
          kassert (0 < length (fk_inodes st));
          inode_search (fk_inodes st) ino 0 (length (fk_inodes st)) }"

text \<open>The linear search of \<^verbatim>\<open>inode_add\<close>.\<close>

fun inode_seen :: "nat \<Rightarrow> inodeinfo list \<Rightarrow> inodeinfo option" where
  "inode_seen ino [] = None"
| "inode_seen ino (info # infos) = (if inf_ino info = ino then Some info else inode_seen ino infos)"

definition inode_add :: "nat \<Rightarrow> nat \<Rightarrow> fsck \<Rightarrow> (bool \<times> fsck) option" where
  "inode_add ino type st =
     (case inode_seen ino (fk_inodes st) of
        Some info \<Rightarrow> do { kassert (inf_linkcount info = 0); kassert (inf_type info = type); Some (True, st) }
      | None \<Rightarrow> do { st \<leftarrow> inode_addtable ino type st; Some (False, st) })"

definition inode_visitdir :: "nat \<Rightarrow> fsck \<Rightarrow> (bool \<times> fsck) option" where
  "inode_visitdir ino st =
     do { i \<leftarrow> inode_find ino st;
          let info = fk_inodes st ! i;
          kassert (inf_type info = SFS_TYPE_DIR);
          kassert (inf_linkcount info = 0);
          Some (if inf_visited info then (True, st)
                else (False, st\<lparr>fk_inodes := (fk_inodes st)[i := info\<lparr>inf_visited := True\<rparr>]\<rparr>)) }"

definition inode_addlink :: "nat \<Rightarrow> fsck \<Rightarrow> fsck option" where
  "inode_addlink ino st =
     do { i \<leftarrow> inode_find ino st;
          let info = fk_inodes st ! i;
          kassert (inf_type info = SFS_TYPE_FILE);
          kassert (\<not> inf_visited info);
          Some (st\<lparr>fk_inodes :=
                     (fk_inodes st)[i := info\<lparr>inf_linkcount := u32 (inf_linkcount info + 1)\<rparr>]\<rparr>) }"

text \<open>
  One step of \<^verbatim>\<open>inode_adjust_filelinks\<close>.  The link count on disk has 16 bits, the one in the table 32.
\<close>

definition inode_adjust :: "inodeinfo \<Rightarrow> fsck \<Rightarrow> fsck option" where
  "inode_adjust info st =
     (if inf_type info = SFS_TYPE_DIR then Some st
      else do { kassert (inf_type info = SFS_TYPE_FILE);
                kassert (0 < inf_linkcount info);
                sfi \<leftarrow> sfs_readinode (inf_ino info) st;
                kassert (sfi_type sfi = SFS_TYPE_FILE);
                if sfi_linkcount sfi \<noteq> inf_linkcount info
                then sfs_writeinode (inf_ino info) (sfi\<lparr>sfi_linkcount := inf_linkcount info mod 2 ^ 16\<rparr>)
                       (setbadness EXIT_RECOV st)
                else Some st })"

definition inode_adjust_filelinks :: "fsck \<Rightarrow> fsck option" where
  "inode_adjust_filelinks st = for_each (fk_inodes st) inode_adjust st"

section \<open>The table\<close>

definition inode_order :: "inodeinfo \<Rightarrow> inodeinfo \<Rightarrow> int" where
  "inode_order a b = (if inf_ino a < inf_ino b then - 1 else if inf_ino b < inf_ino a then 1 else 0)"

interpretation ino: comparator inode_compare inode_order
proof
  show "0 < inode_order x y \<longleftrightarrow> inode_order y x < 0" for x y by (auto simp: inode_order_def)
  show "inode_order x z \<le> 0" if "inode_order x y \<le> 0" "inode_order y z \<le> 0" for x y z
    using that by (auto simp: inode_order_def split: if_splits)
qed

lemma inode_compare_defined:
  assumes "distinct (map inf_ino xs)"
  shows "defined_on inode_compare inode_order (mset xs)"
proof -
  have "inf_ino x \<noteq> inf_ino y" if "{#x, y#} \<subseteq># mset xs" for x y
  proof
    assume eq: "inf_ino x = inf_ino y"
    have "image_mset inf_ino {#x, y#} \<subseteq># mset (map inf_ino xs)"
      using image_mset_subseteq_mono [OF that, of inf_ino] by simp
    then have "{#inf_ino y, inf_ino y#} \<subseteq># mset (map inf_ino xs)" using eq by simp
    then have "2 \<le> count (mset (map inf_ino xs)) (inf_ino y)"
      by (drule_tac mset_subset_eq_count [of _ _ "inf_ino y"]) simp
    moreover have "count (mset (map inf_ino xs)) (inf_ino y) \<le> 1"
      using assms by (simp add: distinct_count_atmost_1 del: mset_map)
    ultimately show False by simp
  qed
  then show ?thesis by (fastforce simp: defined_on_def inode_compare_def inode_order_def)
qed

definition table_sorted :: "inodeinfo list \<Rightarrow> bool" where
  "table_sorted xs \<longleftrightarrow> sorted_wrt (<) (map inf_ino xs)"

lemma inode_sorttable_ok:
  assumes "distinct (map inf_ino (fk_inodes st))"
  shows "\<exists>xs. inode_sorttable st = Some (st\<lparr>fk_inodes := xs, fk_sorted := True\<rparr>) \<and>
     mset xs = mset (fk_inodes st) \<and> table_sorted xs"
proof -
  from ino.qsort_correct [OF inode_compare_defined [OF assms]] obtain xs where
    xs: "qsort inode_compare (fk_inodes st) = Some xs" "mset xs = mset (fk_inodes st)"
    "sorted_wrt (\<lambda>x y. inode_order x y \<le> 0) xs" by blast
  have "mset (map inf_ino xs) = mset (map inf_ino (fk_inodes st))" using xs(2) by simp
  then have "distinct (map inf_ino xs)" using assms mset_eq_imp_distinct_iff by blast
  moreover have "sorted (map inf_ino xs)"
    using xs(3) by (auto simp: sorted_map inode_order_def elim!: sorted_wrt_mono_rel [rotated]
        split: if_splits)
  ultimately have "table_sorted xs" by (simp add: table_sorted_def strict_sorted_iff)
  with xs show ?thesis by (auto simp: inode_sorttable_def)
qed

lemma inode_search_ok:
  assumes "table_sorted xs" "hi \<le> length xs"
    "\<forall>i < length xs. inf_ino (xs ! i) = ino \<longrightarrow> lo \<le> i \<and> i < hi"
  shows "(case inode_search xs ino lo hi of
      Some i \<Rightarrow> i < length xs \<and> inf_ino (xs ! i) = ino
    | None \<Rightarrow> ino \<notin> inf_ino ` set xs)"
  using assms
proof (induction xs ino lo hi rule: inode_search.induct)
  case (1 xs ino lo hi)
  have mono: "inf_ino (xs ! i) < inf_ino (xs ! j)" if "i < j" "j < length xs" for i j
    using 1(3) that by (simp add: table_sorted_def sorted_wrt_iff_nth_less)
  show ?case
  proof (cases "lo < hi")
    case False
    have "\<not> (lo \<le> i \<and> i < hi)" for i using False by linarith
    then have "ino \<notin> inf_ino ` set xs" using 1(5) by (metis imageE in_set_conv_nth)
    then show ?thesis using False by (subst inode_search.simps) simp
  next
    case True
    define i where "i = lo + (hi - lo) div 2"
    have i: "lo \<le> i" "i < hi" "i < length xs" using True 1(4) by (auto simp: i_def)
    consider (less) "inf_ino (xs ! i) < ino" | (gr) "ino < inf_ino (xs ! i)" | (eq) "inf_ino (xs ! i) = ino"
      by linarith
    then show ?thesis
    proof cases
      case less
      have "i < k" if "k < length xs" "inf_ino (xs ! k) = ino" for k
      proof (rule ccontr)
        assume "\<not> i < k"
        then show False using mono [of k i] less i that by (cases "k = i") auto
      qed
      then have "\<forall>k < length xs. inf_ino (xs ! k) = ino \<longrightarrow> i + 1 \<le> k \<and> k < hi"
        using 1(5) by fastforce
      with 1(1) [OF _ i_def less] 1(3,4) True less show ?thesis
        by (subst inode_search.simps) (simp add: i_def [symmetric] Let_def)
    next
      case gr
      have "k < i" if "k < length xs" "inf_ino (xs ! k) = ino" for k
      proof (rule ccontr)
        assume "\<not> k < i"
        then show False using mono [of i k] gr that by (cases "k = i") auto
      qed
      then have "\<forall>k < length xs. inf_ino (xs ! k) = ino \<longrightarrow> lo \<le> k \<and> k < i"
        using 1(5) by fastforce
      with 1(2) [OF _ i_def _ gr] 1(3,4) True gr i show ?thesis
        by (subst inode_search.simps) (simp add: i_def [symmetric] Let_def)
    next
      case eq
      with True i show ?thesis by (subst inode_search.simps) (simp add: i_def [symmetric] Let_def)
    qed
  qed
qed

lemma inode_find_ok:
  assumes "fk_sorted st" "table_sorted (fk_inodes st)" "ino \<in> inf_ino ` set (fk_inodes st)"
  obtains i where "inode_find ino st = Some i" "i < length (fk_inodes st)" "inf_ino (fk_inodes st ! i) = ino"
proof -
  have "0 < length (fk_inodes st)" using assms(3) by auto
  with inode_search_ok [OF assms(2), of "length (fk_inodes st)" ino 0] assms(1,3) that show ?thesis
    by (auto simp: inode_find_def split: option.splits)
qed

lemma update_as_map:
  assumes "distinct (map inf_ino xs)" "i < length xs" "g (xs ! i) = y"
  shows "xs[i := y] = map (\<lambda>e. if inf_ino e = inf_ino (xs ! i) then g e else e) xs"
proof (rule nth_equalityI)
  fix j assume j: "j < length (xs[i := y])"
  have "inf_ino (xs ! j) = inf_ino (xs ! i) \<longleftrightarrow> j = i"
    using assms(1,2) j by (auto simp: distinct_conv_nth)
  then show "xs[i := y] ! j = map (\<lambda>e. if inf_ino e = inf_ino (xs ! i) then g e else e) xs ! j"
    using j assms(3) by (auto simp: nth_list_update)
qed simp

text \<open>The table with the links of a list added to the counts.\<close>

definition with_links :: "nat list \<Rightarrow> inodeinfo list \<Rightarrow> inodeinfo list" where
  "with_links ls xs = map (\<lambda>e. e\<lparr>inf_linkcount := inf_linkcount e + count_list ls (inf_ino e)\<rparr>) xs"

lemma with_links_ino [simp]: "map inf_ino (with_links ls xs) = map inf_ino xs"
  by (simp add: with_links_def)

lemma with_links_sorted [simp]: "table_sorted (with_links ls xs) = table_sorted xs"
  by (simp add: table_sorted_def)

lemma table_sorted_distinct: "table_sorted xs \<Longrightarrow> distinct (map inf_ino xs)"
  by (simp add: table_sorted_def strict_sorted_iff)

lemma inode_addlink_ok:
  assumes st: "fk_sorted st" "table_sorted (fk_inodes st)" and e: "e \<in> set (fk_inodes st)" "inf_ino e = ino"
    and fl: "inf_type e = SFS_TYPE_FILE" "\<not> inf_visited e" "inf_linkcount e + 1 < 2 ^ 32"
  shows "inode_addlink ino st = Some (st\<lparr>fk_inodes := with_links [ino] (fk_inodes st)\<rparr>)"
proof -
  have "ino \<in> inf_ino ` set (fk_inodes st)" using e by force
  from inode_find_ok [OF st this] obtain i where
    i: "inode_find ino st = Some i" "i < length (fk_inodes st)" "inf_ino (fk_inodes st ! i) = ino" by blast
  have dist: "distinct (map inf_ino (fk_inodes st))" using st(2) by (rule table_sorted_distinct)
  from e(1) obtain j where "j < length (fk_inodes st)" "fk_inodes st ! j = e" by (auto simp: in_set_conv_nth)
  with dist i(2,3) e(2) have e: "fk_inodes st ! i = e" by (metis length_map nth_eq_iff_index_eq nth_map)
  have "(fk_inodes st)[i := e\<lparr>inf_linkcount := inf_linkcount e + 1\<rparr>] = with_links [ino] (fk_inodes st)"
    using update_as_map [OF dist i(2), of "\<lambda>e. e\<lparr>inf_linkcount := inf_linkcount e + 1\<rparr>"] e i(3)
    by (auto simp: with_links_def)
  with i e fl show ?thesis by (simp add: inode_addlink_def Let_def)
qed

lemma with_links_append: "with_links ls (with_links [x] xs) = with_links (x # ls) xs"
  by (auto simp: with_links_def)

lemma inode_addlinks_ok:
  assumes "fk_sorted st" "table_sorted (fk_inodes st)"
    and "\<forall>l \<in> set ls. \<exists>e \<in> set (fk_inodes st). inf_ino e = l \<and> inf_type e = SFS_TYPE_FILE \<and> \<not> inf_visited e"
    and "\<forall>e \<in> set (fk_inodes st). inf_linkcount e + length ls < 2 ^ 32"
  shows "for_each ls inode_addlink st = Some (st\<lparr>fk_inodes := with_links ls (fk_inodes st)\<rparr>)"
  using assms
proof (induction ls arbitrary: st)
  case Nil
  then show ?case by (simp add: with_links_def)
next
  case (Cons l ls)
  let ?st = "st\<lparr>fk_inodes := with_links [l] (fk_inodes st)\<rparr>"
  from Cons.prems(3) obtain e where e: "e \<in> set (fk_inodes st)" "inf_ino e = l"
    "inf_type e = SFS_TYPE_FILE" "\<not> inf_visited e" by auto
  have lt: "inf_linkcount e + 1 < 2 ^ 32" using Cons.prems(4) e(1) by fastforce
  have step: "inode_addlink l st = Some ?st"
    by (rule inode_addlink_ok [OF Cons.prems(1,2) e lt])
  have "for_each ls inode_addlink ?st = Some (?st\<lparr>fk_inodes := with_links ls (fk_inodes ?st)\<rparr>)"
  proof (rule Cons.IH)
    show "\<forall>k \<in> set ls. \<exists>e \<in> set (fk_inodes ?st). inf_ino e = k \<and> inf_type e = SFS_TYPE_FILE \<and> \<not> inf_visited e"
      using Cons.prems(3) by (fastforce simp: with_links_def)
    show "\<forall>e \<in> set (fk_inodes ?st). inf_linkcount e + length ls < 2 ^ 32"
      using Cons.prems(4) by (fastforce simp: with_links_def)
  qed (use Cons.prems(1,2) in simp_all)
  with step show ?case by (simp add: with_links_append)
qed

text \<open>The disk inode of a file before its link count is corrected.\<close>

definition file_on_disk :: "block list \<Rightarrow> inodeinfo \<Rightarrow> bool" where
  "file_on_disk d e \<longleftrightarrow> inf_ino e < length d \<and> length (d ! inf_ino e) = SFS_BLOCKSIZE \<and>
     sfi_type (dec_dinode (d ! inf_ino e)) = SFS_TYPE_FILE"

lemma inode_adjust_ok:
  assumes "inf_type e = SFS_TYPE_FILE" "0 < inf_linkcount e" "inf_linkcount e < 2 ^ 16"
    "file_on_disk (fk_disk st) e"
  shows "\<exists>b. inode_adjust e st = Some (st\<lparr>fk_disk := (fk_disk st)[inf_ino e :=
       enc_dinode ((dec_dinode (fk_disk st ! inf_ino e))\<lparr>sfi_linkcount := inf_linkcount e\<rparr>)],
       fk_badness := b\<rparr>)"
proof (cases "sfi_linkcount (dec_dinode (fk_disk st ! inf_ino e)) = inf_linkcount e")
  case True
  let ?b = "fk_disk st ! inf_ino e"
  have "(dec_dinode ?b)\<lparr>sfi_linkcount := inf_linkcount e\<rparr> = dec_dinode ?b" using True by simp
  then have "enc_dinode ((dec_dinode ?b)\<lparr>sfi_linkcount := inf_linkcount e\<rparr>) = ?b"
    using assms(4) by (simp add: enc_dec_dinode file_on_disk_def)
  with True assms show ?thesis
    by (auto simp: inode_adjust_def sfs_readinode_def file_on_disk_def sfs_consts
        intro!: exI [of _ "fk_badness st"])
next
  case False
  with assms show ?thesis
    by (auto simp: inode_adjust_def sfs_readinode_def sfs_writeinode_def diskwrite_def file_on_disk_def
        setbadness_def sfs_consts max_def intro!: exI [of _ "max (fk_badness st) EXIT_RECOV"])
qed

lemma dinode_ok_links: "dinode_ok sfi \<Longrightarrow> n < 2 ^ 16 \<Longrightarrow> dinode_ok (sfi\<lparr>sfi_linkcount := n\<rparr>)"
  by (simp add: dinode_ok_def)

lemma inode_adjusts_ok:
  assumes "distinct (map inf_ino xs)" "\<forall>e \<in> set xs. inf_type e \<in> {SFS_TYPE_DIR, SFS_TYPE_FILE}"
    "\<forall>e \<in> set xs. inf_type e = SFS_TYPE_FILE \<longrightarrow>
       0 < inf_linkcount e \<and> inf_linkcount e < 2 ^ 16 \<and> file_on_disk (fk_disk st) e"
  shows "\<exists>st'. for_each xs inode_adjust st = Some st' \<and>
     (\<forall>e \<in> set xs. inf_type e = SFS_TYPE_FILE \<longrightarrow> fk_disk st' ! inf_ino e =
        enc_dinode ((dec_dinode (fk_disk st ! inf_ino e))\<lparr>sfi_linkcount := inf_linkcount e\<rparr>)) \<and>
     (\<forall>k. (\<forall>e \<in> set xs. inf_type e = SFS_TYPE_FILE \<longrightarrow> inf_ino e \<noteq> k) \<longrightarrow>
        fk_disk st' ! k = fk_disk st ! k)"
  using assms
proof (induction xs arbitrary: st)
  case Nil
  then show ?case by simp
next
  case (Cons e xs)
  show ?case
  proof (cases "inf_type e = SFS_TYPE_FILE")
    case False
    then have "inf_type e = SFS_TYPE_DIR" using Cons.prems(2) by simp
    then have "inode_adjust e st = Some st" by (simp add: inode_adjust_def)
    with False Cons.IH [of st] Cons.prems show ?thesis by auto
  next
    case True
    let ?i = "inf_ino e"
    let ?b = "enc_dinode ((dec_dinode (fk_disk st ! ?i))\<lparr>sfi_linkcount := inf_linkcount e\<rparr>)"
    from True Cons.prems(3) inode_adjust_ok [OF True, of st] obtain n where
      step: "inode_adjust e st = Some (st\<lparr>fk_disk := (fk_disk st)[?i := ?b], fk_badness := n\<rparr>)" by auto
    let ?st = "st\<lparr>fk_disk := (fk_disk st)[?i := ?b], fk_badness := n\<rparr>"
    have "?i \<notin> inf_ino ` set xs" using Cons.prems(1) by simp
    then have ne: "inf_ino e' \<noteq> ?i" if "e' \<in> set xs" for e' using that by (metis imageI)
    have "\<forall>e \<in> set xs. inf_type e = SFS_TYPE_FILE \<longrightarrow>
        0 < inf_linkcount e \<and> inf_linkcount e < 2 ^ 16 \<and> file_on_disk (fk_disk ?st) e"
      using Cons.prems(3) ne [THEN not_sym] by (auto simp: file_on_disk_def)
    with Cons.IH [of ?st] Cons.prems obtain st' where st': "for_each xs inode_adjust ?st = Some st'"
      "\<forall>e \<in> set xs. inf_type e = SFS_TYPE_FILE \<longrightarrow> fk_disk st' ! inf_ino e =
        enc_dinode ((dec_dinode (fk_disk ?st ! inf_ino e))\<lparr>sfi_linkcount := inf_linkcount e\<rparr>)"
      "\<forall>k. (\<forall>e \<in> set xs. inf_type e = SFS_TYPE_FILE \<longrightarrow> inf_ino e \<noteq> k) \<longrightarrow>
        fk_disk st' ! k = fk_disk ?st ! k" by auto
    have i: "?i < length (fk_disk st)" using True Cons.prems(3) by (auto simp: file_on_disk_def)
    have "fk_disk st' ! ?i = ?b" using st'(3) ne i by auto
    moreover have "fk_disk ?st ! inf_ino e' = fk_disk st ! inf_ino e'" if "e' \<in> set xs" for e'
      using ne [OF that, THEN not_sym] by simp
    moreover have "fk_disk ?st ! k = fk_disk st ! k" if "?i \<noteq> k" for k using that by simp
    ultimately show ?thesis using step st' True by auto
  qed
qed

section \<open>Properties\<close>


definition two_links :: fsck where
  "two_links = \<lparr>fk_disk = replicate 3 (replicate SFS_BLOCKSIZE 0) @ [enc_dinode
       \<lparr>sfi_size = 0, sfi_type = SFS_TYPE_FILE, sfi_linkcount = 7, sfi_direct = replicate SFS_NDIRECT 0,
        sfi_indirect = 0, sfi_waste = replicate (128 - 3 - SFS_NDIRECT) 0\<rparr>], fk_badness = 0,
     fk_sb = \<lparr>sb_magic = SFS_MAGIC, sb_nblocks = 4, sb_volname = replicate SFS_VOLNAME_SIZE 0,
       sb_reserved = replicate 118 0\<rparr>,
     fk_freemap = [], fk_tofree = [], fk_blocksinuse = 0,
     fk_inodes = [\<lparr>inf_ino = 3, inf_linkcount = 0, inf_visited = False, inf_type = SFS_TYPE_FILE\<rparr>],
     fk_maxinodes = 4, fk_sorted = False, fk_unique = 0, fk_dirs = 0, fk_files = 0\<rparr>"


end
