(* ===== verification/Sfsck_Pass.thy ===== *)
theory Sfsck_Pass
  imports Sfsck_Freemap Sfsck_Inode Libc_Printf
begin

text \<open>
  The passes of the checker: \<^verbatim>\<open>pass1.c\<close>, \<^verbatim>\<open>pass2.c\<close>, the directory utilities of \<^verbatim>\<open>sfs.c\<close> and \<^verbatim>\<open>main.c\<close>
  (\<^verbatim>\<open>userland/sbin/sfsck\<close>).

  Both passes walk the directory tree recursively.  A damaged volume need not be a tree, so the
  recursion takes an amount of fuel, and running out of it is a result of its own, different from
  stopping the program.  The paths only serve messages and are left out.
\<close>

section \<open>Results of a walk\<close>

datatype 'a walk = Ret 'a | Stop | NoFuel

primrec wbind :: "'a walk \<Rightarrow> ('a \<Rightarrow> 'b walk) \<Rightarrow> 'b walk" where
  "wbind (Ret x) f = f x"
| "wbind Stop f = Stop"
| "wbind NoFuel f = NoFuel"

definition wlift :: "'a option \<Rightarrow> 'a walk" where
  "wlift x = (case x of None \<Rightarrow> Stop | Some y \<Rightarrow> Ret y)"

lemma wlift_simps [simp]: "wlift None = Stop" "wlift (Some y) = Ret y"
  by (simp_all add: wlift_def)

lemma wlift_NoFuel [simp]: "wlift x \<noteq> NoFuel"
  by (cases x) simp_all

lemma wlift_Ret [simp]: "wlift x = Ret y \<longleftrightarrow> x = Some y"
  by (cases x) simp_all

lemma wbind_Ret: "wbind m f = Ret y \<longleftrightarrow> (\<exists>x. m = Ret x \<and> f x = Ret y)"
  by (cases m) simp_all

lemma wbind_NoFuel: "wbind m f = NoFuel \<longleftrightarrow> m = NoFuel \<or> (\<exists>x. m = Ret x \<and> f x = NoFuel)"
  by (cases m) simp_all

section \<open>Pass 1: blocks and sizes\<close>

record ibstate =
  ib_curfileblock :: nat
  ib_fileblocks :: nat
  ib_volblocks :: nat
  ib_pasteofcount :: nat
  ib_usagetype :: blockusage

text \<open>One pointer to a data block: the pointer afterwards and whether it was changed.\<close>

definition check_entry :: "nat \<Rightarrow> ibstate \<Rightarrow> fsck \<Rightarrow> (nat \<times> bool \<times> ibstate \<times> fsck) option" where
  "check_entry e ibs st =
     do { let ibs' = ibs\<lparr>ib_curfileblock := u32 (ib_curfileblock ibs + 1)\<rparr>;
          if ib_volblocks ibs \<le> e then Some (0, True, ibs', setbadness EXIT_RECOV st)
          else if e \<noteq> 0
          then if ib_curfileblock ibs < ib_fileblocks ibs
               then do { st \<leftarrow> freemap_blockinuse e (ib_usagetype ibs) st; Some (e, False, ibs', st) }
               else do { st \<leftarrow> freemap_blockfree e (setbadness EXIT_RECOV st);
                         Some (0, True, ibs'\<lparr>ib_pasteofcount := u32 (ib_pasteofcount ibs + 1)\<rparr>, st) }
          else Some (e, False, ibs', st) }"

primrec walk_entries ::
    "(nat \<Rightarrow> ibstate \<Rightarrow> fsck \<Rightarrow> (nat \<times> bool \<times> ibstate \<times> fsck) option) \<Rightarrow>
     nat list \<Rightarrow> ibstate \<Rightarrow> fsck \<Rightarrow> (nat list \<times> bool \<times> ibstate \<times> fsck) option" where
  "walk_entries f [] ibs st = Some ([], False, ibs, st)"
| "walk_entries f (e # es) ibs st =
     do { (e, c, ibs, st) \<leftarrow> f e ibs st;
          (es, cs, ibs, st) \<leftarrow> walk_entries f es ibs st;
          Some (e # es, c \<or> cs, ibs, st) }"

primrec check_indirect_block ::
    "nat \<Rightarrow> nat \<Rightarrow> ibstate \<Rightarrow> fsck \<Rightarrow> (nat \<times> bool \<times> ibstate \<times> fsck) option" where
  "check_indirect_block 0 ientry ibs st = None"
| "check_indirect_block (Suc n) ientry ibs st =
     (if 0 < ientry \<and> ientry < ib_volblocks ibs
      then do { entries \<leftarrow> sfs_readindirect ientry st;
                st \<leftarrow> freemap_blockinuse ientry B_IBLOCK st;
                (entries, localchanged, ibs, st) \<leftarrow>
                   walk_entries (if n = 0 then check_entry else check_indirect_block n) entries ibs st;
                if \<forall>e \<in> set entries. e = 0
                then do { st \<leftarrow> freemap_blockfree ientry (setbadness EXIT_RECOV st);
                          Some (0, True, ibs, st) }
                else do { st \<leftarrow> (if localchanged then sfs_writeindirect ientry entries st else Some st);
                          Some (ientry, False, ibs, st) } }
      else do { let ibs' = ibs\<lparr>ib_curfileblock := u32 (ib_curfileblock ibs + SFS_DBPERIDB ^ Suc n)\<rparr>;
                if ib_volblocks ibs \<le> ientry then Some (0, True, ibs', setbadness EXIT_RECOV st)
                else Some (ientry, False, ibs', st) })"

declare check_indirect_block.simps [simp del]

text \<open>The one indirect pointer is the only level this layout has.\<close>

definition check_inode_blocks :: "sfs_dinode \<Rightarrow> bool \<Rightarrow> fsck \<Rightarrow> (sfs_dinode \<times> bool \<times> fsck) option" where
  "check_inode_blocks sfi isdir st =
     do { let ibs = \<lparr>ib_curfileblock = 0,
            ib_fileblocks = SFS_ROUNDUP (sfi_size sfi) SFS_BLOCKSIZE div SFS_BLOCKSIZE,
            ib_volblocks = sb_totalblocks st, ib_pasteofcount = 0,
            ib_usagetype = (if isdir then B_DIRDATA else B_DATA)\<rparr>;
          (direct, changed, ibs, st) \<leftarrow> walk_entries check_entry (sfi_direct sfi) ibs st;
          (indirect, ichanged, ibs, st) \<leftarrow> check_indirect_block 1 (sfi_indirect sfi) ibs st;
          let st = (if 0 < ib_pasteofcount ibs then setbadness EXIT_RECOV st else st);
          Some (sfi\<lparr>sfi_direct := direct, sfi_indirect := indirect\<rparr>, changed \<or> ichanged, st) }"

definition pass1_inode ::
    "nat \<Rightarrow> sfs_dinode \<Rightarrow> bool \<Rightarrow> fsck \<Rightarrow> (bool \<times> sfs_dinode \<times> fsck) option" where
  "pass1_inode ino sfi alreadychanged st =
     do { (seen, st) \<leftarrow> inode_add ino (sfi_type sfi) st;
          if seen then do { kassert (\<not> alreadychanged); Some (True, sfi, st) }
          else do { st \<leftarrow> freemap_blockinuse ino B_INODE st;
                    let (c1, waste) = checkzeroed (sfi_waste sfi);
                    let st = (if c1 then setbadness EXIT_RECOV st else st);
                    let sfi = sfi\<lparr>sfi_waste := waste\<rparr>;
                    (sfi, c2, st) \<leftarrow> check_inode_blocks sfi (sfi_type sfi = SFS_TYPE_DIR) st;
                    st \<leftarrow> (if alreadychanged \<or> c1 \<or> c2 then sfs_writeinode ino sfi st else Some st);
                    Some (False, sfi, st) } }"

text \<open>A made-up name, written over the field with \<^verbatim>\<open>snprintf\<close>.\<close>

definition byte_char :: "byte \<Rightarrow> char" where "byte_char b = char_of (unat b)"

definition fsck_name :: "byte list \<Rightarrow> nat \<Rightarrow> nat \<Rightarrow> byte list option" where
  "fsck_name old ino uid =
     do { (chars, buf) \<leftarrow> snprintf (replicate NUMBER_BUF_SIZE NUL) (map byte_char old) (length old)
            ''FSCK.%lu.%lu'' [VaInt (of_nat ino), VaInt (of_nat uid)];
          Some (map (\<lambda>c. of_nat (uchar c)) buf) }"

text \<open>The name of an entry in use: made up when there is none, then terminated and cleaned.\<close>

definition direntry_noname :: "sfs_direntry \<Rightarrow> byte \<Rightarrow> fsck \<Rightarrow> (byte list \<times> bool \<times> fsck) option" where
  "direntry_noname sfd c0 st =
     (if c0 = 0
      then do { let (uid, st) = uniqueid st;
                name \<leftarrow> fsck_name (sfd_name sfd) (sfd_ino sfd) uid;
                Some (name, True, setbadness EXIT_RECOV st) }
      else Some (sfd_name sfd, False, st))"

definition direntry_strings :: "byte list \<Rightarrow> fsck \<Rightarrow> (byte list \<times> bool \<times> fsck) option" where
  "direntry_strings name st =
     do { (c2, name) \<leftarrow> checknullstring name;
          let st = (if c2 then setbadness EXIT_RECOV st else st);
          (c3, name) \<leftarrow> checkbadstring name;
          let st = (if c3 then setbadness EXIT_RECOV st else st);
          Some (name, c2 \<or> c3, st) }"

definition pass1_direntry :: "sfs_direntry \<Rightarrow> fsck \<Rightarrow> (sfs_direntry \<times> bool \<times> fsck) option" where
  "pass1_direntry sfd st =
     do { c0 \<leftarrow> cread (sfd_name sfd) 0;
          if sfd_ino sfd = SFS_NOINO
          then if c0 \<noteq> 0
               then Some (sfd\<lparr>sfd_name := (sfd_name sfd)[0 := 0]\<rparr>, True, setbadness EXIT_RECOV st)
               else Some (sfd, False, st)
          else if sb_totalblocks st \<le> sfd_ino sfd
          then Some (\<lparr>sfd_ino = SFS_NOINO, sfd_name = (sfd_name sfd)[0 := 0]\<rparr>, True,
                     setbadness EXIT_RECOV st)
          else do { (name, c1, st) \<leftarrow> direntry_noname sfd c0 st;
                    (name, c2, st) \<leftarrow> direntry_strings name st;
                    Some (sfd\<lparr>sfd_name := name\<rparr>, c1 \<or> c2, st) } }"

primrec walk_direntries ::
    "(sfs_direntry \<Rightarrow> fsck \<Rightarrow> (sfs_direntry \<times> bool \<times> fsck) walk) \<Rightarrow>
     sfs_direntry list \<Rightarrow> fsck \<Rightarrow> (sfs_direntry list \<times> bool \<times> fsck) walk" where
  "walk_direntries f [] st = Ret ([], False, st)"
| "walk_direntries f (d # ds) st =
     wbind (f d st) (\<lambda>(d, c, st).
     wbind (walk_direntries f ds st) (\<lambda>(ds, cs, st).
     Ret (d # ds, c \<or> cs, st)))"

definition DOT :: "byte list" where "DOT = [46]"
definition DOTDOT :: "byte list" where "DOTDOT = [46, 46]"

definition cleared :: "sfs_direntry \<Rightarrow> sfs_direntry" where
  "cleared d = \<lparr>sfd_ino = SFS_NOINO, sfd_name = (sfd_name d)[0 := 0]\<rparr>"

text \<open>What pass 1 does with one entry of a directory; \<open>rec\<close> is \<^verbatim>\<open>pass1_dir\<close>.\<close>

definition pass1_entry ::
    "(nat \<Rightarrow> fsck \<Rightarrow> fsck walk) \<Rightarrow> sfs_direntry \<Rightarrow> fsck \<Rightarrow> (sfs_direntry \<times> bool \<times> fsck) walk" where
  "pass1_entry rec d st =
     (if sfd_ino d = SFS_NOINO \<or> cname (sfd_name d) = DOT \<or> cname (sfd_name d) = DOTDOT
      then Ret (d, False, st)
      else wbind (wlift (sfs_readinode (sfd_ino d) st)) (\<lambda>subsfi.
           if sfi_type subsfi = SFS_TYPE_FILE
           then wbind (wlift (pass1_inode (sfd_ino d) subsfi False st)) (\<lambda>(seen, _, st).
                Ret (d, False, if seen then st else st\<lparr>fk_files := fk_files st + 1\<rparr>))
           else if sfi_type subsfi = SFS_TYPE_DIR
           then wbind (rec (sfd_ino d) st) (\<lambda>st. Ret (d, False, st))
           else Ret (cleared d, True, setbadness EXIT_RECOV st)))"

text \<open>Reading a directory's inode, correcting its size, and checking its blocks.\<close>

definition pass1_load :: "nat \<Rightarrow> fsck \<Rightarrow> (bool \<times> sfs_dinode \<times> fsck) option" where
  "pass1_load ino st =
     do { sfi \<leftarrow> sfs_readinode ino st;
          let ichanged = (sfi_size sfi mod DIRENTRY_SIZE \<noteq> 0);
          let st = (if ichanged then setbadness EXIT_RECOV st else st);
          let sfi = (if ichanged then sfi\<lparr>sfi_size := SFS_ROUNDUP (sfi_size sfi) DIRENTRY_SIZE\<rparr> else sfi);
          pass1_inode ino sfi ichanged (st\<lparr>fk_dirs := fk_dirs st + 1\<rparr>) }"

text \<open>Its entries: first each on its own, then what they lead to.\<close>

definition pass1_contents :: "(nat \<Rightarrow> fsck \<Rightarrow> fsck walk) \<Rightarrow> sfs_dinode \<Rightarrow> fsck \<Rightarrow> fsck walk" where
  "pass1_contents rec sfi st =
     (let nd = sfi_size sfi div DIRENTRY_SIZE
      in wbind (wlift (sfs_readdir sfi nd st)) (\<lambda>ds.
         wbind (walk_direntries (\<lambda>d st. wlift (pass1_direntry d st)) ds st) (\<lambda>(ds, c1, st).
         wbind (walk_direntries (pass1_entry rec) ds st) (\<lambda>(ds, c2, st).
         if c1 \<or> c2 then wlift (sfs_writedir sfi ds nd st) else Ret st))))"

primrec pass1_dir :: "nat \<Rightarrow> nat \<Rightarrow> fsck \<Rightarrow> fsck walk" where
  "pass1_dir 0 ino st = NoFuel"
| "pass1_dir (Suc fuel) ino st =
     wbind (wlift (pass1_load ino st)) (\<lambda>(seen, sfi, st).
     if seen then Ret st else pass1_contents (pass1_dir fuel) sfi st)"

definition pass1 :: "nat \<Rightarrow> fsck \<Rightarrow> fsck walk" where
  "pass1 fuel st =
     wbind (wlift (sfs_readinode SFS_ROOTDIR_INO st)) (\<lambda>sfi.
     wbind (if sfi_type sfi = SFS_TYPE_DIR then Ret st
            else wlift (sfs_writeinode SFS_ROOTDIR_INO (sfi\<lparr>sfi_type := SFS_TYPE_DIR\<rparr>)
                          (setbadness EXIT_RECOV st))) (\<lambda>st.
     pass1_dir fuel SFS_ROOTDIR_INO st))"

section \<open>Pass 2: the directory tree\<close>

text \<open>
  \<^verbatim>\<open>strcmp\<close> on two name fields.  The comparison may end before a field does; running past the end of
  a field has no result.
\<close>

fun name_cmp :: "byte list \<Rightarrow> byte list \<Rightarrow> int option" where
  "name_cmp (a # as) (b # bs) =
     (if a \<noteq> 0 \<and> a = b then name_cmp as bs
      else Some (if b < a then 1 else if a = b then 0 else - 1))"
| "name_cmp _ _ = None"

definition dirsortfunc :: "sfs_direntry list \<Rightarrow> nat \<Rightarrow> nat \<Rightarrow> int option" where
  "dirsortfunc d a b =
     do { ad \<leftarrow> cread d a;
          bd \<leftarrow> cread d b;
          if sfd_ino ad = SFS_NOINO \<and> sfd_ino bd = SFS_NOINO then Some 0
          else if sfd_ino ad = SFS_NOINO then Some 1
          else if sfd_ino bd = SFS_NOINO then Some (- 1)
          else name_cmp (sfd_name ad) (sfd_name bd) }"

definition sfsdir_sort :: "sfs_direntry list \<Rightarrow> nat list option" where
  "sfsdir_sort d = qsort (dirsortfunc d) [0..<length d]"

fun sfsdir_tryadd :: "sfs_direntry list \<Rightarrow> byte list \<Rightarrow> nat \<Rightarrow> sfs_direntry list option" where
  "sfsdir_tryadd [] name ino = None"
| "sfsdir_tryadd (d # ds) name ino =
     (if sfd_ino d = SFS_NOINO
      then Some (\<lparr>sfd_ino = ino, sfd_name = name @ [0] @ drop (length name + 1) (sfd_name d)\<rparr> # ds)
      else map_option (Cons d) (sfsdir_tryadd ds name ino))"

text \<open>Neighbours in sorted order with the same name: the first is removed or renamed.\<close>

definition pass2_dup :: "sfs_direntry \<Rightarrow> sfs_direntry \<Rightarrow> fsck \<Rightarrow> (sfs_direntry \<times> fsck) option" where
  "pass2_dup d1 d2 st =
     (if sfd_ino d1 = sfd_ino d2 then Some (cleared d1, setbadness EXIT_RECOV st)
      else do { let (uid, st) = uniqueid st;
                name \<leftarrow> fsck_name (sfd_name d1) (sfd_ino d1) uid;
                Some (d1\<lparr>sfd_name := name\<rparr>, setbadness EXIT_RECOV st) })"

fun pass2_dups ::
    "nat list \<Rightarrow> sfs_direntry list \<Rightarrow> fsck \<Rightarrow> (sfs_direntry list \<times> bool \<times> fsck) option" where
  "pass2_dups (v1 # v2 # vs) ds st =
     do { d1 \<leftarrow> cread ds v1;
          d2 \<leftarrow> cread ds v2;
          kassert (v1 \<noteq> v2);
          if sfd_ino d1 = SFS_NOINO \<or> sfd_ino d2 = SFS_NOINO then pass2_dups (v2 # vs) ds st
          else do { c \<leftarrow> name_cmp (sfd_name d1) (sfd_name d2);
                    if c = 0
                    then do { (d, st) \<leftarrow> pass2_dup d1 d2 st;
                              (ds, _, st) \<leftarrow> pass2_dups (v2 # vs) (ds[v1 := d]) st;
                              Some (ds, True, st) }
                    else pass2_dups (v2 # vs) ds st } }"
| "pass2_dups _ ds st = Some (ds, False, st)"

text \<open>Correcting the entries for the directory itself and its parent.\<close>

fun pass2_dots ::
    "nat \<Rightarrow> nat \<Rightarrow> sfs_direntry list \<Rightarrow> bool \<Rightarrow> bool \<Rightarrow> fsck \<Rightarrow>
     (sfs_direntry list \<times> bool \<times> bool \<times> bool \<times> fsck) option" where
  "pass2_dots ino parentino [] dotseen dotdotseen st = Some ([], False, dotseen, dotdotseen, st)"
| "pass2_dots ino parentino (d # ds) dotseen dotdotseen st =
     (if cname (sfd_name d) = DOT
      then do { let c = (sfd_ino d \<noteq> ino);
                let st = (if c then setbadness EXIT_RECOV st else st);
                kassert (\<not> dotseen);
                (ds, cs, s1, s2, st) \<leftarrow> pass2_dots ino parentino ds True dotdotseen st;
                Some (d\<lparr>sfd_ino := ino\<rparr> # ds, c \<or> cs, s1, s2, st) }
      else if cname (sfd_name d) = DOTDOT
      then do { let c = (sfd_ino d \<noteq> parentino);
                let st = (if c then setbadness EXIT_RECOV st else st);
                kassert (\<not> dotdotseen);
                (ds, cs, s1, s2, st) \<leftarrow> pass2_dots ino parentino ds dotseen True st;
                Some (d\<lparr>sfd_ino := parentino\<rparr> # ds, c \<or> cs, s1, s2, st) }
      else do { (ds, cs, s1, s2, st) \<leftarrow> pass2_dots ino parentino ds dotseen dotdotseen st;
                Some (d # ds, cs, s1, s2, st) })"

text \<open>
  Inserting a missing entry, first among the entries in use, then in the room left in the last
  block: the entries, how many of them count, the inode, and whether the directory and the inode changed.
\<close>

type_synonym dirstate = "sfs_direntry list \<times> nat \<times> sfs_dinode \<times> bool \<times> bool \<times> fsck"

definition pass2_missing :: "byte list \<Rightarrow> nat \<Rightarrow> bool \<Rightarrow> dirstate \<Rightarrow> dirstate" where
  "pass2_missing name ino seen s =
     (let (ds, nd, sfi, dchanged, ichanged, st) = s
      in if seen then s
         else (case sfsdir_tryadd (take nd ds) name ino of
                 Some front \<Rightarrow> (front @ drop nd ds, nd, sfi, True, ichanged, setbadness EXIT_RECOV st)
               | None \<Rightarrow>
                   (case sfsdir_tryadd ds name ino of
                      Some ds \<Rightarrow> (ds, nd + 1, sfi\<lparr>sfi_size := u32 (sfi_size sfi + DIRENTRY_SIZE)\<rparr>, True, True,
                                  setbadness EXIT_RECOV st)
                    | None \<Rightarrow> (ds, nd, sfi, dchanged, ichanged, setbadness EXIT_UNRECOV st))))"

text \<open>One entry: count a link, or descend; \<open>rec\<close> is \<^verbatim>\<open>pass2_dir\<close>.\<close>

definition pass2_entry ::
    "(nat \<Rightarrow> fsck \<Rightarrow> (bool \<times> fsck) walk) \<Rightarrow> sfs_direntry \<Rightarrow> nat \<times> fsck \<Rightarrow>
     (sfs_direntry \<times> bool \<times> nat \<times> fsck) walk" where
  "pass2_entry rec d s =
     (let (subdirs, st) = s in
      if sfd_ino d = SFS_NOINO \<or> cname (sfd_name d) = DOT \<or> cname (sfd_name d) = DOTDOT
      then Ret (d, False, subdirs, st)
      else wbind (wlift (sfs_readinode (sfd_ino d) st)) (\<lambda>subsfi.
           if sfi_type subsfi = SFS_TYPE_FILE
           then wbind (wlift (inode_addlink (sfd_ino d) st)) (\<lambda>st. Ret (d, False, subdirs, st))
           else if sfi_type subsfi = SFS_TYPE_DIR
           then wbind (rec (sfd_ino d) st) (\<lambda>(crosslink, st).
                if crosslink then Ret (cleared d, True, subdirs, setbadness EXIT_RECOV st)
                else Ret (d, False, subdirs + 1, st))
           else Ret (cleared d, True, subdirs, setbadness EXIT_RECOV st)))"

primrec walk_pass2 ::
    "(sfs_direntry \<Rightarrow> nat \<times> fsck \<Rightarrow> (sfs_direntry \<times> bool \<times> nat \<times> fsck) walk) \<Rightarrow>
     sfs_direntry list \<Rightarrow> nat \<times> fsck \<Rightarrow> (sfs_direntry list \<times> bool \<times> nat \<times> fsck) walk" where
  "walk_pass2 f [] s = Ret ([], False, s)"
| "walk_pass2 f (d # ds) s =
     wbind (f d s) (\<lambda>(d, c, s).
     wbind (walk_pass2 f ds s) (\<lambda>(ds, cs, s).
     Ret (d # ds, c \<or> cs, s)))"

text \<open>The names of a directory: duplicates, then the two special entries.\<close>

definition pass2_names :: "nat \<Rightarrow> nat \<Rightarrow> sfs_dinode \<Rightarrow> fsck \<Rightarrow> dirstate option" where
  "pass2_names ino parentino sfi st =
     do { let nd = sfi_size sfi div DIRENTRY_SIZE;
          let maxnd = SFS_ROUNDUP nd ATONCE;
          ds \<leftarrow> sfs_readdir sfi nd st;
          v \<leftarrow> sfsdir_sort ds;
          (ds, c1, st) \<leftarrow> pass2_dups v ds st;
          (ds, c2, dotseen, dotdotseen, st) \<leftarrow> pass2_dots ino parentino ds False False st;
          let ds = ds @ replicate (maxnd - nd) zero_direntry;
          Some (pass2_missing DOTDOT parentino dotdotseen
                 (pass2_missing DOT ino dotseen (ds, nd, sfi, c1 \<or> c2, False, st))) }"

text \<open>The link count, and writing back what changed.\<close>

definition pass2_finish ::
    "nat \<Rightarrow> sfs_dinode \<Rightarrow> sfs_direntry list \<Rightarrow> nat \<Rightarrow> bool \<Rightarrow> bool \<Rightarrow> nat \<Rightarrow> fsck \<Rightarrow> fsck option" where
  "pass2_finish ino sfi ds nd dchanged ichanged subdircount st =
     do { let bad = (sfi_linkcount sfi \<noteq> subdircount + 2);
          let sfi = (if bad then sfi\<lparr>sfi_linkcount := (subdircount + 2) mod 2 ^ 16\<rparr> else sfi);
          let st = (if bad then setbadness EXIT_RECOV st else st);
          st \<leftarrow> (if dchanged then sfs_writedir sfi ds nd st else Some st);
          (if ichanged \<or> bad then sfs_writeinode ino sfi st else Some st) }"

primrec pass2_dir :: "nat \<Rightarrow> nat \<Rightarrow> nat \<Rightarrow> fsck \<Rightarrow> (bool \<times> fsck) walk" where
  "pass2_dir 0 ino parentino st = NoFuel"
| "pass2_dir (Suc fuel) ino parentino st =
     wbind (wlift (inode_visitdir ino st)) (\<lambda>(visited, st).
     if visited then Ret (True, st)
     else wbind (wlift (sfs_readinode ino st)) (\<lambda>sfi.
          wbind (wlift (pass2_names ino parentino sfi st)) (\<lambda>(ds, nd, sfi, dchanged, ichanged, st).
          wbind (walk_pass2 (pass2_entry (\<lambda>sub. pass2_dir fuel sub ino)) (take nd ds) (0, st))
            (\<lambda>(ds, c, subdircount, st).
          wbind (wlift (pass2_finish ino sfi ds nd (dchanged \<or> c) ichanged subdircount st)) (\<lambda>st.
          Ret (False, st))))))"

definition pass2 :: "nat \<Rightarrow> fsck \<Rightarrow> fsck walk" where
  "pass2 fuel st =
     wbind (pass2_dir fuel SFS_ROOTDIR_INO SFS_ROOTDIR_INO st) (\<lambda>(_, st). Ret st)"

text \<open>The whole program: the exit code and the disk it leaves.\<close>

definition sfsck :: "nat \<Rightarrow> fsck \<Rightarrow> (nat \<times> fsck) walk" where
  "sfsck fuel st =
     wbind (wlift (sb_load st)) (\<lambda>st.
     wbind (wlift (sb_check st)) (\<lambda>st.
     wbind (wlift (freemap_setup st)) (\<lambda>st.
     wbind (pass1 fuel st) (\<lambda>st.
     wbind (wlift (freemap_check st)) (\<lambda>st.
     wbind (wlift (inode_sorttable st)) (\<lambda>st.
     wbind (pass2 fuel st) (\<lambda>st.
     wbind (wlift (inode_adjust_filelinks st)) (\<lambda>st.
     wbind (wlift (kassert (fk_badness st \<le> EXIT_UNRECOV))) (\<lambda>_.
     Ret (fk_badness st, st))))))))))"

section \<open>Directory entries after pass 1\<close>

text \<open>An entry pass 1 leaves alone: a free one has no name, a used one a proper name and an inode on the volume.\<close>

definition entry_ok :: "nat \<Rightarrow> sfs_direntry \<Rightarrow> bool" where
  "entry_ok nblocks d \<longleftrightarrow> length (sfd_name d) = SFS_NAMELEN \<and>
     (if sfd_ino d = SFS_NOINO then sfd_name d ! 0 = 0
      else sfd_ino d < nblocks \<and> sfd_name d ! 0 \<noteq> 0 \<and> good_name (sfd_name d))"

subsection \<open>Made-up names\<close>

lemma uchar_byte_char [simp]: "uchar (byte_char b) = unat b"
proof -
  have "unat b < 256" using unsigned_less [of b, where 'a = nat] by simp
  then show ?thesis by (simp add: byte_char_def)
qed

lemma take_bit_unat_32: "take_bit 64 (unat (w :: 32 word)) = unat w"
  using unsigned_less [of w, where 'a = nat] by (intro take_bit_nat_eq_self) simp

lemma format_fsck:
  "format_text ''FSCK.%lu.%lu'' [VaInt a, VaInt b] =
     Some (''FSCK.'' @ digits_text 10 (unat a) @ ''.'' @ digits_text 10 (unat b))"
  by (simp add: format_text_def c_string_def NUL_def pf_endfield_def pf_init_def pf_step_def
      pf_is_modifier_def pf_is_inttype_def pf_modifier_def pf_getnum_def
      pf_setbase_def pf_number_def pf_layout_def unsigned_ucast_eq take_bit_unat_32)

definition fsck_bytes :: "nat \<Rightarrow> nat \<Rightarrow> byte list" where
  "fsck_bytes ino uid = map (\<lambda>c. of_nat (uchar c))
     (''FSCK.'' @ digits_text 10 (unat (of_nat ino :: 32 word)) @ ''.'' @
      digits_text 10 (unat (of_nat uid :: 32 word)))"

lemma fsck_bytes_set:
  "set (fsck_bytes ino uid) \<subseteq> {46, 48, 49, 50, 51, 52, 53, 54, 55, 56, 57, 67, 70, 75, 83}"
proof -
  have "digit_char d \<in> set ''0123456789''" if "d < 10" for d
  proof -
    have "d \<in> set [0..<10]" using that by simp
    then show ?thesis by (auto simp: digit_char_def upt_conv_Cons)
  qed
  then have dig: "set (digits_text 10 n) \<subseteq> set ''0123456789''" for n
    by (rule digits_text_chars)
  let ?f = "\<lambda>c. of_nat (uchar c) :: byte"
  have im: "?f ` set (digits_text 10 n) \<subseteq> ?f ` set ''0123456789''" for n
    using dig by (rule image_mono)
  show ?thesis
    using im [of "unat (of_nat ino :: 32 word)"] im [of "unat (of_nat uid :: 32 word)"]
    unfolding fsck_bytes_def by (simp add: image_Un) blast
qed

lemma fsck_bytes_length: "length (fsck_bytes ino uid) < SFS_NAMELEN"
proof -
  have "unat (w :: 32 word) < 10 ^ 10" for w
    using unsigned_less [of w, where 'a = nat] by simp
  then have "length (digits_text 10 (unat (w :: 32 word))) \<le> 10" for w
    by (rule digits_text_length [rotated]) simp_all
  from this [of "of_nat ino"] this [of "of_nat uid"] show ?thesis
    by (simp add: fsck_bytes_def SFS_NAMELEN_def)
qed

lemma fsck_name_eq:
  assumes "length old = SFS_NAMELEN"
  shows "fsck_name old ino uid =
     Some (fsck_bytes ino uid @ [0] @ drop (Suc (length (fsck_bytes ino uid))) old)"
proof -
  let ?t = "''FSCK.'' @ digits_text 10 (unat (of_nat ino :: 32 word)) @ ''.'' @
      digits_text 10 (unat (of_nat uid :: 32 word))"
  have len: "length ?t < SFS_NAMELEN"
    using fsck_bytes_length [of ino uid] by (simp add: fsck_bytes_def)
  have id: "map ((\<lambda>c. of_nat (uchar c)) \<circ> byte_char) bs = bs" for bs
    by (simp add: comp_def)
  have "snprintf (replicate NUMBER_BUF_SIZE NUL) (map byte_char old) (length old) ''FSCK.%lu.%lu''
      [VaInt (of_nat ino), VaInt (of_nat uid)] = Some (sint (of_nat (length ?t) :: 32 word),
      ?t @ [NUL] @ drop (Suc (length ?t)) (map byte_char old))"
    unfolding snprintf_def
    by (subst vsnprintf_eq [OF _ _ format_fsck]) (use len assms in \<open>simp_all add: SFS_NAMELEN_def\<close>)
  then show ?thesis
    by (simp add: fsck_name_def fsck_bytes_def drop_map id)
qed


lemma good_fsck_name:
  assumes "length old = SFS_NAMELEN"
  obtains n where "fsck_name old ino uid = Some n" "length n = SFS_NAMELEN" "good_name n"
    "cname n = fsck_bytes ino uid" "n ! 0 \<noteq> 0"
proof
  let ?n = "fsck_bytes ino uid @ [0] @ drop (Suc (length (fsck_bytes ino uid))) old"
  show "fsck_name old ino uid = Some ?n" using fsck_name_eq [OF assms] .
  have "0 \<notin> set (fsck_bytes ino uid)" using fsck_bytes_set [of ino uid] by auto
  then have "x \<noteq> 0" if "x \<in> set (fsck_bytes ino uid)" for x using that by auto
  then show cn: "cname ?n = fsck_bytes ino uid"
    by (simp add: cname_def takeWhile_append2)
  show "good_name ?n" unfolding good_name_def cn
    using fsck_bytes_set [of ino uid] by (auto simp: CH_COLON_def CH_SLASH_def)
  show "length ?n = SFS_NAMELEN" using fsck_bytes_length [of ino uid] assms by simp
  show "?n ! 0 \<noteq> 0" by (simp add: fsck_bytes_def nth_append)
qed

lemma cname_Nil [simp]: "cname n = [] \<longleftrightarrow> n = [] \<or> n ! 0 = 0"
  by (cases n) (auto simp: cname_def)

lemma good_name_update_hd: "n \<noteq> [] \<Longrightarrow> n[0 := 0] ! 0 = 0"
  by (cases n) simp_all

text \<open>What the string checks do to a nonempty name.\<close>

lemma direntry_strings_ok:
  assumes "length n = SFS_NAMELEN" "n ! 0 \<noteq> 0"
  shows "\<exists>n' c st'. direntry_strings n st = Some (n', c, st') \<and> length n' = SFS_NAMELEN \<and> n' ! 0 \<noteq> 0 \<and>
     good_name n' \<and> (c \<longleftrightarrow> \<not> good_name n) \<and> fk_badness st \<le> fk_badness st' \<and>
     (if c then EXIT_RECOV \<le> fk_badness st' else n' = n \<and> st' = st)"
proof -
  have ne: "n \<noteq> []" using assms by (auto simp: SFS_NAMELEN_def)
  obtain c2 n2 where n2: "checknullstring n = Some (c2, n2)" "length n2 = length n" "0 \<in> set n2"
    "c2 \<longleftrightarrow> 0 \<notin> set n" "\<not> c2 \<longrightarrow> n2 = n" using checknullstring_ok [OF ne] by metis
  have hd: "n2 ! 0 \<noteq> 0"
  proof (cases c2)
    case True
    then have "n2 = n[length n - 1 := 0]" using n2 ne by (auto simp: checknullstring_def bind_eq_Some_conv)
    then show ?thesis using assms by (simp add: SFS_NAMELEN_def nth_list_update)
  qed (use n2 assms in auto)
  obtain c3 n3 where n3: "checkbadstring n2 = Some (c3, n3)" "length n3 = length n2" "good_name n3"
    "\<not> c3 \<longrightarrow> n3 = n2" "c3 \<longrightarrow> \<not> good_name n2" "length (cname n3) = length (cname n2)"
    using checkbadstring_ok [OF n2(3)] by blast
  have "cname n2 \<noteq> []" using hd n2(2) ne by auto
  then have "cname n3 \<noteq> []" using n3(6) by (metis length_0_conv)
  then have "n3 ! 0 \<noteq> 0" by simp
  moreover have "c2 \<or> c3 \<longleftrightarrow> \<not> good_name n" using n2 n3 by (auto simp: good_name_def)
  ultimately show ?thesis using n2 n3 assms by (auto simp: direntry_strings_def)
qed

lemma pass1_direntry_ok:
  assumes "length (sfd_name d) = SFS_NAMELEN"
  shows "\<exists>d' c st'. pass1_direntry d st = Some (d', c, st') \<and> entry_ok (sb_totalblocks st) d' \<and>
     (c \<longleftrightarrow> \<not> entry_ok (sb_totalblocks st) d) \<and> (if c then EXIT_RECOV \<le> fk_badness st' else d' = d \<and> st' = st)"
proof -
  have ne: "sfd_name d \<noteq> []" "0 < length (sfd_name d)" using assms by (auto simp: SFS_NAMELEN_def)
  consider (none) "sfd_ino d = SFS_NOINO" | (range) "sfd_ino d \<noteq> SFS_NOINO" "sb_totalblocks st \<le> sfd_ino d"
    | (noname) "sfd_ino d \<noteq> SFS_NOINO" "sfd_ino d < sb_totalblocks st" "sfd_name d ! 0 = 0"
    | (named) "sfd_ino d \<noteq> SFS_NOINO" "sfd_ino d < sb_totalblocks st" "sfd_name d ! 0 \<noteq> 0"
    by linarith
  then show ?thesis
  proof cases
    case none
    then show ?thesis using ne assms by (simp add: pass1_direntry_def entry_ok_def)
  next
    case range
    then show ?thesis using ne assms by (auto simp: pass1_direntry_def entry_ok_def)
  next
    case noname
    let ?u = "fk_unique st"
    obtain n where n: "fsck_name (sfd_name d) (sfd_ino d) ?u = Some n" "length n = SFS_NAMELEN"
      "good_name n" "n ! 0 \<noteq> 0" using good_fsck_name [OF assms] .
    obtain n' c st' where "direntry_strings n (setbadness EXIT_RECOV (st\<lparr>fk_unique := u32 (?u + 1)\<rparr>))
        = Some (n', c, st')" "length n' = SFS_NAMELEN" "n' ! 0 \<noteq> 0" "good_name n'" "EXIT_RECOV \<le> fk_badness st'"
      using direntry_strings_ok [OF n(2,4), of "setbadness EXIT_RECOV (st\<lparr>fk_unique := u32 (?u + 1)\<rparr>)"]
      by auto
    with noname n ne show ?thesis
      by (simp add: pass1_direntry_def direntry_noname_def entry_ok_def uniqueid_def) blast
  next
    case named
    obtain n' c st' where "direntry_strings (sfd_name d) st = Some (n', c, st')"
      "length n' = SFS_NAMELEN" "n' ! 0 \<noteq> 0" "good_name n'" "c \<longleftrightarrow> \<not> good_name (sfd_name d)"
      "if c then EXIT_RECOV \<le> fk_badness st' else n' = sfd_name d \<and> st' = st"
      using direntry_strings_ok [OF assms named(3), of st] by auto
    with named ne assms show ?thesis
      by (intro exI [of _ "d\<lparr>sfd_name := n'\<rparr>"] exI [of _ c] exI [of _ st'])
        (simp add: pass1_direntry_def direntry_noname_def entry_ok_def split: if_splits)
  qed
qed

section \<open>The walk over the tree ends\<close>

text \<open>The parts of the state that decide how deep a walk goes, left alone by everything but the table.\<close>

definition keeps :: "fsck \<Rightarrow> fsck \<Rightarrow> bool" where
  "keeps st st' \<longleftrightarrow> fk_sb st' = fk_sb st \<and> fk_inodes st' = fk_inodes st \<and> fk_sorted st' = fk_sorted st"

lemma keeps_refl [simp]: "keeps st st"
  by (simp add: keeps_def)

lemma keeps_trans: "keeps a b \<Longrightarrow> keeps b c \<Longrightarrow> keeps a c"
  by (simp add: keeps_def)

lemma keeps_setbadness [simp]:
  "keeps st (setbadness c st')  \<longleftrightarrow> keeps st st'" "keeps (setbadness c st) st'  \<longleftrightarrow> keeps st st'"
  by (simp_all add: keeps_def)

lemma keeps_counters [simp]:
  "keeps st (st'\<lparr>fk_unique := n\<rparr>) \<longleftrightarrow> keeps st st'" "keeps st (st'\<lparr>fk_files := n\<rparr>) \<longleftrightarrow> keeps st st'"
  "keeps st (st'\<lparr>fk_dirs := n\<rparr>) \<longleftrightarrow> keeps st st'" "keeps st (st'\<lparr>fk_blocksinuse := n\<rparr>) \<longleftrightarrow> keeps st st'"
  "keeps st (st'\<lparr>fk_tofree := v\<rparr>) \<longleftrightarrow> keeps st st'" "keeps st (st'\<lparr>fk_freemap := v\<rparr>) \<longleftrightarrow> keeps st st'"
  by (simp_all add: keeps_def)

lemma keeps_diskwrite: "diskwrite b n st = Some st' \<Longrightarrow> keeps st st'"
  by (auto simp: diskwrite_def keeps_def bind_eq_Some_conv)

lemma keeps_writes:
  "sfs_writeinode ino sfi st = Some st' \<Longrightarrow> keeps st st'"
  "sfs_writeindirect ino es st = Some st' \<Longrightarrow> keeps st st'"
  "sfs_writesb ino sb st = Some st' \<Longrightarrow> keeps st st'"
  "sfs_writefreemapblock i d st = Some st' \<Longrightarrow> keeps st st'"
  "sfs_writedirblock ds i st = Some st' \<Longrightarrow> keeps st st'"
  by (auto simp: sfs_writeinode_def sfs_writeindirect_def sfs_writesb_def sfs_writefreemapblock_def
      sfs_writedirblock_def keeps_diskwrite split: if_splits)

lemma keeps_writedir: "sfs_writedir sfi ds nd st = Some st' \<Longrightarrow> keeps st st'"
proof -
  have "sfs_writedir_loop n sfi i ds nd st = Some st' \<Longrightarrow> keeps st st'" for n i
    by (induction n arbitrary: i ds nd st)
      (auto simp: bind_eq_Some_conv Let_def dest!: keeps_writes(5) intro: keeps_trans)
  then show "sfs_writedir sfi ds nd st = Some st' \<Longrightarrow> keeps st st'" by (simp add: sfs_writedir_def)
qed

lemma keeps_freemap:
  "freemap_blockinuse blk how st = Some st' \<Longrightarrow> keeps st st'"
  "freemap_blockfree blk st = Some st' \<Longrightarrow> keeps st st'"
  by (simp_all only: freemap_blockinuse_def freemap_blockfree_def bind_eq_Some_conv Let_def,
      auto simp only: bind_eq_Some_conv option.inject keeps_counters keeps_setbadness keeps_refl
        split: if_split_asm)

lemma keeps_check_entry: "check_entry e ibs st = Some (e', c, ibs', st') \<Longrightarrow> keeps st st'"
  by (auto simp: check_entry_def bind_eq_Some_conv Let_def dest!: keeps_freemap split: if_splits)

lemma keeps_walk_entries:
  assumes "\<And>e ibs st e' c ibs' st'. f e ibs st = Some (e', c, ibs', st') \<Longrightarrow> keeps st st'"
  shows "walk_entries f es ibs st = Some (es', c, ibs', st') \<Longrightarrow> keeps st st'"
  by (induction es arbitrary: ibs st es' c)
    (auto simp: bind_eq_Some_conv dest!: assms intro: keeps_trans)

lemma keeps_walk_check: "walk_entries check_entry es ibs st = Some (es', c, ibs', st') \<Longrightarrow> keeps st st'"
  by (erule keeps_walk_entries [rotated]) (rule keeps_check_entry)

lemma keeps_check_indirect_block:
  "check_indirect_block n e ibs st = Some (e', c, ibs', st') \<Longrightarrow> keeps st st'"
proof (induction n arbitrary: e ibs st e' c ibs' st')
  case 0
  then show ?case by (simp add: check_indirect_block.simps)
next
  case (Suc n)
  have walk: "walk_entries (check_indirect_block n) es ibs st = Some (es', c, ibs', st') \<Longrightarrow> keeps st st'"
    for es ibs st es' c ibs' st' by (erule keeps_walk_entries [rotated]) (rule Suc.IH)
  show ?case using Suc.prems
    by (auto simp: check_indirect_block.simps bind_eq_Some_conv Let_def split: if_splits
        dest!: keeps_freemap keeps_writes walk keeps_walk_check intro: keeps_trans)
qed

lemma keeps_check_inode_blocks:
  assumes "check_inode_blocks sfi isdir st = Some (sfi', c, st')"
  shows "keeps st st'"
proof -
  from assms obtain es c1 ibs1 st1 e c2 ibs2 st2 ibs where
    "walk_entries check_entry (sfi_direct sfi) ibs st = Some (es, c1, ibs1, st1)"
    "check_indirect_block 1 (sfi_indirect sfi) ibs1 st1 = Some (e, c2, ibs2, st2)"
    "st' = (if 0 < ib_pasteofcount ibs2 then setbadness EXIT_RECOV st2 else st2)"
    by (simp only: check_inode_blocks_def bind_eq_Some_conv Let_def split_paired_Ex prod.case option.inject
        prod.inject) blast
  then show ?thesis
    by (auto dest!: keeps_walk_check keeps_check_indirect_block dest: keeps_trans)
qed

lemma keeps_direntry_parts:
  "direntry_noname d c0 st = Some (n, c, st') \<Longrightarrow> keeps st st'"
  "direntry_strings n st = Some (n', c, st') \<Longrightarrow> keeps st st'"
  by (simp_all only: direntry_noname_def direntry_strings_def uniqueid_def bind_eq_Some_conv Let_def prod.case,
      auto simp only: bind_eq_Some_conv option.inject prod.inject prod.case split_paired_Ex
        keeps_counters keeps_setbadness keeps_refl split: if_split_asm)

lemma keeps_pass1_direntry: "pass1_direntry d st = Some (d', c, st') \<Longrightarrow> keeps st st'"
  by (auto simp: pass1_direntry_def bind_eq_Some_conv split: if_split_asm
      dest!: keeps_direntry_parts dest: keeps_trans)

text \<open>
  The inodes a walk can still meet.  The root directory counts even when the volume has no block for it.
\<close>

abbreviation inos :: "fsck \<Rightarrow> nat list" where
  "inos st \<equiv> map inf_ino (fk_inodes st)"

definition volume :: "fsck \<Rightarrow> nat set" where
  "volume st = insert SFS_ROOTDIR_INO {..<sb_totalblocks st}"

definition todo :: "fsck \<Rightarrow> nat" where
  "todo st = card (volume st - set (inos st))"

definition table_ok :: "fsck \<Rightarrow> bool" where
  "table_ok st \<longleftrightarrow> distinct (inos st) \<and> set (inos st) \<subseteq> volume st"

definition grows :: "fsck \<Rightarrow> fsck \<Rightarrow> bool" where
  "grows st st' \<longleftrightarrow> fk_sb st' = fk_sb st \<and> set (inos st) \<subseteq> set (inos st') \<and> (table_ok st \<longrightarrow> table_ok st')"

lemma volume_sb: "fk_sb st' = fk_sb st \<Longrightarrow> volume st' = volume st"
  by (simp add: volume_def sb_totalblocks_def)

lemma grows_trans: "grows a b \<Longrightarrow> grows b c \<Longrightarrow> grows a c"
  by (auto simp: grows_def)

lemma keeps_grows: "keeps st st' \<Longrightarrow> grows st st'"
  by (simp add: keeps_def grows_def table_ok_def volume_def sb_totalblocks_def)

lemma grows_refl [simp]: "grows st st"
  by (rule keeps_grows) simp

lemma grows_setbadness [simp]: "grows st (setbadness c st') \<longleftrightarrow> grows st st'"
  by (simp add: grows_def table_ok_def volume_def sb_totalblocks_def)

lemma grows_files [simp]: "grows st (st'\<lparr>fk_files := n\<rparr>) \<longleftrightarrow> grows st st'"
  by (simp add: grows_def table_ok_def volume_def sb_totalblocks_def)

lemma todo_grows: "grows st st' \<Longrightarrow> todo st' \<le> todo st"
  unfolding todo_def by (rule card_mono) (auto simp: grows_def volume_def sb_totalblocks_def)

lemma inode_seen_None: "inode_seen ino xs = None \<longleftrightarrow> ino \<notin> set (map inf_ino xs)"
  by (induction xs) auto

lemma inode_add_table:
  assumes "inode_add ino type st = Some (seen, st')"
  shows "if seen then st' = st \<and> ino \<in> set (inos st)
     else ino \<notin> set (inos st) \<and> fk_sb st' = fk_sb st \<and> inos st' = inos st @ [ino]"
  using assms inode_seen_None [of ino "fk_inodes st"]
  by (auto simp: inode_add_def inode_addtable_def bind_eq_Some_conv Let_def split: option.splits)

lemma keeps_pass1_inode:
  assumes "pass1_inode ino sfi ch st = Some (seen, sfi', st')"
  obtains st1 where "inode_add ino (sfi_type sfi) st = Some (seen, st1)"
    "if seen then st' = st1 else keeps st1 st'"
proof -
  from assms obtain s st1 where add: "inode_add ino (sfi_type sfi) st = Some (s, st1)"
    by (auto simp: pass1_inode_def bind_eq_Some_conv)
  show thesis
  proof (cases s)
    case True
    with add assms show thesis by (auto simp: pass1_inode_def bind_eq_Some_conv intro: that)
  next
    case False
    with add assms obtain y c1 sfi1 sfi2 c2 st2 where
      "freemap_blockinuse ino B_INODE st1 = Some y"
      "check_inode_blocks sfi1 (sfi_type sfi = SFS_TYPE_DIR) (if c1 then setbadness EXIT_RECOV y else y)
         = Some (sfi2, c2, st2)"
      "(if ch \<or> c1 \<or> c2 then sfs_writeinode ino sfi2 st2 else Some st2) = Some st'" "\<not> seen"
      by (simp add: pass1_inode_def checkzeroed_def Let_def bind_eq_Some_conv split_paired_Ex) blast
    then have "keeps st1 y" "keeps (if c1 then setbadness EXIT_RECOV y else y) st2" "keeps st2 st'"
      by (auto dest: keeps_freemap keeps_check_inode_blocks keeps_writes split: if_splits)
    then have "keeps st1 st'" by (auto dest: keeps_trans split: if_splits)
    with add False \<open>\<not> seen\<close> show thesis by (intro that) simp_all
  qed
qed

lemma pass1_inode_table:
  assumes "pass1_inode ino sfi ch st = Some (seen, sfi', st')" "ino \<in> volume st"
  shows "grows st st'" "\<not> seen \<Longrightarrow> todo st' < todo st" "fk_sb st' = fk_sb st"
proof -
  obtain st1 where add: "inode_add ino (sfi_type sfi) st = Some (seen, st1)"
    and rest: "if seen then st' = st1 else keeps st1 st'" using keeps_pass1_inode [OF assms(1)] .
  have "grows st st' \<and> (\<not> seen \<longrightarrow> todo st' < todo st) \<and> fk_sb st' = fk_sb st"
  proof (cases seen)
    case True
    then show ?thesis using inode_add_table [OF add] rest by simp
  next
    case False
    then have st1: "ino \<notin> set (inos st)" "fk_sb st1 = fk_sb st" "inos st1 = inos st @ [ino]"
      using inode_add_table [OF add] by simp_all
    have k: "fk_sb st' = fk_sb st1" "inos st' = inos st1" using rest False by (simp_all add: keeps_def)
    have vol: "volume st' = volume st" by (rule volume_sb) (simp add: st1 k)
    have "volume st' - set (inos st') \<subset> volume st - set (inos st)"
      unfolding vol k st1 using assms(2) st1(1) by auto
    then have "todo st' < todo st" unfolding todo_def
      by (intro psubset_card_mono) (simp add: volume_def)
    moreover have "grows st st'"
      unfolding grows_def table_ok_def vol k st1 using st1(1) assms(2) by auto
    ultimately show ?thesis using st1 k by simp
  qed
  then show "grows st st'" "\<not> seen \<Longrightarrow> todo st' < todo st" "fk_sb st' = fk_sb st" by auto
qed

text \<open>A step has enough fuel in every state the walk can reach from a given one.\<close>

definition step_ends :: "fsck \<Rightarrow> (fsck \<Rightarrow> (sfs_direntry \<times> bool \<times> fsck) walk) \<Rightarrow> bool" where
  "step_ends st0 f \<longleftrightarrow> (\<forall>st. grows st0 st \<longrightarrow> f st \<noteq> NoFuel \<and>
     (\<forall>d c st'. f st = Ret (d, c, st') \<longrightarrow> grows st st'))"

lemma walk_direntries_ends:
  assumes "\<forall>d \<in> set ds. step_ends st0 (f d)" "grows st0 st"
  shows "walk_direntries f ds st \<noteq> NoFuel \<and>
     (\<forall>ds' c st'. walk_direntries f ds st = Ret (ds', c, st') \<longrightarrow> grows st st')"
  using assms
proof (induction ds arbitrary: st)
  case (Cons d ds)
  have d: "f d st \<noteq> NoFuel" "\<And>d' c st'. f d st = Ret (d', c, st') \<Longrightarrow> grows st st'"
    using Cons.prems by (auto simp: step_ends_def)
  show ?case
  proof (cases "f d st")
    case (Ret r)
    obtain d' c st1 where r: "r = (d', c, st1)" by (cases r)
    then have "grows st st1" using d Ret by simp
    moreover from this have "grows st0 st1" using Cons.prems(2) by (rule grows_trans [rotated])
    ultimately show ?thesis using Cons.IH [of st1] Cons.prems(1) Ret r
      by (auto simp: wbind_Ret wbind_NoFuel dest: grows_trans)
  qed (use d in simp_all)
qed simp

lemma pass1_direntry_ino:
  "pass1_direntry d st = Some (d', c, st') \<Longrightarrow> sfd_ino d' = SFS_NOINO \<or> sfd_ino d' < sb_totalblocks st"
  by (auto simp: pass1_direntry_def bind_eq_Some_conv split: if_split_asm)

lemma walk_direntry_inos:
  assumes "walk_direntries (\<lambda>d st. wlift (pass1_direntry d st)) ds st = Ret (ds', c, st')"
  shows "keeps st st' \<and> (\<forall>d \<in> set ds'. sfd_ino d = SFS_NOINO \<or> sfd_ino d \<in> volume st)"
  using assms
proof (induction ds arbitrary: st ds' c)
  case (Cons d ds)
  from Cons.prems obtain d1 c1 st1 ds2 c2 where d1: "pass1_direntry d st = Some (d1, c1, st1)"
    and ds2: "walk_direntries (\<lambda>d st. wlift (pass1_direntry d st)) ds st1 = Ret (ds2, c2, st')"
    and "ds' = d1 # ds2" by (simp add: wbind_Ret) blast
  moreover have k: "keeps st st1" using d1 by (rule keeps_pass1_direntry)
  moreover from k have "volume st1 = volume st" by (intro volume_sb) (simp add: keeps_def)
  ultimately show ?case using Cons.IH [OF ds2] pass1_direntry_ino [OF d1] keeps_trans
    by (auto simp: volume_def)
qed simp

lemma pass1_entry_ends:
  assumes "sfd_ino d = SFS_NOINO \<or> sfd_ino d \<in> volume st0"
    and "\<And>ino st. ino \<in> volume st0 \<Longrightarrow> grows st0 st \<Longrightarrow>
      rec ino st \<noteq> NoFuel \<and> (\<forall>st'. rec ino st = Ret st' \<longrightarrow> grows st st')"
  shows "step_ends st0 (pass1_entry rec d)"
  unfolding step_ends_def
proof (intro allI impI)
  fix st assume g: "grows st0 st"
  then have vol: "volume st = volume st0" by (intro volume_sb) (simp add: grows_def)
  show "pass1_entry rec d st \<noteq> NoFuel \<and> (\<forall>d' c st'. pass1_entry rec d st = Ret (d', c, st') \<longrightarrow> grows st st')"
  proof (cases "sfd_ino d = SFS_NOINO")
    case False
    then have ino: "sfd_ino d \<in> volume st" using assms(1) vol by simp
    have "rec (sfd_ino d) st \<noteq> NoFuel" "\<And>st'. rec (sfd_ino d) st = Ret st' \<Longrightarrow> grows st st'"
      using assms(2) [OF _ g, of "sfd_ino d"] ino vol by auto
    then show ?thesis using pass1_inode_table(1) [OF _ ino]
      by (auto simp: pass1_entry_def wbind_Ret wbind_NoFuel split: if_split_asm)
  qed (simp add: pass1_entry_def)
qed

lemma pass1_load_table:
  assumes "pass1_load ino st = Some (seen, sfi, st')" "ino \<in> volume st"
  shows "grows st st'" "\<not> seen \<Longrightarrow> todo st' < todo st"
proof -
  from assms(1) obtain sfi0 where read: "sfs_readinode ino st = Some sfi0"
    by (auto simp: pass1_load_def bind_eq_Some_conv)
  define ch where "ch = (sfi_size sfi0 mod DIRENTRY_SIZE \<noteq> 0)"
  define st0 where "st0 = (let st = if ch then setbadness EXIT_RECOV st else st in st\<lparr>fk_dirs := fk_dirs st + 1\<rparr>)"
  have k: "keeps st st0" by (simp add: st0_def Let_def)
  have st0: "pass1_inode ino (if ch then sfi0\<lparr>sfi_size := SFS_ROUNDUP (sfi_size sfi0) DIRENTRY_SIZE\<rparr> else sfi0)
      ch st0 = Some (seen, sfi, st')"
    using assms(1) read by (simp add: pass1_load_def st0_def ch_def Let_def)
  have "volume st0 = volume st" by (rule volume_sb) (use k in \<open>simp add: keeps_def\<close>)
  moreover from this have "todo st0 = todo st" using k by (simp add: todo_def keeps_def)
  ultimately show "grows st st'" "\<not> seen \<Longrightarrow> todo st' < todo st"
    using pass1_inode_table [OF st0] assms(2) keeps_grows [OF k] grows_trans by auto
qed

lemma pass1_contents_ends:
  assumes "\<And>ino st1. ino \<in> volume st \<Longrightarrow> grows st st1 \<Longrightarrow>
      rec ino st1 \<noteq> NoFuel \<and> (\<forall>st'. rec ino st1 = Ret st' \<longrightarrow> grows st1 st')"
  shows "pass1_contents rec sfi st \<noteq> NoFuel \<and> (\<forall>st'. pass1_contents rec sfi st = Ret st' \<longrightarrow> grows st st')"
proof -
  let ?sane = "walk_direntries (\<lambda>d st. wlift (pass1_direntry d st))"
  have sane: "?sane ds st \<noteq> NoFuel" for ds st
    by (induction ds arbitrary: st) (auto simp: wbind_NoFuel)
  have walk: "walk_direntries (pass1_entry rec) ds1 st1 \<noteq> NoFuel \<and>
      (\<forall>ds2 c2 st2. walk_direntries (pass1_entry rec) ds1 st1 = Ret (ds2, c2, st2) \<longrightarrow> grows st1 st2)"
    if "?sane ds st = Ret (ds1, c1, st1)" for ds ds1 c1 st1
  proof (rule walk_direntries_ends)
    note k = walk_direntry_inos [OF that]
    show "grows st st1" using k keeps_grows by blast
    show "\<forall>d \<in> set ds1. step_ends st (pass1_entry rec d)"
      using k assms by (auto intro!: pass1_entry_ends)
  qed
  show ?thesis
  proof (intro conjI allI impI)
    show "pass1_contents rec sfi st \<noteq> NoFuel"
      using sane walk by (auto simp: pass1_contents_def Let_def wbind_NoFuel split: if_split_asm)
  next
    fix st' assume "pass1_contents rec sfi st = Ret st'"
    then obtain ds ds1 c1 st1 ds2 c2 st2 where ds1: "?sane ds st = Ret (ds1, c1, st1)"
      and ds2: "walk_direntries (pass1_entry rec) ds1 st1 = Ret (ds2, c2, st2)"
      and st': "(if c1 \<or> c2 then wlift (sfs_writedir sfi ds2 (sfi_size sfi div DIRENTRY_SIZE) st2) else Ret st2)
        = Ret st'"
      by (simp add: pass1_contents_def Let_def wbind_Ret) blast
    have "grows st st1" using walk_direntry_inos [OF ds1] keeps_grows by blast
    moreover have "grows st1 st2" using walk [OF ds1] ds2 by blast
    moreover have "grows st2 st'" using st' keeps_writedir [THEN keeps_grows] by (auto split: if_split_asm)
    ultimately show "grows st st'" by (blast intro: grows_trans)
  qed
qed

lemma pass1_dir_ends:
  assumes "ino \<in> volume st" "todo st < fuel"
  shows "pass1_dir fuel ino st \<noteq> NoFuel \<and> (\<forall>st'. pass1_dir fuel ino st = Ret st' \<longrightarrow> grows st st')"
  using assms
proof (induction fuel arbitrary: ino st)
  case (Suc fuel)
  have "pass1_contents (pass1_dir fuel) sfi st1 \<noteq> NoFuel \<and>
      (\<forall>st'. pass1_contents (pass1_dir fuel) sfi st1 = Ret st' \<longrightarrow> grows st1 st')"
    if load: "pass1_load ino st = Some (False, sfi, st1)" for sfi st1
  proof (rule pass1_contents_ends)
    fix sub st2 assume "sub \<in> volume st1" "grows st1 st2"
    moreover from this have "volume st2 = volume st1" by (intro volume_sb) (simp add: grows_def)
    moreover have "todo st1 < fuel" using pass1_load_table(2) [OF load Suc.prems(1)] Suc.prems(2) by simp
    ultimately show "pass1_dir fuel sub st2 \<noteq> NoFuel \<and>
        (\<forall>st'. pass1_dir fuel sub st2 = Ret st' \<longrightarrow> grows st2 st')"
      using todo_grows [of st1 st2] by (intro Suc.IH) simp_all
  qed
  moreover have "grows st st1" if "pass1_load ino st = Some (seen, sfi, st1)" for seen sfi st1
    using that Suc.prems(1) by (rule pass1_load_table(1))
  ultimately show ?case
    by (simp add: wbind_Ret wbind_NoFuel) (blast intro: grows_trans)
qed simp

subsection \<open>Pass 2\<close>

text \<open>Pass 2 marks a directory before it descends; the table itself keeps its size.\<close>

definition unvisited :: "fsck \<Rightarrow> nat set" where
  "unvisited st = {i. i < length (fk_inodes st) \<and> \<not> inf_visited (fk_inodes st ! i)}"

definition marks :: "fsck \<Rightarrow> fsck \<Rightarrow> bool" where
  "marks st st' \<longleftrightarrow> unvisited st' \<subseteq> unvisited st"

lemma marks_refl [simp]: "marks st st"
  by (simp add: marks_def)

lemma marks_trans: "marks a b \<Longrightarrow> marks b c \<Longrightarrow> marks a c"
  by (auto simp: marks_def)

lemma keeps_marks: "keeps st st' \<Longrightarrow> marks st st'"
  by (simp add: marks_def keeps_def unvisited_def)

lemma marks_setbadness [simp]: "marks st (setbadness c st') \<longleftrightarrow> marks st st'"
  by (simp add: marks_def unvisited_def)

lemma inode_search_bound: "inode_search xs ino lo hi = Some i \<Longrightarrow> i < hi"
proof (induction xs ino lo hi rule: inode_search.induct)
  case (1 xs ino lo hi)
  then show ?case
    by (subst (asm) (3) inode_search.simps) (auto simp: Let_def split: if_split_asm)
qed

lemma inode_visitdir_marks:
  assumes "inode_visitdir ino st = Some (v, st')"
  shows "if v then st' = st else unvisited st' \<subset> unvisited st"
proof -
  from assms obtain i where i: "inode_find ino st = Some i"
    and eq: "(v, st') = (if inf_visited (fk_inodes st ! i) then (True, st)
        else (False, st\<lparr>fk_inodes := (fk_inodes st)[i := (fk_inodes st ! i)\<lparr>inf_visited := True\<rparr>]\<rparr>))"
    by (auto simp: inode_visitdir_def Let_def bind_eq_Some_conv)
  have len: "i < length (fk_inodes st)" using i inode_search_bound
    by (auto simp: inode_find_def bind_eq_Some_conv)
  show ?thesis
  proof (cases "inf_visited (fk_inodes st ! i)")
    case False
    then have st': "\<not> v" "unvisited st' = unvisited st - {i}"
      using eq len by (auto simp: unvisited_def nth_list_update split: if_split_asm)
    moreover have "i \<in> unvisited st" using False len by (simp add: unvisited_def)
    ultimately show ?thesis by auto
  qed (use eq in simp)
qed

lemma visited_update:
  "inf_visited info = inf_visited (xs ! i) \<Longrightarrow> inf_visited (xs[i := info] ! j) = inf_visited (xs ! j)"
  by (cases "i = j"; cases "i < length xs") (simp_all add: list_update_beyond)

lemma inode_addlink_marks: "inode_addlink ino st = Some st' \<Longrightarrow> marks st st'"
  by (auto simp: inode_addlink_def Let_def bind_eq_Some_conv marks_def unvisited_def visited_update)

lemma keeps_pass2_dup: "pass2_dup d1 d2 st = Some (d, st') \<Longrightarrow> keeps st st'"
  by (auto simp: pass2_dup_def uniqueid_def bind_eq_Some_conv split: if_split_asm)

lemma keeps_pass2_dups: "pass2_dups vs ds st = Some (ds', c, st') \<Longrightarrow> keeps st st'"
proof (induction vs arbitrary: ds st ds' c)
  case (Cons v1 vs)
  show ?case
  proof (cases vs)
    case Nil
    then show ?thesis using Cons.prems by simp
  next
    case vs: (Cons v2 ws)
    show ?thesis using Cons.prems Cons.IH unfolding vs
      by (auto simp: bind_eq_Some_conv split: if_split_asm dest!: keeps_pass2_dup intro: keeps_trans)
  qed
qed simp

lemma keeps_pass2_dots:
  "pass2_dots ino parentino ds s1 s2 st = Some (ds', c, s1', s2', st') \<Longrightarrow> keeps st st'"
  by (induction ino parentino ds s1 s2 st arbitrary: ds' c s1' s2' rule: pass2_dots.induct)
    (auto simp: bind_eq_Some_conv Let_def split: if_split_asm)

lemma keeps_pass2_missing:
  "pass2_missing name ino seen (ds, nd, sfi, dc, ic, st) = (ds', nd', sfi', dc', ic', st') \<Longrightarrow> keeps st st'"
  by (auto simp: pass2_missing_def split: option.splits if_split_asm)

lemma keeps_pass2_names:
  assumes "pass2_names ino parentino sfi st = Some (ds, nd, sfi', dc, ic, st')"
  shows "keeps st st'"
proof -
  from assms obtain ds0 v ds1 c1 st1 ds2 c2 s1 s2 st2 s where
    "pass2_dups v ds0 st = Some (ds1, c1, st1)"
    "pass2_dots ino parentino ds1 False False st1 = Some (ds2, c2, s1, s2, st2)"
    and s: "pass2_missing DOTDOT parentino s2 (pass2_missing DOT ino s1 s) = (ds, nd, sfi', dc, ic, st')"
      "snd (snd (snd (snd (snd s)))) = st2"
    by (auto simp: pass2_names_def Let_def bind_eq_Some_conv)
  moreover have "keeps st2 st'" using s
    by (cases s, cases "pass2_missing DOT ino s1 s") (auto dest!: keeps_pass2_missing intro: keeps_trans)
  ultimately show ?thesis by (blast dest: keeps_pass2_dups keeps_pass2_dots intro: keeps_trans)
qed

lemma pass2_entry_ends:
  assumes "\<And>ino st. card (unvisited st) < fuel \<Longrightarrow>
      rec ino st \<noteq> NoFuel \<and> (\<forall>b st'. rec ino st = Ret (b, st') \<longrightarrow> marks st st')"
    and "card (unvisited st) < fuel"
  shows "pass2_entry rec d (n, st) \<noteq> NoFuel \<and>
     (\<forall>d' c n' st'. pass2_entry rec d (n, st) = Ret (d', c, n', st') \<longrightarrow> marks st st')"
proof -
  have "rec (sfd_ino d) st \<noteq> NoFuel" "\<And>b st'. rec (sfd_ino d) st = Ret (b, st') \<Longrightarrow> marks st st'"
    using assms(1) [OF assms(2), of "sfd_ino d"] by auto
  then show ?thesis
    by (auto simp: pass2_entry_def wbind_Ret wbind_NoFuel dest: inode_addlink_marks split: if_split_asm)
qed

lemma marks_card: "marks st st' \<Longrightarrow> card (unvisited st') \<le> card (unvisited st)"
  unfolding marks_def by (rule card_mono) (simp_all add: unvisited_def)

lemma walk_pass2_ends:
  assumes "\<And>d n st. card (unvisited st) < fuel \<Longrightarrow> f d (n, st) \<noteq> NoFuel \<and>
      (\<forall>d' c n' st'. f d (n, st) = Ret (d', c, n', st') \<longrightarrow> marks st st')"
    and "card (unvisited st) < fuel"
  shows "walk_pass2 f ds (n, st) \<noteq> NoFuel \<and>
     (\<forall>ds' c n' st'. walk_pass2 f ds (n, st) = Ret (ds', c, n', st') \<longrightarrow> marks st st')"
  using assms(2)
proof (induction ds arbitrary: n st)
  case (Cons d ds)
  note d = assms(1) [OF Cons.prems, of d n]
  show ?case
  proof (cases "f d (n, st)")
    case (Ret r)
    obtain d' c n1 st1 where r: "r = (d', c, n1, st1)" by (cases r)
    then have "marks st st1" using d Ret by simp
    moreover from this have "card (unvisited st1) < fuel" using marks_card Cons.prems by fastforce
    ultimately show ?thesis using Cons.IH [of st1 n1] Ret r
      by (auto simp: wbind_Ret wbind_NoFuel dest: marks_trans)
  qed (use d in simp_all)
qed simp

lemma keeps_pass2_finish: "pass2_finish ino sfi ds nd dc ic n st = Some st' \<Longrightarrow> keeps st st'"
  by (auto simp: pass2_finish_def Let_def bind_eq_Some_conv split: if_split_asm
      dest!: keeps_writedir keeps_writes intro: keeps_trans)

lemma pass2_dir_ends:
  assumes "card (unvisited st) < fuel"
  shows "pass2_dir fuel ino parentino st \<noteq> NoFuel \<and>
     (\<forall>b st'. pass2_dir fuel ino parentino st = Ret (b, st') \<longrightarrow> marks st st')"
  using assms
proof (induction fuel arbitrary: ino parentino st)
  case (Suc fuel)
  let ?walk = "walk_pass2 (pass2_entry (\<lambda>sub. pass2_dir fuel sub ino))"
  have walk: "?walk ds (0, st1) \<noteq> NoFuel \<and> (\<forall>ds' c n' st'. ?walk ds (0, st1) = Ret (ds', c, n', st') \<longrightarrow> marks st1 st')"
    if "card (unvisited st1) < fuel" for ds st1
    using Suc.IH that by (intro walk_pass2_ends pass2_entry_ends) simp_all
  have names: "marks st st2 \<and> card (unvisited st2) < fuel"
    if visit: "inode_visitdir ino st = Some (False, st1)"
      and "pass2_names ino parentino sfi st1 = Some (ds, nd, sfi', dc, ic, st2)" for st1 sfi ds nd sfi' dc ic st2
  proof -
    have m: "marks st1 st2" using that(2) by (intro keeps_marks) (rule keeps_pass2_names)
    have sub: "unvisited st1 \<subset> unvisited st" using inode_visitdir_marks [OF visit] by simp
    have "card (unvisited st1) < card (unvisited st)"
      by (rule psubset_card_mono [OF _ sub]) (simp add: unvisited_def)
    then show ?thesis using Suc.prems marks_card [OF m] m sub by (auto simp: marks_def)
  qed
  show ?case
  proof (intro conjI allI impI)
    show "pass2_dir (Suc fuel) ino parentino st \<noteq> NoFuel"
      using names walk by (auto simp: wbind_NoFuel split: if_split_asm)
  next
    fix b st' assume "pass2_dir (Suc fuel) ino parentino st = Ret (b, st')"
    then consider "inode_visitdir ino st = Some (True, st')"
      | st1 sfi ds nd sfi' dc ic st2 ds2 c n st3 where "inode_visitdir ino st = Some (False, st1)"
        "pass2_names ino parentino sfi st1 = Some (ds, nd, sfi', dc, ic, st2)"
        "?walk (take nd ds) (0, st2) = Ret (ds2, c, n, st3)"
        "pass2_finish ino sfi' ds2 nd (dc \<or> c) ic n st3 = Some st'"
      by (auto simp: wbind_Ret split: if_split_asm)
    then show "marks st st'"
    proof cases
      case 1
      then show ?thesis using inode_visitdir_marks by fastforce
    next
      case 2
      then show ?thesis using names walk keeps_pass2_finish [THEN keeps_marks]
        by (meson marks_trans)
    qed
  qed
qed simp

end
