(* ===== verification/Sfsck_Tree.thy ===== *)
theory Sfsck_Tree
  imports Sfsck_Pass
begin

text \<open>
  The checker as a whole (\<^verbatim>\<open>userland/sbin/sfsck\<close>): the walk over the directory tree ends on every
  volume, the assertions of pass 2 on the special entries hold, and what becomes of an indirect
  block that pass 1 drops.
\<close>

section \<open>Termination\<close>

lemma for_each_preserves:
  assumes "\<And>s. R s s" "\<And>a b c. R a b \<Longrightarrow> R b c \<Longrightarrow> R a c" "\<And>x s s'. f x s = Some s' \<Longrightarrow> R s s'"
  shows "for_each xs f s = Some s' \<Longrightarrow> R s s'"
  by (induction xs arbitrary: s) (auto simp: bind_eq_Some_conv intro: assms)

lemma keeps_for_each:
  "(\<And>x s s'. f x s = Some s' \<Longrightarrow> keeps s s') \<Longrightarrow> for_each xs f s = Some s' \<Longrightarrow> keeps s s'"
  by (rule for_each_preserves [of keeps]) (auto intro: keeps_trans)

lemma keeps_freemap_setup: "freemap_setup st = Some st' \<Longrightarrow> keeps st st'"
  by (auto simp: freemap_setup_def Let_def bind_eq_Some_conv keeps_def
      dest!: keeps_for_each [rotated] keeps_freemap(1))

lemma keeps_freemap_check:
  assumes "freemap_check st = Some st'"
  shows "keeps st st'"
proof -
  have step: "keeps (snd s) (snd s')" if "freemap_checkblock i s = Some s'" for i s s'
    using that by (auto simp: freemap_checkblock_def bind_eq_Some_conv split: if_split_asm prod.splits
        dest!: keeps_writes)
  have "keeps (snd s) (snd s')" if "for_each xs freemap_checkblock s = Some s'" for xs s s'
    by (rule for_each_preserves [of "\<lambda>s s'. keeps (snd s) (snd s')", OF _ _ _ that])
      (auto intro: keeps_trans step)
  with assms show ?thesis by (fastforce simp: freemap_check_def Let_def bind_eq_Some_conv split: if_split_asm)
qed

lemma sb_load_check:
  assumes "sb_load st = Some st1" "sb_check st1 = Some st2"
  shows "fk_inodes st2 = fk_inodes st" "sb_totalblocks st2 = sb_totalblocks st1"
proof -
  have "fk_inodes st1 = fk_inodes st"
    using assms(1) by (auto simp: sb_load_def bind_eq_Some_conv split: if_split_asm)
  moreover
  let ?bad = "\<lambda>c st. if c then setbadness EXIT_RECOV st else st"
  let ?sb = "\<lambda>n r. (fk_sb st1)\<lparr>sb_volname := n, sb_reserved := r\<rparr>"
  have bad: "fk_inodes (?bad c st) = fk_inodes st" "sb_totalblocks (?bad c st) = sb_totalblocks st" for c st
    by (simp_all add: sb_totalblocks_def)
  from assms(2) obtain c1 c2 c3 n2 r st3 where st3: "st3 = (?bad c3 (?bad c2 (?bad c1 st1)))\<lparr>fk_sb := ?sb n2 r\<rparr>"
    and "(if c1 \<or> c2 \<or> c3 then sfs_writesb SFS_SUPER_BLOCK (?sb n2 r) st3 else Some st3) = Some st2"
    by (simp only: sb_check_def Let_def bind_eq_Some_conv split_paired_Ex prod.case checkzeroed_def) blast
  then have "keeps st3 st2" by (auto split: if_split_asm dest: keeps_writes)
  then have "fk_inodes st2 = fk_inodes st1 \<and> sb_totalblocks st2 = sb_totalblocks st1"
    by (simp add: keeps_def sb_totalblocks_def st3 bad)
  ultimately show "fk_inodes st2 = fk_inodes st" "sb_totalblocks st2 = sb_totalblocks st1" by simp_all
qed

lemma volume_card: "card (volume st) \<le> sb_totalblocks st + 1"
  unfolding volume_def by (metis Suc_eq_plus1 card_insert_le_m1 card_lessThan diff_Suc_1 le_refl zero_less_Suc)

lemma unvisited_card: "card (unvisited st) \<le> length (fk_inodes st)"
proof -
  have "card (unvisited st) \<le> card {..<length (fk_inodes st)}"
    by (rule card_mono) (auto simp: unvisited_def)
  then show ?thesis by simp
qed

lemma pass1_ends:
  assumes "fk_inodes st = []" "sb_totalblocks st + 1 < fuel"
  shows "pass1 fuel st \<noteq> NoFuel \<and>
     (\<forall>st'. pass1 fuel st = Ret st' \<longrightarrow> length (fk_inodes st') < fuel \<and> table_ok st')"
proof -
  have dir: "pass1_dir fuel SFS_ROOTDIR_INO st1 \<noteq> NoFuel \<and>
      (\<forall>st2. pass1_dir fuel SFS_ROOTDIR_INO st1 = Ret st2 \<longrightarrow> length (fk_inodes st2) < fuel \<and> table_ok st2)"
    if "keeps st st1" for st1
  proof -
    have tab: "fk_inodes st1 = []" and total: "sb_totalblocks st1 = sb_totalblocks st"
      using that assms by (simp_all add: keeps_def sb_totalblocks_def)
    have "todo st1 < fuel" using volume_card [of st1] assms(2) by (simp add: todo_def tab total)
    then have e: "pass1_dir fuel SFS_ROOTDIR_INO st1 \<noteq> NoFuel"
        "\<And>st2. pass1_dir fuel SFS_ROOTDIR_INO st1 = Ret st2 \<Longrightarrow> grows st1 st2"
      using pass1_dir_ends [of SFS_ROOTDIR_INO st1 fuel] by (auto simp: volume_def)
    have "length (fk_inodes st2) < fuel \<and> table_ok st2" if "grows st1 st2" for st2
    proof -
      have ok: "table_ok st2" using that by (auto simp: grows_def table_ok_def tab)
      have "length (fk_inodes st2) = card (set (inos st2))"
        using ok distinct_card [of "inos st2"] by (simp add: table_ok_def)
      also have "\<dots> \<le> card (volume st2)"
        by (rule card_mono) (use ok in \<open>simp_all add: volume_def table_ok_def\<close>)
      also have "\<dots> \<le> sb_totalblocks st + 1"
        using volume_card [of st2] that total by (simp add: grows_def sb_totalblocks_def)
      finally show ?thesis using ok assms(2) by simp
    qed
    with e show ?thesis by blast
  qed
  let ?root = "\<lambda>sfi. if sfi_type sfi = SFS_TYPE_DIR then Ret st
     else wlift (sfs_writeinode SFS_ROOTDIR_INO (sfi\<lparr>sfi_type := SFS_TYPE_DIR\<rparr>) (setbadness EXIT_RECOV st))"
  have "?root sfi \<noteq> NoFuel" "?root sfi = Ret st1 \<Longrightarrow> keeps st st1" for sfi st1
    by (auto split: if_split_asm dest!: keeps_writes(1))
  then show ?thesis using dir unfolding pass1_def wbind_NoFuel wbind_Ret by (metis wlift_NoFuel)
qed

lemma pass2_ends:
  assumes "length (fk_inodes st) < fuel" "table_ok st" "freemap_check st = Some st1"
    "inode_sorttable st1 = Some st2"
  shows "pass2 fuel st2 \<noteq> NoFuel"
proof -
  have "keeps st st1" using assms(3) by (rule keeps_freemap_check)
  then have tab: "fk_inodes st1 = fk_inodes st" by (simp add: keeps_def)
  then have "length (fk_inodes st2) = length (fk_inodes st)"
    using inode_sorttable_ok [of st1] assms(2,4) by (auto simp: table_ok_def dest: mset_eq_length)
  then have "card (unvisited st2) < fuel" using unvisited_card [of st2] assms(1) by simp
  from pass2_dir_ends [OF this] show ?thesis by (auto simp: pass2_def wbind_NoFuel)
qed

text \<open>C7. The checker ends on every volume, however damaged its directories are: cycles, directories
  reached twice, entries with arbitrary inode numbers.  The recursion of both passes is never deeper
  than the number of blocks of the volume plus 2.\<close>

theorem sfsck_terminates:
  assumes "fk_inodes st = []" "sb_load st = Some st1" "sb_totalblocks st1 + 1 < fuel"
  shows "sfsck fuel st \<noteq> NoFuel"
proof -
  have p1: "pass1 fuel st3 \<noteq> NoFuel \<and> (\<forall>st4. pass1 fuel st3 = Ret st4 \<longrightarrow> length (fk_inodes st4) < fuel \<and> table_ok st4)"
    if st2: "sb_check st1 = Some st2" and st3: "freemap_setup st2 = Some st3" for st2 st3
    using sb_load_check [OF assms(2) st2] keeps_freemap_setup [OF st3] assms(1,3)
    by (intro pass1_ends) (simp_all add: keeps_def sb_totalblocks_def)
  show ?thesis using p1 pass2_ends assms(2)
    by (simp add: sfsck_def wbind_NoFuel) blast
qed


section \<open>The special entries\<close>

subsection \<open>Sorting the entries\<close>

text \<open>The lexicographic order of names, and the order of entries: free ones last.\<close>

fun lexcmp :: "byte list \<Rightarrow> byte list \<Rightarrow> int" where
  "lexcmp [] [] = 0"
| "lexcmp [] (b # bs) = - 1"
| "lexcmp (a # as) [] = 1"
| "lexcmp (a # as) (b # bs) = (if a = b then lexcmp as bs else if b < a then 1 else - 1)"

lemma lexcmp_sym: "0 < lexcmp x y \<longleftrightarrow> lexcmp y x < 0"
  by (induction x y rule: lexcmp.induct) auto

lemma lexcmp_0 [simp]: "lexcmp x y = 0 \<longleftrightarrow> x = y"
  by (induction x y rule: lexcmp.induct) auto

lemma lexcmp_antisym: "lexcmp y x \<le> 0 \<Longrightarrow> lexcmp x y \<le> 0 \<Longrightarrow> x = y"
  by (induction x y rule: lexcmp.induct) (auto split: if_split_asm)

lemma lexcmp_Nil: "lexcmp [] z \<le> 0"
  by (cases z) simp_all

lemma lexcmp_trans: "lexcmp x y \<le> 0 \<Longrightarrow> lexcmp y z \<le> 0 \<Longrightarrow> lexcmp x z \<le> 0"
proof (induction x y arbitrary: z rule: lexcmp.induct)
  case (4 a as b bs)
  then show ?case by (cases z) (auto split: if_split_asm)
qed (auto simp: lexcmp_Nil)

lemma name_cmp_eq: "0 \<in> set a \<Longrightarrow> 0 \<in> set b \<Longrightarrow> name_cmp a b = Some (lexcmp (cname a) (cname b))"
  by (induction a b rule: name_cmp.induct) (auto simp: cname_def word_gt_0)

definition entry_order :: "sfs_direntry \<Rightarrow> sfs_direntry \<Rightarrow> int" where
  "entry_order ad bd =
     (if sfd_ino ad = SFS_NOINO then if sfd_ino bd = SFS_NOINO then 0 else 1
      else if sfd_ino bd = SFS_NOINO then - 1
      else lexcmp (cname (sfd_name ad)) (cname (sfd_name bd)))"

interpretation dirs: comparator "dirsortfunc ds" "\<lambda>a b. entry_order (ds ! a) (ds ! b)" for ds
proof
  show "0 < entry_order (ds ! x) (ds ! y) \<longleftrightarrow> entry_order (ds ! y) (ds ! x) < 0" for x y
    by (simp add: entry_order_def lexcmp_sym)
  show "entry_order (ds ! x) (ds ! z) \<le> 0"
    if "entry_order (ds ! x) (ds ! y) \<le> 0" "entry_order (ds ! y) (ds ! z) \<le> 0" for x y z
    using that lexcmp_trans by (auto simp: entry_order_def split: if_split_asm)
qed

definition terminated :: "sfs_direntry \<Rightarrow> bool" where
  "terminated d \<longleftrightarrow> length (sfd_name d) = SFS_NAMELEN \<and> 0 \<in> set (sfd_name d) \<and>
     (sfd_ino d = SFS_NOINO \<longrightarrow> cname (sfd_name d) = [])"

lemma entry_ok_terminated: "entry_ok n d \<Longrightarrow> terminated d"
  by (cases "sfd_name d") (auto simp: entry_ok_def terminated_def good_name_def SFS_NAMELEN_def split: if_split_asm)

lemma sfsdir_sort_ok:
  assumes "\<forall>d \<in> set ds. terminated d"
  obtains v where "sfsdir_sort ds = Some v" "distinct v" "set v = {..<length ds}"
    "sorted_wrt (\<lambda>a b. entry_order (ds ! a) (ds ! b) \<le> 0) v"
proof -
  have "defined_on (dirsortfunc ds) (\<lambda>a b. entry_order (ds ! a) (ds ! b)) (mset [0..<length ds])"
    unfolding defined_on_def
  proof (intro allI impI)
    fix a b assume ab: "{#a, b#} \<subseteq># mset [0..<length ds]"
    have "set_mset {#a, b#} \<subseteq> set_mset (mset [0..<length ds])" using ab by (rule set_mset_mono)
    then have ab: "a < length ds" "b < length ds" by auto
    then have "terminated (ds ! a)" "terminated (ds ! b)" using assms by simp_all
    then show "dirsortfunc ds a b = Some (entry_order (ds ! a) (ds ! b))" using ab
      by (simp add: dirsortfunc_def entry_order_def name_cmp_eq terminated_def)
  qed
  from dirs.qsort_correct [OF this] obtain v where v: "qsort (dirsortfunc ds) [0..<length ds] = Some v"
    "mset v = mset [0..<length ds]" "sorted_wrt (\<lambda>a b. entry_order (ds ! a) (ds ! b) \<le> 0) v" by blast
  have "distinct v" using v(2) mset_eq_imp_distinct_iff by fastforce
  moreover have "set v = {..<length ds}" using mset_eq_setD [OF v(2)] by (simp add: atLeast0LessThan)
  ultimately show thesis using v by (intro that) (simp_all add: sfsdir_sort_def)
qed


subsection \<open>Duplicates\<close>

definition special :: "sfs_direntry \<Rightarrow> bool" where
  "special d \<longleftrightarrow> cname (sfd_name d) = DOT \<or> cname (sfd_name d) = DOTDOT"

definition same_name :: "sfs_direntry \<Rightarrow> sfs_direntry \<Rightarrow> bool" where
  "same_name d1 d2 \<longleftrightarrow> sfd_ino d1 \<noteq> SFS_NOINO \<and> sfd_ino d2 \<noteq> SFS_NOINO \<and>
     cname (sfd_name d1) = cname (sfd_name d2)"

lemma cname_cleared: "n \<noteq> [] \<Longrightarrow> cname (n[0 := 0]) = []"
  by (cases n) (simp_all add: cname_def)

lemma pass2_dup_ok:
  assumes "terminated d1" "sfd_ino d1 \<noteq> SFS_NOINO"
  obtains d st' where "pass2_dup d1 d2 st = Some (d, st')" "terminated d" "\<not> special d"
proof (cases "sfd_ino d1 = sfd_ino d2")
  case True
  have ne: "sfd_name d1 \<noteq> []" using assms(1) by (auto simp: terminated_def SFS_NAMELEN_def)
  have "0 \<in> set ((sfd_name d1)[0 := 0])" using ne by (intro set_update_memI) simp
  with True assms ne show thesis
    by (intro that [of "cleared d1"])
      (auto simp: pass2_dup_def cleared_def terminated_def special_def DOT_def DOTDOT_def cname_cleared)
next
  case False
  have len: "length (sfd_name d1) = SFS_NAMELEN" using assms(1) by (simp add: terminated_def)
  obtain n where n: "fsck_name (sfd_name d1) (sfd_ino d1) (fk_unique st) = Some n"
    "length n = SFS_NAMELEN" "good_name n" "cname n = fsck_bytes (sfd_ino d1) (fk_unique st)"
    using good_fsck_name [OF len] .
  have "cname n \<noteq> DOT" "cname n \<noteq> DOTDOT" unfolding n(4) by (simp_all add: fsck_bytes_def DOT_def DOTDOT_def)
  with False n assms show thesis
    by (intro that [of "d1\<lparr>sfd_name := n\<rparr>"])
      (auto simp: pass2_dup_def uniqueid_def terminated_def special_def good_name_def)
qed

text \<open>Every entry whose successor in the vector has the same name is replaced, every other one is kept.\<close>

lemma pass2_dups_ok:
  assumes "\<forall>d \<in> set ds. terminated d" "distinct v" "set v \<subseteq> {..<length ds}"
  shows "\<exists>ds' c st'. pass2_dups v ds st = Some (ds', c, st') \<and> length ds' = length ds \<and>
     (\<forall>d \<in> set ds'. terminated d) \<and> (\<forall>i. i \<notin> set v \<longrightarrow> ds' ! i = ds ! i) \<and>
     (\<forall>k < length v. \<not> special (ds' ! (v ! k)) \<or> ds' ! (v ! k) = ds ! (v ! k) \<and>
        \<not> (Suc k < length v \<and> same_name (ds ! (v ! k)) (ds ! (v ! Suc k))))"
    (is "\<exists>ds' c st'. ?P v ds st ds' c st'")
  using assms
proof (induction v arbitrary: ds st)
  case Nil
  then show ?case by auto
next
  case (Cons v1 vs)
  show ?case
  proof (cases vs)
    case Nil
    then show ?thesis using Cons.prems by auto
  next
    case vs: (Cons v2 ws)
    have v: "v1 < length ds" "v2 < length ds" "v1 \<noteq> v2" "v1 \<notin> set vs" using Cons.prems vs by auto
    then have t: "terminated (ds ! v1)" "terminated (ds ! v2)" using Cons.prems(1) by simp_all
    have "\<exists>ds1 st1. (\<forall>ds' c st'. pass2_dups vs ds1 st1 = Some (ds', c, st') \<longrightarrow>
          (\<exists>c'. pass2_dups (v1 # vs) ds st = Some (ds', c', st'))) \<and>
        length ds1 = length ds \<and> (\<forall>d \<in> set ds1. terminated d) \<and> (\<forall>i. i \<noteq> v1 \<longrightarrow> ds1 ! i = ds ! i) \<and>
        (\<not> special (ds1 ! v1) \<or> ds1 ! v1 = ds ! v1 \<and> \<not> same_name (ds ! v1) (ds ! v2))"
    proof (cases "same_name (ds ! v1) (ds ! v2)")
      case True
      then have used: "sfd_ino (ds ! v1) \<noteq> SFS_NOINO" by (simp add: same_name_def)
      obtain d st1 where d: "pass2_dup (ds ! v1) (ds ! v2) st = Some (d, st1)" "terminated d" "\<not> special d"
        using pass2_dup_ok [OF t(1) used] .
      then show ?thesis using True t v Cons.prems(1) set_update_subset_insert [of ds v1 d] vs
        by (intro exI [of _ "ds[v1 := d]"] exI [of _ st1])
          (auto simp: same_name_def name_cmp_eq terminated_def)
    next
      case False
      then show ?thesis using t v Cons.prems(1) vs
        by (intro exI [of _ ds] exI [of _ st])
          (auto simp: same_name_def name_cmp_eq terminated_def)
    qed
    then obtain ds1 st1 where ds1: "\<forall>ds' c st'. pass2_dups vs ds1 st1 = Some (ds', c, st') \<longrightarrow>
          (\<exists>c'. pass2_dups (v1 # vs) ds st = Some (ds', c', st'))"
        "length ds1 = length ds" "\<forall>d \<in> set ds1. terminated d" "\<forall>i. i \<noteq> v1 \<longrightarrow> ds1 ! i = ds ! i"
        "\<not> special (ds1 ! v1) \<or> ds1 ! v1 = ds ! v1 \<and> \<not> same_name (ds ! v1) (ds ! v2)" by blast
    obtain ds' c st' where "?P vs ds1 st1 ds' c st'"
      using Cons.IH [of ds1 st1] Cons.prems ds1 by auto
    then have r: "pass2_dups vs ds1 st1 = Some (ds', c, st')" "length ds' = length ds1"
        "\<forall>d \<in> set ds'. terminated d" "\<And>i. i \<notin> set vs \<Longrightarrow> ds' ! i = ds1 ! i"
        "\<And>k. k < length vs \<Longrightarrow> \<not> special (ds' ! (vs ! k)) \<or> ds' ! (vs ! k) = ds1 ! (vs ! k) \<and>
          \<not> (Suc k < length vs \<and> same_name (ds1 ! (vs ! k)) (ds1 ! (vs ! Suc k)))" by blast+
    have eq: "ds1 ! (vs ! i) = ds ! (vs ! i)" if "i < length vs" for i
      using v(4) that ds1(4) by (metis nth_mem)
    have "\<not> special (ds' ! ((v1 # vs) ! k)) \<or> ds' ! ((v1 # vs) ! k) = ds ! ((v1 # vs) ! k) \<and>
        \<not> (Suc k < length (v1 # vs) \<and> same_name (ds ! ((v1 # vs) ! k)) (ds ! ((v1 # vs) ! Suc k)))"
      if "k < length (v1 # vs)" for k
    proof (cases k)
      case 0
      then show ?thesis using r(4) [OF v(4)] ds1(5) vs by auto
    next
      case (Suc m)
      then show ?thesis using r(5) [of m] eq [of m] eq [of "Suc m"] that by auto
    qed
    moreover obtain c' where "pass2_dups (v1 # vs) ds st = Some (ds', c', st')" using ds1(1) r(1) by blast
    moreover have "ds' ! i = ds ! i" if "i \<notin> set (v1 # vs)" for i using r(4) [of i] ds1(4) that by simp
    moreover have "length ds' = length ds" using r(2) ds1(2) by simp
    ultimately show ?thesis using r(3) by (intro exI [of _ ds'] exI [of _ c'] exI [of _ st']) blast
  qed
qed


text \<open>In the sorted order the entries with one name are neighbours, so all but the last are replaced.\<close>

lemma sorted_between:
  assumes "sorted_wrt (\<lambda>a b. entry_order (ds ! a) (ds ! b) \<le> 0) v" "k < l" "l < length v"
    and "same_name (ds ! (v ! k)) (ds ! (v ! l))"
  shows "same_name (ds ! (v ! k)) (ds ! (v ! Suc k))"
proof (cases "Suc k = l")
  case False
  then have "entry_order (ds ! (v ! k)) (ds ! (v ! Suc k)) \<le> 0" "entry_order (ds ! (v ! Suc k)) (ds ! (v ! l)) \<le> 0"
    using assms(1-3) by (auto simp: sorted_wrt_iff_nth_less)
  then show ?thesis using assms(4) lexcmp_antisym
    by (auto simp: same_name_def entry_order_def split: if_split_asm)
qed (use assms in simp)

lemma at_most_one:
  assumes "\<And>i j. i < j \<Longrightarrow> j < length xs \<Longrightarrow> P (xs ! i) \<Longrightarrow> P (xs ! j) \<Longrightarrow> False"
  shows "length (filter P xs) \<le> 1"
  using assms
proof (induction xs)
  case (Cons x xs)
  have "length (filter P xs) \<le> 1" using Cons.prems [of "Suc _" "Suc _"] by (intro Cons.IH) auto
  moreover have "filter P xs = []" if "P x"
    using Cons.prems [of 0 "Suc _"] that by (auto simp: filter_empty_conv in_set_conv_nth)
  ultimately show ?case by auto
qed simp

definition named :: "byte list \<Rightarrow> sfs_direntry list \<Rightarrow> sfs_direntry list" where
  "named n ds = filter (\<lambda>d. cname (sfd_name d) = n) ds"

lemma dups_one_special:
  assumes "\<forall>d \<in> set ds. terminated d"
  obtains v ds' c st' where "sfsdir_sort ds = Some v" "pass2_dups v ds st = Some (ds', c, st')"
    "length ds' = length ds" "\<forall>d \<in> set ds'. terminated d"
    "length (named DOT ds') \<le> 1" "length (named DOTDOT ds') \<le> 1"
proof -
  obtain v where v: "sfsdir_sort ds = Some v" "distinct v" "set v = {..<length ds}"
    "sorted_wrt (\<lambda>a b. entry_order (ds ! a) (ds ! b) \<le> 0) v" using sfsdir_sort_ok [OF assms] .
  then have vs: "set v \<subseteq> {..<length ds}" by simp
  obtain ds' c st' where r: "pass2_dups v ds st = Some (ds', c, st')" "length ds' = length ds"
      "\<forall>d \<in> set ds'. terminated d"
      "\<And>k. k < length v \<Longrightarrow> \<not> special (ds' ! (v ! k)) \<or> ds' ! (v ! k) = ds ! (v ! k) \<and>
        \<not> (Suc k < length v \<and> same_name (ds ! (v ! k)) (ds ! (v ! Suc k)))"
    using pass2_dups_ok [OF assms v(2) vs, of st] by blast
  have one: "length (named n ds') \<le> 1" if n: "n = DOT \<or> n = DOTDOT" for n
    unfolding named_def
  proof (rule at_most_one)
    fix i j assume ij: "i < j" "j < length ds'" "cname (sfd_name (ds' ! i)) = n" "cname (sfd_name (ds' ! j)) = n"
    have "i \<in> set v" "j \<in> set v" using ij r(2) v(3) by auto
    then obtain k l where kl: "k < length v" "v ! k = i" "l < length v" "v ! l = j" by (auto simp: in_set_conv_nth)
    have sp: "special (ds' ! (v ! k))" "special (ds' ! (v ! l))" using ij n kl by (auto simp: special_def)
    have same: "ds ! i = ds' ! i" "ds ! j = ds' ! j" using r(4) kl sp by metis+
    have "terminated (ds ! i)" "terminated (ds ! j)" using assms ij r(2) by simp_all
    then have nm: "same_name (ds ! i) (ds ! j)" "same_name (ds ! j) (ds ! i)"
      using ij n same by (auto simp: same_name_def terminated_def DOT_def DOTDOT_def)
    have "k \<noteq> l" using kl ij by auto
    then consider "k < l" | "l < k" by linarith
    then show False
    proof cases
      case 1
      then show False using sorted_between [OF v(4) 1 kl(3)] nm kl r(4) [OF kl(1)] sp by auto
    next
      case 2
      then show False using sorted_between [OF v(4) 2 kl(1)] nm kl r(4) [OF kl(3)] sp by auto
    qed
  qed
  show thesis by (rule that [OF v(1) r(1,2,3) one one]) simp_all
qed


subsection \<open>Correcting and inserting\<close>

lemma special_names [simp]: "DOT \<noteq> DOTDOT" "DOTDOT \<noteq> DOT" "DOT \<noteq> []" "DOTDOT \<noteq> []" "0 \<notin> set DOT" "0 \<notin> set DOTDOT"
  by (simp_all add: DOT_def DOTDOT_def)

definition fix_dot :: "nat \<Rightarrow> nat \<Rightarrow> sfs_direntry \<Rightarrow> sfs_direntry" where
  "fix_dot ino parentino d =
     (if cname (sfd_name d) = DOT then d\<lparr>sfd_ino := ino\<rparr>
      else if cname (sfd_name d) = DOTDOT then d\<lparr>sfd_ino := parentino\<rparr> else d)"

lemma named_simps [simp]:
  "named n [] = []" "named n (us @ ws) = named n us @ named n ws"
  "named n (d # ds) = (if cname (sfd_name d) = n then d # named n ds else named n ds)"
  by (simp_all add: named_def)

lemma pass2_dots_ok:
  assumes "length (named DOT ds) + of_bool s1 \<le> 1" "length (named DOTDOT ds) + of_bool s2 \<le> 1"
  shows "\<exists>c st'. pass2_dots ino parentino ds s1 s2 st =
     Some (map (fix_dot ino parentino) ds, c, s1 \<or> named DOT ds \<noteq> [], s2 \<or> named DOTDOT ds \<noteq> [], st')"
  using assms
proof (induction ds arbitrary: s1 s2 st)
  case (Cons d ds)
  consider (dot) "cname (sfd_name d) = DOT" | (dotdot) "cname (sfd_name d) = DOTDOT"
    | (other) "cname (sfd_name d) \<noteq> DOT" "cname (sfd_name d) \<noteq> DOTDOT" by blast
  then show ?case
  proof cases
    case dot
    then have "\<not> s1" using Cons.prems by (cases s1) simp_all
    with dot Cons.prems Cons.IH [of True s2 "if sfd_ino d = ino then st else setbadness EXIT_RECOV st"]
    show ?thesis by (auto simp: fix_dot_def)
  next
    case dotdot
    then have "\<not> s2" using Cons.prems by (cases s2) simp_all
    with dotdot Cons.prems Cons.IH [of s1 True "if sfd_ino d = parentino then st else setbadness EXIT_RECOV st"]
    show ?thesis by (auto simp: fix_dot_def)
  next
    case other
    with Cons.prems Cons.IH [of s1 s2 st] show ?thesis by (auto simp: fix_dot_def)
  qed
qed auto

lemma named_fix_dot:
  "named DOT (map (fix_dot ino parentino) ds) = map (\<lambda>d. d\<lparr>sfd_ino := ino\<rparr>) (named DOT ds)"
  "named DOTDOT (map (fix_dot ino parentino) ds) = map (\<lambda>d. d\<lparr>sfd_ino := parentino\<rparr>) (named DOTDOT ds)"
  by (induction ds) (auto simp: fix_dot_def)

definition new_entry :: "byte list \<Rightarrow> nat \<Rightarrow> sfs_direntry \<Rightarrow> sfs_direntry" where
  "new_entry name ino d = \<lparr>sfd_ino = ino, sfd_name = name @ [0] @ drop (length name + 1) (sfd_name d)\<rparr>"

lemma sfsdir_tryadd_None: "sfsdir_tryadd ds name ino = None \<longleftrightarrow> (\<forall>d \<in> set ds. sfd_ino d \<noteq> SFS_NOINO)"
  by (induction ds) auto

lemma sfsdir_tryadd_Some:
  "sfsdir_tryadd ds name ino = Some ds' \<Longrightarrow> \<exists>us d ws. ds = us @ d # ws \<and> (\<forall>u \<in> set us. sfd_ino u \<noteq> SFS_NOINO) \<and>
     sfd_ino d = SFS_NOINO \<and> ds' = us @ new_entry name ino d # ws"
proof (induction ds arbitrary: ds')
  case (Cons d ds)
  show ?case
  proof (cases "sfd_ino d = SFS_NOINO")
    case True
    then show ?thesis using Cons.prems by (intro exI [of _ "[]"]) (auto simp: new_entry_def)
  next
    case False
    with Cons.prems obtain ds1 where "sfsdir_tryadd ds name ino = Some ds1" "ds' = d # ds1" by auto
    with Cons.IH obtain us e ws where "ds = us @ e # ws" "\<forall>u \<in> set us. sfd_ino u \<noteq> SFS_NOINO"
      "sfd_ino e = SFS_NOINO" "ds' = d # us @ new_entry name ino e # ws" by blast
    then show ?thesis using False by (intro exI [of _ "d # us"]) auto
  qed
qed simp

lemma cname_new_entry [simp]: "0 \<notin> set name \<Longrightarrow> cname (sfd_name (new_entry name ino d)) = name"
  unfolding new_entry_def cname_def by simp (subst takeWhile_append2, auto)


text \<open>A directory in memory: the entries that count, then free room.\<close>

definition dir_ok :: "nat \<Rightarrow> sfs_direntry list \<Rightarrow> bool" where
  "dir_ok nd ds \<longleftrightarrow> nd \<le> length ds \<and> (\<forall>d \<in> set ds. terminated d) \<and> (\<forall>d \<in> set (drop nd ds). d = zero_direntry)"

definition one_entry :: "byte list \<Rightarrow> nat \<Rightarrow> sfs_direntry list \<Rightarrow> bool \<Rightarrow> bool" where
  "one_entry name ino ds sure \<longleftrightarrow> length (named name ds) \<le> 1 \<and> (\<forall>d \<in> set (named name ds). sfd_ino d = ino) \<and>
     (sure \<longrightarrow> named name ds \<noteq> [])"

lemma new_entry_ino [simp]: "sfd_ino (new_entry name ino d) = ino"
  by (simp add: new_entry_def)

lemma terminated_new_entry:
  "length name + 1 \<le> SFS_NAMELEN \<Longrightarrow> terminated d \<Longrightarrow> ino \<noteq> SFS_NOINO \<Longrightarrow> terminated (new_entry name ino d)"
  by (simp add: terminated_def new_entry_def)

lemma named_insert:
  assumes "ds = us @ d # ws" "terminated d" "sfd_ino d = SFS_NOINO" "0 \<notin> set name" "name \<noteq> []"
  shows "named name (us @ new_entry name ino d # ws) = named name us @ [new_entry name ino d] @ named name ws"
    and "named name ds = named name us @ named name ws"
    and "x \<noteq> name \<Longrightarrow> x \<noteq> [] \<Longrightarrow> named x (us @ new_entry name ino d # ws) = named x ds"
  using assms by (auto simp: terminated_def)

lemma pass2_missing_ok:
  assumes ok: "dir_ok nd ds" and name: "name = DOT \<or> name = DOTDOT" and ino: "ino \<noteq> SFS_NOINO"
    and one: "one_entry name ino (take nd ds) seen" "seen \<longleftrightarrow> named name (take nd ds) \<noteq> []"
  shows "\<exists>ds' nd' sfi' dc' ic' st'. pass2_missing name ino seen (ds, nd, sfi, dc, ic, st) = (ds', nd', sfi', dc', ic', st') \<and>
     dir_ok nd' ds' \<and> one_entry name ino (take nd' ds') (fk_badness st' < EXIT_UNRECOV) \<and>
     fk_badness st \<le> fk_badness st' \<and>
     (\<forall>x. x \<noteq> name \<and> x \<noteq> [] \<longrightarrow> named x (take nd' ds') = named x (take nd ds))"
proof -
  have nm: "0 \<notin> set name" "name \<noteq> []" "length name + 1 \<le> SFS_NAMELEN"
    using name by (auto simp: DOT_def DOTDOT_def SFS_NAMELEN_def)
  consider (seen) "seen" | (front) front where "\<not> seen" "sfsdir_tryadd (take nd ds) name ino = Some front"
    | (rear) rear where "\<not> seen" "sfsdir_tryadd (take nd ds) name ino = None" "sfsdir_tryadd ds name ino = Some rear"
    | (full) "\<not> seen" "sfsdir_tryadd (take nd ds) name ino = None" "sfsdir_tryadd ds name ino = None"
    by (cases "sfsdir_tryadd (take nd ds) name ino"; cases "sfsdir_tryadd ds name ino") auto
  then show ?thesis
  proof cases
    case seen
    then show ?thesis using ok one by (simp add: pass2_missing_def one_entry_def)
  next
    case front
    from sfsdir_tryadd_Some [OF front(2)] obtain us d ws where
      d: "take nd ds = us @ d # ws" "sfd_ino d = SFS_NOINO" "front = us @ new_entry name ino d # ws" by blast
    have "length (take nd ds) = nd" using ok by (simp add: dir_ok_def)
    then have len: "length front = nd" unfolding d(1,3) by simp
    have sub: "set (us @ d # ws) \<subseteq> set ds" using set_take_subset [of nd ds] d(1) by simp
    then have t: "terminated d" using ok by (auto simp: dir_ok_def)
    have "dir_ok nd (front @ drop nd ds)" using ok sub len terminated_new_entry [OF nm(3) t ino] d(3)
      by (auto simp: dir_ok_def dest: in_set_dropD)
    moreover have "named name (take nd ds) = []" using one(2) front(1) by simp
    ultimately show ?thesis using named_insert [OF d(1) t d(2) nm(1,2)] front len d(3)
      by (auto simp: pass2_missing_def one_entry_def)
  next
    case rear
    have used: "\<forall>d \<in> set (take nd ds). sfd_ino d \<noteq> SFS_NOINO" using rear(2) sfsdir_tryadd_None by blast
    from sfsdir_tryadd_Some [OF rear(3)] obtain us d ws where
      d: "ds = us @ d # ws" "\<forall>u \<in> set us. sfd_ino u \<noteq> SFS_NOINO" "sfd_ino d = SFS_NOINO"
        "rear = us @ new_entry name ino d # ws" by blast
    have ge: "nd \<le> length us"
    proof (rule ccontr)
      assume "\<not> nd \<le> length us"
      then have "d \<in> set (take nd ds)" using d(1) by (cases "nd - length us") auto
      with used d(3) show False by blast
    qed
    have us: "us = take nd ds"
    proof (rule ccontr)
      assume "us \<noteq> take nd ds"
      then have "drop nd us \<noteq> []" using ge d(1) by auto
      then obtain u where u: "u \<in> set (drop nd us)" by (cases "drop nd us") auto
      then have "u \<in> set (drop nd ds)" using d(1) by auto
      then have "u = zero_direntry" using ok by (simp add: dir_ok_def)
      then show False using in_set_dropD [OF u] d(2) by (auto simp: zero_direntry_def SFS_NOINO_def)
    qed
    have len: "length us = nd" using us ok by (simp add: dir_ok_def)
    have t: "terminated d" using ok d(1) by (auto simp: dir_ok_def)
    have "drop nd ds = d # ws" using d(1) len by simp
    then have "dir_ok (nd + 1) rear" using ok terminated_new_entry [OF nm(3) t ino] d len
      by (auto simp: dir_ok_def)
    moreover have "named name (take nd ds) = []" using one(2) rear(1) by simp
    moreover have "take (nd + 1) rear = take nd ds @ [new_entry name ino d]" using d(4) us len by simp
    ultimately show ?thesis using rear nm by (auto simp: pass2_missing_def one_entry_def)
  next
    case full
    then show ?thesis using ok one by (simp add: pass2_missing_def one_entry_def)
  qed
qed


lemma length_dec_dirblock [simp]: "length (dec_dirblock n b) = n"
  by (induction n arbitrary: b) simp_all

lemma sfs_readdir_length: "sfs_readdir sfi nd st = Some ds \<Longrightarrow> length ds = nd"
proof -
  have "length ds = left" if "sfs_readdir_loop n sfi i left st = Some ds" for n i left ds
    using that
  proof (induction n arbitrary: i left ds)
    case (Suc n)
    then show ?case
      by (auto simp: sfs_readdirblock_def bind_eq_Some_conv Let_def split: if_split_asm)
  qed (auto simp: bind_eq_Some_conv)
  then show "sfs_readdir sfi nd st = Some ds \<Longrightarrow> length ds = nd" by (simp add: sfs_readdir_def)
qed

lemma terminated_fix_dot:
  "ino \<noteq> SFS_NOINO \<Longrightarrow> parentino \<noteq> SFS_NOINO \<Longrightarrow> terminated d \<Longrightarrow> terminated (fix_dot ino parentino d)"
  by (auto simp: fix_dot_def terminated_def)

lemma terminated_zero: "terminated zero_direntry"
  by (simp add: terminated_def zero_direntry_def SFS_NAMELEN_def cname_def)

text \<open>C24. On a directory as pass 1 leaves it, the first part of pass 2 returns: no comparison runs past a
  name and the assertions that there is one entry for the directory itself and one for its parent
  hold.  Afterwards each of the two has at most one entry, which names the right inode, and exactly one
  unless an unrecoverable error was reported.\<close>

theorem pass2_special_entries:
  assumes "sfs_readdir sfi (sfi_size sfi div DIRENTRY_SIZE) st = Some ds" "\<forall>d \<in> set ds. entry_ok nblocks d"
    and "ino \<noteq> SFS_NOINO" "parentino \<noteq> SFS_NOINO"
  shows "\<exists>ds' nd sfi' dc ic st'. pass2_names ino parentino sfi st = Some (ds', nd, sfi', dc, ic, st') \<and>
     one_entry DOT ino (take nd ds') (fk_badness st' < EXIT_UNRECOV) \<and>
     one_entry DOTDOT parentino (take nd ds') (fk_badness st' < EXIT_UNRECOV)"
proof -
  let ?nd = "sfi_size sfi div DIRENTRY_SIZE"
  have "\<forall>d \<in> set ds. terminated d" using assms(2) entry_ok_terminated by blast
  then obtain v ds1 c1 st1 where v: "sfsdir_sort ds = Some v" and ds1: "pass2_dups v ds st = Some (ds1, c1, st1)"
    "length ds1 = length ds" "\<forall>d \<in> set ds1. terminated d"
    "length (named DOT ds1) \<le> 1" "length (named DOTDOT ds1) \<le> 1" by (rule dups_one_special)
  obtain c2 st2 where dots: "pass2_dots ino parentino ds1 False False st1 =
      Some (map (fix_dot ino parentino) ds1, c2, named DOT ds1 \<noteq> [], named DOTDOT ds1 \<noteq> [], st2)"
    using pass2_dots_ok [of ds1 False False ino parentino st1] ds1(4,5) by auto
  define ds2 where "ds2 = map (fix_dot ino parentino) ds1 @ replicate (SFS_ROUNDUP ?nd ATONCE - ?nd) zero_direntry"
  have len: "length ds1 = ?nd" using sfs_readdir_length [OF assms(1)] ds1(2) by simp
  have t2: "take ?nd ds2 = map (fix_dot ino parentino) ds1" using len by (simp add: ds2_def)
  have ok: "dir_ok ?nd ds2"
    using len ds1(3) terminated_fix_dot [OF assms(3,4)] terminated_zero by (auto simp: dir_ok_def ds2_def)
  have pre3: "one_entry DOT ino (take ?nd ds2) (named DOT ds1 \<noteq> [])"
      "named DOT ds1 \<noteq> [] \<longleftrightarrow> named DOT (take ?nd ds2) \<noteq> []"
    using ds1(4) unfolding t2 one_entry_def named_fix_dot by auto
  obtain ds3 nd3 sfi3 dc3 ic3 st3 where m3: "pass2_missing DOT ino (named DOT ds1 \<noteq> [])
      (ds2, ?nd, sfi, c1 \<or> c2, False, st2) = (ds3, nd3, sfi3, dc3, ic3, st3)" "dir_ok nd3 ds3"
      "one_entry DOT ino (take nd3 ds3) (fk_badness st3 < EXIT_UNRECOV)"
      "\<forall>x. x \<noteq> DOT \<and> x \<noteq> [] \<longrightarrow> named x (take nd3 ds3) = named x (take ?nd ds2)"
    using pass2_missing_ok [OF ok disjI1 [OF refl] assms(3) pre3, of sfi "c1 \<or> c2" False st2] by blast
  have dd: "named DOTDOT (take nd3 ds3) = map (\<lambda>d. d\<lparr>sfd_ino := parentino\<rparr>) (named DOTDOT ds1)"
    using m3(4) t2 named_fix_dot by simp
  have pre4: "one_entry DOTDOT parentino (take nd3 ds3) (named DOTDOT ds1 \<noteq> [])"
      "named DOTDOT ds1 \<noteq> [] \<longleftrightarrow> named DOTDOT (take nd3 ds3) \<noteq> []"
    using ds1(5) unfolding dd one_entry_def by auto
  obtain ds4 nd4 sfi4 dc4 ic4 st4 where m4: "pass2_missing DOTDOT parentino (named DOTDOT ds1 \<noteq> [])
      (ds3, nd3, sfi3, dc3, ic3, st3) = (ds4, nd4, sfi4, dc4, ic4, st4)"
      "one_entry DOTDOT parentino (take nd4 ds4) (fk_badness st4 < EXIT_UNRECOV)" "fk_badness st3 \<le> fk_badness st4"
      "\<forall>x. x \<noteq> DOTDOT \<and> x \<noteq> [] \<longrightarrow> named x (take nd4 ds4) = named x (take nd3 ds3)"
    using pass2_missing_ok [OF m3(2) disjI2 [OF refl] assms(4) pre4, of sfi3 dc3 ic3 st3] by blast
  have "pass2_names ino parentino sfi st = Some (ds4, nd4, sfi4, dc4, ic4, st4)"
    using assms(1) v ds1(1) dots m3(1) m4(1) by (simp add: pass2_names_def Let_def ds2_def)
  moreover have "one_entry DOT ino (take nd4 ds4) (fk_badness st4 < EXIT_UNRECOV)"
    using m3(3) m4(3,4) by (auto simp: one_entry_def)
  ultimately show ?thesis using m4(2) by blast
qed


section \<open>Indirect blocks that are dropped\<close>

lemma freemap_blockinuse_bits:
  assumes "freemap_blockinuse blk how st = Some st'"
  shows "bitset (fk_freemap st') = insert blk (bitset (fk_freemap st))"
proof -
  let ?m = "push_bit (blk mod 8) 1 :: byte"
  from assms obtain t st1 f d where
    st1: "(if t AND ?m \<noteq> 0
       then do { d \<leftarrow> cwrite (fk_tofree st) (blk div 8) (t AND NOT ?m); Some (st\<lparr>fk_tofree := d\<rparr>) }
       else Some st) = Some st1"
    and f: "cread (fk_freemap st1) (blk div 8) = Some f"
    and d: "cwrite (fk_freemap (if f AND ?m \<noteq> 0 then setbadness EXIT_UNRECOV st1 else st1)) (blk div 8) (f OR ?m) = Some d"
    and st': "fk_freemap st' = d"
    by (simp only: freemap_blockinuse_def Let_def bind_eq_Some_conv option.inject) force
  have "fk_freemap st1 = fk_freemap st" using st1 by (auto simp: bind_eq_Some_conv split: if_split_asm)
  then show ?thesis using f d st' bitset_or [of blk "fk_freemap st"]
    by (auto simp: carray_Some split: if_split_asm)
qed

lemma freemap_blockfree_bits:
  assumes "freemap_blockfree blk st = Some st'"
  shows "fk_freemap st' = fk_freemap st"
proof -
  have "st' = st \<or> (\<exists>d. st' = st\<lparr>fk_tofree := d\<rparr>)" using assms
    by (simp only: freemap_blockfree_def Let_def bind_eq_Some_conv)
      (elim exE conjE, simp only: bind_eq_Some_conv split: if_split_asm, auto simp only: option.inject bind_eq_Some_conv split: if_split_asm)
  then show ?thesis by auto
qed

lemma check_entry_bits:
  "check_entry e ibs st = Some (e', c, ibs', st') \<Longrightarrow> bitset (fk_freemap st) \<subseteq> bitset (fk_freemap st')"
  by (auto simp: check_entry_def bind_eq_Some_conv Let_def split: if_split_asm
      dest: freemap_blockinuse_bits freemap_blockfree_bits)

lemma walk_check_bits:
  "walk_entries check_entry es ibs st = Some (es', c, ibs', st') \<Longrightarrow> bitset (fk_freemap st) \<subseteq> bitset (fk_freemap st')"
proof (induction es arbitrary: ibs st es' c)
  case (Cons e es)
  from Cons.prems obtain e1 c1 ibs1 st1 es2 c2 where "check_entry e ibs st = Some (e1, c1, ibs1, st1)"
    "walk_entries check_entry es ibs1 st1 = Some (es2, c2, ibs', st')"
    by (simp add: bind_eq_Some_conv) blast
  then show ?case using Cons.IH check_entry_bits by blast
qed simp

text \<open>C26. Pass 1 marks an indirect block as used before it looks inside.  When the block turns out to
  hold nothing, the pointer to it is cleared and it is reported as free, but that report has no
  effect: the block is still in the set of used blocks, so that the bitmap on disk goes on showing it
  as allocated although nothing refers to it.\<close>

theorem dropped_indirect_stays_used:
  assumes "0 < ientry" "ientry < ib_volblocks ibs" "check_indirect_block 1 ientry ibs st = Some (0, c, ibs', st')"
  shows "ientry \<in> bitset (fk_freemap st')"
proof -
  from assms obtain es st1 es2 lc st2 where
    "freemap_blockinuse ientry B_IBLOCK st = Some st1"
    "walk_entries check_entry es ibs st1 = Some (es2, lc, ibs', st2)"
    "freemap_blockfree ientry (setbadness EXIT_RECOV st2) = Some st'"
    by (auto simp: check_indirect_block.simps bind_eq_Some_conv split: if_split_asm)
  then show ?thesis
    using freemap_blockinuse_bits walk_check_bits freemap_blockfree_bits by fastforce
qed


lemma dec_array_zero: "dec_array k n (replicate (k * n) 0) = replicate n 0"
proof (induction n)
  case (Suc n)
  have "dec_uint (replicate j 0) = 0" for j by (induction j) (simp_all add: dec_uint_def)
  with Suc show ?case by simp
qed simp

lemma walk_zero:
  "0 < ib_volblocks ibs \<Longrightarrow>
     \<exists>ibs'. walk_entries check_entry (replicate n 0) ibs st = Some (replicate n 0, False, ibs', st)"
proof (induction n arbitrary: ibs)
  case (Suc n)
  let ?ibs = "ibs\<lparr>ib_curfileblock := u32 (ib_curfileblock ibs + 1)\<rparr>"
  from Suc.IH [of ?ibs] Suc.prems
  obtain ibs' where "walk_entries check_entry (replicate n 0) ?ibs st = Some (replicate n 0, False, ibs', st)" by auto
  moreover have "check_entry 0 ibs st = Some (0, False, ?ibs, st)"
    using Suc.prems by (simp add: check_entry_def Let_def)
  ultimately show ?case by simp
qed simp

definition zero_block_volume :: fsck where
  "zero_block_volume = small_volume\<lparr>fk_freemap := [0], fk_tofree := [0]\<rparr>"

theorem dropped_indirect_stays_used_witness:
  "\<exists>ibs' st'. check_indirect_block 1 5
       \<lparr>ib_curfileblock = 15, ib_fileblocks = 20, ib_volblocks = 8, ib_pasteofcount = 0, ib_usagetype = B_DATA\<rparr>
       zero_block_volume = Some (0, True, ibs', st') \<and> 5 \<in> bitset (fk_freemap st')"
proof -
  let ?ibs = "\<lparr>ib_curfileblock = 15, ib_fileblocks = 20, ib_volblocks = 8, ib_pasteofcount = 0, ib_usagetype = B_DATA\<rparr>"
  let ?st1 = "zero_block_volume\<lparr>fk_freemap := [32], fk_blocksinuse := 1\<rparr>"
  have read: "sfs_readindirect 5 zero_block_volume = Some (replicate 128 0)"
    using dec_array_zero [of 4 128]
    by (simp add: sfs_readindirect_def zero_block_volume_def small_volume_def sfs_consts)
  have use: "freemap_blockinuse 5 B_IBLOCK zero_block_volume = Some ?st1"
    by (simp add: freemap_blockinuse_def zero_block_volume_def small_volume_def u32_def)
  obtain ibs' where walk: "walk_entries check_entry (replicate 128 0) ?ibs ?st1 = Some (replicate 128 0, False, ibs', ?st1)"
    using walk_zero [of ?ibs 128 ?st1] by auto
  have free: "freemap_blockfree 5 (setbadness EXIT_RECOV ?st1) = Some (setbadness EXIT_RECOV ?st1)"
    by (simp add: freemap_blockfree_def zero_block_volume_def)
  have "check_indirect_block 1 5 ?ibs zero_block_volume = Some (0, True, ibs', setbadness EXIT_RECOV ?st1)"
    using read use walk free by (simp add: check_indirect_block.simps)
  with dropped_indirect_stays_used [OF _ _ this] show ?thesis by auto
qed


section \<open>A damaged volume\<close>

text \<open>A volume whose root directory contains two entries for itself, both with the wrong inode number, and no
  entry for its parent.\<close>

definition bad_dot :: sfs_direntry where
  "bad_dot = \<lparr>sfd_ino = 3, sfd_name = 46 # replicate 59 0\<rparr>"

definition bad_root :: sfs_dinode where
  "bad_root = \<lparr>sfi_size = 128, sfi_type = SFS_TYPE_DIR, sfi_linkcount = 2,
     sfi_direct = 3 # replicate 14 0, sfi_indirect = 0, sfi_waste = replicate 110 0\<rparr>"

definition bad_volume :: fsck where
  "bad_volume = small_volume\<lparr>fk_disk :=
     [enc_superblock (fk_sb small_volume), enc_dinode bad_root, replicate 512 0,
      enc_dirblock (replicate 2 bad_dot @ replicate 6 zero_direntry)] @ replicate 4 (replicate 512 0)\<rparr>"

theorem sfsck_terminates_witness:
  "\<exists>st1. sb_load bad_volume = Some st1 \<and> sb_totalblocks st1 = 8 \<and> sfsck 10 bad_volume \<noteq> NoFuel"
proof -
  have "sb_ok (fk_sb small_volume)" by (simp add: sb_ok_def small_volume_def sfs_consts)
  then have "sb_load bad_volume = Some (bad_volume\<lparr>fk_sb := fk_sb small_volume\<rparr>)"
    by (simp add: sb_load_def sfs_readsb_def bad_volume_def dec_enc_superblock SFS_SUPER_BLOCK_def
        small_volume_def SFS_FREEMAPBLOCKS_def SFS_FREEMAPBITS_def SFS_ROUNDUP_def sfs_consts)
  moreover have "sb_totalblocks (bad_volume\<lparr>fk_sb := fk_sb small_volume\<rparr>) = 8"
    by (simp add: sb_totalblocks_def small_volume_def)
  moreover have "fk_inodes bad_volume = []" by (simp add: bad_volume_def small_volume_def)
  ultimately show ?thesis using sfsck_terminates [of bad_volume _ 10] by auto
qed

lemma bad_root_entries:
  "sfs_readdir bad_root (sfi_size bad_root div DIRENTRY_SIZE) bad_volume = Some [bad_dot, bad_dot]"
proof -
  have ok: "direntry_ok bad_dot" "direntry_ok zero_direntry"
    by (simp_all add: direntry_ok_def bad_dot_def zero_direntry_def SFS_NAMELEN_def)
  have "dec_dirblock ATONCE (enc_dirblock (replicate 2 bad_dot @ replicate 6 zero_direntry)) =
      replicate 2 bad_dot @ replicate 6 zero_direntry"
    using ok dec_enc_dirblock [of "replicate 2 bad_dot @ replicate 6 zero_direntry"]
    by (auto simp: ATONCE_def DIRENTRY_SIZE_def sfs_consts)
  then have "sfs_readdirblock 3 bad_volume = Some (replicate 2 bad_dot @ replicate 6 zero_direntry)"
    by (simp add: sfs_readdirblock_def bad_volume_def)
  moreover have "SFS_ROUNDUP 2 ATONCE div ATONCE = Suc 0" "sfi_size bad_root div DIRENTRY_SIZE = 2" "ATONCE = 8"
    by (simp_all add: SFS_ROUNDUP_def ATONCE_def DIRENTRY_SIZE_def sfs_consts bad_root_def u32_def)
  moreover have "bmap bad_root 0 bad_volume = Some 3" by (simp add: bmap_def bad_root_def SFS_NDIRECT_def)
  ultimately show ?thesis by (simp add: sfs_readdir_def replicate_2)
qed

theorem pass2_special_entries_witness:
  "\<exists>ds' nd sfi' dc ic st'. pass2_names 1 1 bad_root bad_volume = Some (ds', nd, sfi', dc, ic, st') \<and>
     one_entry DOT 1 (take nd ds') (fk_badness st' < EXIT_UNRECOV) \<and>
     one_entry DOTDOT 1 (take nd ds') (fk_badness st' < EXIT_UNRECOV)"
proof (rule pass2_special_entries [OF bad_root_entries])
  show "\<forall>d \<in> set [bad_dot, bad_dot]. entry_ok 8 d"
    by (simp add: entry_ok_def bad_dot_def good_name_def cname_def CH_COLON_def CH_SLASH_def SFS_NAMELEN_def SFS_NOINO_def)
qed (simp_all add: SFS_NOINO_def)

text \<open>C25. Pass 1 handles every directory entry without failing and leaves it in order: a free entry has no
  name, a used one names an inode of the volume and has a nonempty, terminated name without colons and
  slashes.  An entry that already was in order is not changed, any other one is reported.\<close>

theorem pass1_direntry_sane:
  assumes "length (sfd_name d) = SFS_NAMELEN"
  shows "\<exists>d' c st'. pass1_direntry d st = Some (d', c, st') \<and> entry_ok (sb_totalblocks st) d' \<and>
     (c \<longleftrightarrow> \<not> entry_ok (sb_totalblocks st) d) \<and> (if c then EXIT_RECOV \<le> fk_badness st' else d' = d \<and> st' = st)"
  using assms by (rule pass1_direntry_ok)

theorem pass1_direntry_sane_witness:
  "\<exists>d' st'. pass1_direntry (bad_dot\<lparr>sfd_name := replicate 60 0\<rparr>) small_volume = Some (d', True, st') \<and> entry_ok 8 d'"
proof -
  have "length (sfd_name (bad_dot\<lparr>sfd_name := replicate 60 0\<rparr>)) = SFS_NAMELEN" by (simp add: SFS_NAMELEN_def)
  moreover have "sb_totalblocks small_volume = 8" by (simp add: sb_totalblocks_def small_volume_def)
  moreover have "\<not> entry_ok 8 (bad_dot\<lparr>sfd_name := replicate 60 0\<rparr>)" by (simp add: entry_ok_def bad_dot_def SFS_NOINO_def)
  ultimately show ?thesis using pass1_direntry_sane [of "bad_dot\<lparr>sfd_name := replicate 60 0\<rparr>" small_volume] by auto
qed

end
