(* ===== verification/Millicode_Div.thy ===== *)
theory Millicode_Div
  imports Kern_Prelude
begin

text \<open>
  64-bit division for the 32-bit machine: \<^verbatim>\<open>__qdivrem\<close> (\<^verbatim>\<open>common/gcc-millicode/qdivrem.c\<close>), which is
  Knuth's Algorithm D on digits of 16 bits.

  The arrays \<^verbatim>\<open>uspace\<close>, \<^verbatim>\<open>vspace\<close> and \<^verbatim>\<open>qspace\<close> are lists of digits, most significant first, and a
  pointer into one of them is the list that starts there.  Arithmetic on \<^verbatim>\<open>unsigned int\<close> is on natural
  numbers with the reduction modulo \<open>2\<^sup>3\<^sup>2\<close> written out.
\<close>

section \<open>The routine\<close>

definition HALF_BITS :: nat where "HALF_BITS = 16"

definition DBASE :: nat where "DBASE = 2 ^ HALF_BITS"

definition HHALF :: "nat \<Rightarrow> nat" where "HHALF x = x div 2 ^ HALF_BITS"
definition LHALF :: "nat \<Rightarrow> nat" where "LHALF x = x mod 2 ^ HALF_BITS"

definition COMBINE :: "nat \<Rightarrow> nat \<Rightarrow> nat" where
  "COMBINE a b = u32 (a * 2 ^ HALF_BITS) OR b"

text \<open>\<^verbatim>\<open>shl\<close>: a left shift of all digits of the list; what falls out on the left is lost.\<close>

fun shl :: "nat \<Rightarrow> nat list \<Rightarrow> nat list" where
  "shl sh [] = []"
| "shl sh [x] = [LHALF (u32 (x * 2 ^ sh))]"
| "shl sh (x # y # ps) = (LHALF (u32 (x * 2 ^ sh)) OR (y div 2 ^ (HALF_BITS - sh))) # shl sh (y # ps)"

text \<open>The divisor without its leading zeros, or its only digit.\<close>

fun norm_v :: "nat list \<Rightarrow> nat + nat list" where
  "norm_v [] = Inl 0"
| "norm_v (v1 # vs) = (if v1 \<noteq> 0 then Inr (v1 # vs) else if length vs = 1 then Inl (hd vs) else norm_v vs)"

text \<open>The dividend, one digit longer, without its leading zeros.\<close>

fun norm_u :: "nat list \<Rightarrow> nat list" where
  "norm_u (u0 # u1 # us) = (if u1 = 0 then norm_u (u1 # us) else u0 # u1 # us)"
| "norm_u us = us"

text \<open>Division by one digit.\<close>

definition div_short :: "nat list \<Rightarrow> nat \<Rightarrow> nat \<times> nat" where
  "div_short u t =
     (let q1 = u ! 1 div t;
          rbj = COMBINE (u ! 1 mod t) (u ! 2);
          q2 = rbj div t;
          rbj = COMBINE (rbj mod t) (u ! 3);
          q3 = rbj div t;
          rbj = COMBINE (rbj mod t) (u ! 4);
          q4 = rbj div t
      in (COMBINE (LHALF q1) (LHALF q2) * 2 ^ 32 + COMBINE (LHALF q3) (LHALF q4), rbj mod t))"

text \<open>D1: how far the divisor has to be shifted.  A first digit of 0 does not occur.\<close>

function count_d :: "nat \<Rightarrow> nat" where
  "count_d t = (if 0 < t \<and> t < DBASE div 2 then count_d (t * 2) + 1 else 0)"
  by pat_completeness auto
termination
  by (relation "measure (\<lambda>t. DBASE - t)") (auto simp: DBASE_def HALF_BITS_def)

declare count_d.simps [simp del]

text \<open>D3: the trial digit.\<close>

function qhat_loop :: "nat \<Rightarrow> nat \<Rightarrow> nat \<Rightarrow> nat \<Rightarrow> nat \<Rightarrow> nat" where
  "qhat_loop v1 v2 uj2 qhat rhat =
     (if COMBINE rhat uj2 < u32 (v2 * qhat)
      then if DBASE \<le> rhat + v1 then qhat - 1 else qhat_loop v1 v2 uj2 (qhat - 1) (rhat + v1)
      else qhat)"
  by pat_completeness auto
termination
proof (relation "measure (\<lambda>(v1, v2, uj2, qhat, rhat). qhat)")
  fix v1 v2 uj2 qhat rhat
  assume "COMBINE rhat uj2 < u32 (v2 * qhat)"
  then have "0 < qhat" by (cases qhat) (simp_all add: u32_def)
  then show "((v1, v2, uj2, qhat - 1, rhat + v1), v1, v2, uj2, qhat, rhat)
      \<in> measure (\<lambda>(v1, v2, uj2, qhat, rhat). qhat)" by simp
qed simp

declare qhat_loop.simps [simp del]

definition trial :: "nat \<Rightarrow> nat \<Rightarrow> nat \<Rightarrow> nat \<Rightarrow> nat \<Rightarrow> nat" where
  "trial v1 v2 uj0 uj1 uj2 =
     (if uj0 = v1
      then if DBASE \<le> uj1 + v1 then DBASE - 1 else qhat_loop v1 v2 uj2 (DBASE - 1) (uj1 + v1)
      else let nn = COMBINE uj0 uj1 in qhat_loop v1 v2 uj2 (nn div v1) (nn mod v1))"

text \<open>D4: multiply and subtract; the borrow and the new digits.\<close>

fun mulsub :: "nat \<Rightarrow> nat list \<Rightarrow> nat list \<Rightarrow> nat \<times> nat list" where
  "mulsub qhat (u # us) (v # vs) =
     (let (t, us') = mulsub qhat us vs;
          t' = nat ((int u - int v * int qhat - int t) mod 2 ^ 32)
      in ((DBASE - HHALF t') mod DBASE, LHALF t' # us'))"
| "mulsub qhat us vs = (0, [])"

text \<open>D6: add back; the carry and the new digits.\<close>

fun addback :: "nat list \<Rightarrow> nat list \<Rightarrow> nat \<times> nat list" where
  "addback (u # us) (v # vs) =
     (let (t, us') = addback us vs; t' = u32 (t + (u + v)) in (HHALF t', LHALF t' # us'))"
| "addback us vs = (0, [])"

text \<open>D3 to D6 on the digits \<^verbatim>\<open>u[j]\<close> to \<^verbatim>\<open>u[j+n]\<close>: the digit of the quotient and the new digits.\<close>

definition div_step :: "nat list \<Rightarrow> nat list \<Rightarrow> nat \<times> nat list" where
  "div_step vs us =
     (let qhat = trial (vs ! 0) (vs ! 1) (us ! 0) (us ! 1) (us ! 2);
          (t, us') = mulsub qhat (tl us) vs;
          t = nat ((int (us ! 0) - int t) mod 2 ^ 32)
      in if HHALF t \<noteq> 0
         then let (c, us'') = addback us' vs in (LHALF (qhat - 1), LHALF (LHALF t + c) # us'')
         else (LHALF qhat, LHALF t # us'))"

text \<open>D2 and D7: one digit of the quotient after the other; the number of digits still to compute.\<close>

primrec div_loop :: "nat \<Rightarrow> nat list \<Rightarrow> nat list \<Rightarrow> nat list \<times> nat list" where
  "div_loop 0 vs us = ([], us)"
| "div_loop (Suc k) vs us =
     (let (q, w) = div_step vs (take (length vs + 1) us);
          (qs, us') = div_loop k vs (tl w @ drop (length vs + 1) us)
      in (q # qs, hd w # us'))"

text \<open>The remainder: a right shift, where digits of the left neighbour come in.\<close>

fun shr :: "nat \<Rightarrow> nat \<Rightarrow> nat list \<Rightarrow> nat list" where
  "shr d prev [] = []"
| "shr d prev (x # xs) = ((x div 2 ^ d) OR LHALF (u32 (prev * 2 ^ (HALF_BITS - d)))) # shr d x xs"

definition unshift :: "nat \<Rightarrow> nat \<Rightarrow> nat list \<Rightarrow> nat list" where
  "unshift d m us = (if d \<noteq> 0 then take m us @ [0] @ shr d (us ! m) (drop (m + 1) us) else us)"

definition split_digits :: "nat \<Rightarrow> nat list" where
  "split_digits x = [HHALF (x div 2 ^ 32), LHALF (x div 2 ^ 32), HHALF (x mod 2 ^ 32), LHALF (x mod 2 ^ 32)]"

definition join_digits :: "nat list \<Rightarrow> nat" where
  "join_digits xs = COMBINE (xs ! 1) (xs ! 2) * 2 ^ 32 + COMBINE (xs ! 3) (xs ! 4)"

text \<open>
  \<^verbatim>\<open>__qdivrem\<close>: quotient and remainder.  A division by zero is passed on to the machine, which traps.
\<close>

definition qdivrem :: "nat \<Rightarrow> nat \<Rightarrow> (nat \<times> nat) option" where
  "qdivrem ull vll =
     (if vll = 0 then None
      else if ull < vll then Some (0, ull)
      else let uspace = 0 # split_digits ull
           in (case norm_v (split_digits vll) of
                 Inl t \<Rightarrow> Some (div_short uspace t)
               | Inr vs \<Rightarrow>
                   (let us = norm_u uspace;
                        m = length us - 1 - length vs;
                        d = count_d (hd vs);
                        us = (if 0 < d then shl d us else us);
                        vs = (if 0 < d then shl d vs else vs);
                        (qs, us) = div_loop (m + 1) vs us;
                        qspace = replicate (4 - m) 0 @ qs;
                        uspace = take (5 - length us) uspace @ unshift d m us
                    in Some (join_digits qspace, join_digits uspace))))"

section \<open>Numbers in digits\<close>

fun dval :: "nat list \<Rightarrow> nat" where
  "dval [] = 0"
| "dval (x # xs) = x * DBASE ^ length xs + dval xs"

abbreviation digits :: "nat list \<Rightarrow> bool" where
  "digits xs \<equiv> \<forall>x \<in> set xs. x < DBASE"

lemma DBASE_eq: "DBASE = 65536" "2 ^ HALF_BITS = (65536 :: nat)"
  by (simp_all add: DBASE_def HALF_BITS_def)

lemma DBASE_pos [simp]: "0 < DBASE" "DBASE \<noteq> 0"
  by (simp_all add: DBASE_eq)

lemma halves: "LHALF x = x mod DBASE" "HHALF x = x div DBASE"
  by (simp_all add: LHALF_def HHALF_def DBASE_def)

lemma dval_append: "dval (xs @ ys) = dval xs * DBASE ^ length ys + dval ys"
  by (induction xs) (simp_all add: algebra_simps power_add)

lemma dval_less: "digits xs \<Longrightarrow> dval xs < DBASE ^ length xs"
proof (induction xs)
  case (Cons x xs)
  have "dval (x # xs) < x * DBASE ^ length xs + DBASE ^ length xs" using Cons by simp
  also have "\<dots> = (x + 1) * DBASE ^ length xs" by (simp add: algebra_simps)
  also have "\<dots> \<le> DBASE * DBASE ^ length xs" using Cons.prems by (intro mult_right_mono) simp_all
  finally show ?case by simp
qed simp

lemma dval_zeros [simp]: "dval (replicate n 0 @ xs) = dval xs"
  by (induction n) simp_all

lemma dval_eq_0: "dval xs = 0 \<longleftrightarrow> (\<forall>x \<in> set xs. x = 0)"
  by (induction xs) simp_all

text \<open>Two numbers without common bits: the bitwise or is the sum.\<close>

lemma or_shift: "b < 2 ^ k \<Longrightarrow> (a * 2 ^ k) OR b = a * 2 ^ k + b" for a b :: nat
proof -
  assume "b < 2 ^ k"
  then have b: "take_bit k b = b" by (rule take_bit_nat_eq_self)
  have "push_bit k a AND take_bit k b = 0" by (simp add: bit_eq_iff bit_simps)
  then have "push_bit k a + take_bit k b = push_bit k a OR take_bit k b" by (rule disjunctive_add_eq_or)
  then show ?thesis by (simp add: b push_bit_eq_mult)
qed

lemma COMBINE_eq:
  assumes "a < DBASE" "b < DBASE"
  shows "COMBINE a b = a * DBASE + b"
proof -
  have "a * DBASE < 2 ^ 32" using assms(1) by (simp add: DBASE_eq)
  then show ?thesis using or_shift [of b HALF_BITS a] assms by (simp add: COMBINE_def u32_small DBASE_def)
qed

subsection \<open>Shifts\<close>

lemma shift_parts:
  assumes "sh \<le> HALF_BITS"
  shows "x * 2 ^ sh = (x div 2 ^ (HALF_BITS - sh)) * DBASE + x * 2 ^ sh mod DBASE"
    and "x * 2 ^ sh mod DBASE = (x mod 2 ^ (HALF_BITS - sh)) * 2 ^ sh"
proof -
  have b: "DBASE = 2 ^ (HALF_BITS - sh) * 2 ^ sh" using assms by (simp add: DBASE_def flip: power_add)
  have "x * 2 ^ sh div DBASE = x div 2 ^ (HALF_BITS - sh)" unfolding b by simp
  then show "x * 2 ^ sh = (x div 2 ^ (HALF_BITS - sh)) * DBASE + x * 2 ^ sh mod DBASE"
    using div_mult_mod_eq [of "x * 2 ^ sh" DBASE] by simp
  show "x * 2 ^ sh mod DBASE = (x mod 2 ^ (HALF_BITS - sh)) * 2 ^ sh"
    unfolding b by (simp add: mult_mod_left)
qed

lemma shl_digit:
  assumes "x < DBASE" "y < DBASE" "sh \<le> HALF_BITS"
  shows "LHALF (u32 (x * 2 ^ sh)) OR (y div 2 ^ (HALF_BITS - sh)) =
      x * 2 ^ sh mod DBASE + y div 2 ^ (HALF_BITS - sh)"
    and "x * 2 ^ sh mod DBASE + y div 2 ^ (HALF_BITS - sh) < DBASE"
    and "LHALF (u32 (x * 2 ^ sh)) = x * 2 ^ sh mod DBASE"
proof -
  have b: "DBASE = 2 ^ (HALF_BITS - sh) * 2 ^ sh" using assms(3) by (simp add: DBASE_def flip: power_add)
  have "(2 :: nat) ^ sh \<le> DBASE" unfolding DBASE_def using assms(3) by (rule power_increasing) simp
  then have "x * 2 ^ sh \<le> x * DBASE" by simp
  also have "\<dots> < 2 ^ 32" using assms(1) by (simp add: DBASE_eq)
  finally show l: "LHALF (u32 (x * 2 ^ sh)) = x * 2 ^ sh mod DBASE" by (simp add: u32_small halves)
  have y: "y div 2 ^ (HALF_BITS - sh) < 2 ^ sh"
    using assms(2) unfolding b by (simp add: less_mult_imp_div_less mult.commute)
  show "LHALF (u32 (x * 2 ^ sh)) OR (y div 2 ^ (HALF_BITS - sh)) =
      x * 2 ^ sh mod DBASE + y div 2 ^ (HALF_BITS - sh)"
    unfolding l shift_parts(2) [OF assms(3)] by (rule or_shift) (rule y)
  have "x mod 2 ^ (HALF_BITS - sh) + 1 \<le> 2 ^ (HALF_BITS - sh)" by (simp add: Suc_le_eq)
  then have "(x mod 2 ^ (HALF_BITS - sh) + 1) * 2 ^ sh \<le> DBASE" unfolding b by (rule mult_right_mono) simp
  then show "x * 2 ^ sh mod DBASE + y div 2 ^ (HALF_BITS - sh) < DBASE"
    unfolding shift_parts(2) [OF assms(3)] using y by (simp add: algebra_simps)
qed

lemma shl_ok:
  assumes "digits xs" "sh \<le> HALF_BITS" "xs \<noteq> []"
  shows "length (shl sh xs) = length xs \<and> digits (shl sh xs) \<and>
     dval (shl sh xs) + (hd xs div 2 ^ (HALF_BITS - sh)) * DBASE ^ length xs = dval xs * 2 ^ sh"
  using assms
proof (induction sh xs rule: shl.induct)
  case (2 sh x)
  then show ?case using shift_parts(1) [of sh x] shl_digit(3) [of x 0 sh] by simp
next
  case (3 sh x y ps)
  let ?k = "length (y # ps)"
  from 3 have IH: "length (shl sh (y # ps)) = ?k" "digits (shl sh (y # ps))"
    "dval (shl sh (y # ps)) + (y div 2 ^ (HALF_BITS - sh)) * DBASE ^ ?k = dval (y # ps) * 2 ^ sh" by simp_all
  note d = shl_digit [of x y sh]
  have dg: "digits (shl sh (x # y # ps))" "length (shl sh (x # y # ps)) = length (x # y # ps)"
    using 3 IH(1,2) d by simp_all
  have "dval (shl sh (x # y # ps)) = (x * 2 ^ sh mod DBASE + y div 2 ^ (HALF_BITS - sh)) * DBASE ^ ?k + dval (shl sh (y # ps))"
    using 3 d IH(1) by simp
  also have "\<dots> = (x * 2 ^ sh mod DBASE) * DBASE ^ ?k + dval (y # ps) * 2 ^ sh"
    using IH(3) by (simp add: algebra_simps del: dval.simps)
  finally have "dval (shl sh (x # y # ps)) + (x div 2 ^ (HALF_BITS - sh)) * DBASE ^ Suc ?k =
      ((x div 2 ^ (HALF_BITS - sh)) * DBASE + x * 2 ^ sh mod DBASE) * DBASE ^ ?k + dval (y # ps) * 2 ^ sh"
    by (simp add: algebra_simps del: dval.simps)
  also have "\<dots> = dval (x # y # ps) * 2 ^ sh"
    unfolding shift_parts(1) [OF 3(3), symmetric] by (simp add: algebra_simps)
  finally show ?case using dg by simp
qed simp

lemma shr_ok:
  assumes "digits (prev # xs)" "d \<le> HALF_BITS"
  shows "length (shr d prev xs) = length xs \<and> digits (shr d prev xs) \<and>
     (\<exists>r < 2 ^ d. 2 ^ d * dval (shr d prev xs) + r = (prev mod 2 ^ d) * DBASE ^ length xs + dval xs)"
  using assms(1)
proof (induction xs arbitrary: prev)
  case Nil
  then show ?case by simp
next
  case (Cons x xs)
  let ?k = "length xs"
  have b: "DBASE = 2 ^ d * 2 ^ (HALF_BITS - d)" using assms(2) by (simp add: DBASE_def flip: power_add)
  have sub: "HALF_BITS - (HALF_BITS - d) = d" using assms(2) by simp
  have dig: "(x div 2 ^ d) OR LHALF (u32 (prev * 2 ^ (HALF_BITS - d))) = prev * 2 ^ (HALF_BITS - d) mod DBASE + x div 2 ^ d"
    "prev * 2 ^ (HALF_BITS - d) mod DBASE + x div 2 ^ d < DBASE"
    using shl_digit [of prev x "HALF_BITS - d"] Cons.prems sub by (simp_all add: or.commute)
  from Cons.IH [of x] Cons.prems obtain r where IH: "length (shr d x xs) = ?k" "digits (shr d x xs)"
    "r < 2 ^ d" "2 ^ d * dval (shr d x xs) + r = (x mod 2 ^ d) * DBASE ^ ?k + dval xs" by auto
  have "2 ^ d * dval (shr d prev (x # xs)) + r =
      2 ^ d * ((prev mod 2 ^ d) * 2 ^ (HALF_BITS - d) + x div 2 ^ d) * DBASE ^ ?k + (2 ^ d * dval (shr d x xs) + r)"
    using IH(1) dig(1) shift_parts(2) [of "HALF_BITS - d" prev] sub by (simp add: algebra_simps)
  also have "\<dots> = (prev mod 2 ^ d) * (2 ^ d * 2 ^ (HALF_BITS - d)) * DBASE ^ ?k +
      (2 ^ d * (x div 2 ^ d) + x mod 2 ^ d) * DBASE ^ ?k + dval xs"
    unfolding IH(4) by (simp only: distrib_left distrib_right ac_simps)
  also have "\<dots> = (prev mod 2 ^ d) * DBASE * DBASE ^ ?k + x * DBASE ^ ?k + dval xs"
    by (simp only: b [symmetric] mult_div_mod_eq)
  also have "\<dots> = (prev mod 2 ^ d) * DBASE ^ length (x # xs) + dval (x # xs)" by (simp add: mult.assoc)
  finally show ?case using IH dig by auto
qed

lemma count_d_ok: "0 < t \<Longrightarrow> t < DBASE \<Longrightarrow> t * 2 ^ count_d t < DBASE \<and> count_d t < HALF_BITS"
proof -
  assume t: "0 < t" "t < DBASE"
  then have lt: "t * 2 ^ count_d t < DBASE"
  proof (induction t rule: count_d.induct)
    case (1 t)
    show ?case
    proof (cases "t < DBASE div 2")
      case True
      then have "t * 2 < DBASE" by simp
      with 1 True have "t * 2 * 2 ^ count_d (t * 2) < DBASE" by simp
      with 1 True show ?thesis by (subst count_d.simps) (simp add: mult.assoc)
    next
      case False
      with 1 show ?thesis by (subst count_d.simps) simp
    qed
  qed
  moreover have "2 ^ count_d t \<le> t * 2 ^ count_d t" using t by simp
  ultimately have "(2 :: nat) ^ count_d t < 2 ^ HALF_BITS" unfolding DBASE_def by linarith
  then show "t * 2 ^ count_d t < DBASE \<and> count_d t < HALF_BITS" using lt by simp
qed


subsection \<open>Multiply and subtract, add back\<close>

text \<open>One digit of the subtraction: \<open>x\<close> is what the C expression would be without wrap-around.\<close>

lemma borrow_digit:
  fixes x :: int
  assumes "- (int DBASE * (int DBASE - 1)) \<le> x" "x < int DBASE"
  defines "t \<equiv> nat (x mod 2 ^ 32)"
  shows "int (LHALF t) = x - int DBASE * (x div int DBASE)"
    and "int ((DBASE - HHALF t) mod DBASE) = - (x div int DBASE)"
proof -
  have t: "int t = x mod (int DBASE * int DBASE)" by (simp add: t_def DBASE_eq)
  have hi: "x mod (int DBASE * int DBASE) div int DBASE = x div int DBASE mod int DBASE"
    by (simp add: zmod_zmult2_eq)
  have "int (LHALF t) = x mod int DBASE" unfolding halves zmod_int t by (simp add: mod_mod_cancel)
  then show "int (LHALF t) = x - int DBASE * (x div int DBASE)" by (simp add: minus_mult_div_eq_mod)
  have q: "1 - int DBASE \<le> x div int DBASE" "x div int DBASE \<le> 0"
  proof -
    have "(int DBASE * (1 - int DBASE)) div int DBASE \<le> x div int DBASE"
      by (rule zdiv_mono1) (use assms in \<open>simp_all add: algebra_simps\<close>)
    then show "1 - int DBASE \<le> x div int DBASE" by simp
    have "x div int DBASE \<le> (int DBASE - 1) div int DBASE" by (rule zdiv_mono1) (use assms in simp_all)
    then show "x div int DBASE \<le> 0" by (simp add: div_pos_pos_trivial)
  qed
  have h: "int (HHALF t) = x div int DBASE mod int DBASE" unfolding halves zdiv_int t hi ..
  show "int ((DBASE - HHALF t) mod DBASE) = - (x div int DBASE)"
  proof (cases "x div int DBASE = 0")
    case True
    then show ?thesis using h by simp
  next
    case False
    then have "(x div int DBASE + int DBASE) mod int DBASE = x div int DBASE + int DBASE"
      using q by (intro mod_pos_pos_trivial) linarith+
    then have "int (HHALF t) = x div int DBASE + int DBASE" using h by simp
    then have "HHALF t < DBASE" "int (DBASE - HHALF t) = - (x div int DBASE)" "0 < HHALF t"
      using q False by (auto simp: of_nat_diff)
    then show ?thesis by simp
  qed
qed

lemma mulsub_ok:
  assumes "digits us" "digits vs" "length us = length vs" "qhat < DBASE" "mulsub qhat us vs = (t, us')"
  shows "t < DBASE \<and> length us' = length us \<and> digits us' \<and>
     dval us' + qhat * dval vs = dval us + t * DBASE ^ length us"
  using assms
proof (induction us vs arbitrary: t us' rule: list_induct2')
  case (4 u us v vs)
  obtain t0 us0 where 0: "mulsub qhat us vs = (t0, us0)" by (cases "mulsub qhat us vs")
  with 4 have IH: "t0 < DBASE" "length us0 = length us" "digits us0"
    "dval us0 + qhat * dval vs = dval us + t0 * DBASE ^ length us" by auto
  define x where "x = int u - int v * int qhat - int t0"
  have lt: "u < DBASE" "v < DBASE" using 4(2,3) by simp_all
  have "int v * int qhat \<le> (int DBASE - 1) * (int DBASE - 1)" using lt 4(5) by (intro mult_mono) simp_all
  moreover have "(int DBASE - 1) * (int DBASE - 1) = int DBASE * (int DBASE - 1) - (int DBASE - 1)"
    by (simp add: algebra_simps)
  moreover have "int u < int DBASE" "int t0 \<le> int DBASE - 1" "0 \<le> int v * int qhat" using lt IH(1) by simp_all
  ultimately have x: "- (int DBASE * (int DBASE - 1)) \<le> x" "x < int DBASE"
    unfolding x_def by linarith+
  let ?t = "nat (x mod 2 ^ 32)"
  have eq: "t = (DBASE - HHALF ?t) mod DBASE" "us' = LHALF ?t # us0"
    using 4(6) 0 by (simp_all add: x_def Let_def)
  have "int (LHALF ?t) = x + int DBASE * int t" using borrow_digit [OF x] eq by simp
  then have lo: "int (LHALF ?t) = int u - int v * int qhat - int t0 + int DBASE * int t"
    using x_def by linarith
  let ?k = "length us"
  have "int (dval us' + qhat * dval (v # vs)) =
      int (LHALF ?t) * int DBASE ^ ?k + int qhat * int v * int DBASE ^ ?k + int (dval us0 + qhat * dval vs)"
    using eq IH(2) 4(4) by (simp add: algebra_simps)
  also have "\<dots> = int (dval (u # us) + t * DBASE ^ length (u # us))"
    unfolding IH(4) lo using 4(4) by (simp add: algebra_simps)
  finally have "dval us' + qhat * dval (v # vs) = dval (u # us) + t * DBASE ^ length (u # us)" by linarith
  moreover have "t < DBASE" "LHALF ?t < DBASE" unfolding eq(1) halves by simp_all
  ultimately show ?case unfolding eq(2) using IH(2,3) by simp
qed simp_all

lemma addback_ok:
  assumes "digits us" "digits vs" "length us = length vs" "addback us vs = (t, us')"
  shows "t \<le> 1 \<and> length us' = length us \<and> digits us' \<and> dval us' + t * DBASE ^ length us = dval us + dval vs"
  using assms
proof (induction us vs arbitrary: t us' rule: list_induct2')
  case (4 u us v vs)
  obtain t0 us0 where 0: "addback us vs = (t0, us0)" by (cases "addback us vs")
  with 4 have IH: "t0 \<le> 1" "length us0 = length us" "digits us0"
    "dval us0 + t0 * DBASE ^ length us = dval us + dval vs" by auto
  let ?s = "t0 + (u + v)"
  have uv: "u < DBASE" "v < DBASE" using 4(2,3) by simp_all
  then have "u32 ?s = ?s" using IH(1) by (intro u32_small) (simp add: DBASE_eq)
  then have eq: "t = ?s div DBASE" "us' = ?s mod DBASE # us0" using 4(5) 0 by (auto simp: halves Let_def)
  define q r where "q = ?s div DBASE" and "r = ?s mod DBASE"
  have s: "?s = DBASE * q + r" by (simp add: q_def r_def)
  have "q \<le> 1" using uv IH(1) by (simp add: q_def DBASE_eq)
  moreover have "dval us' + t * DBASE ^ length (u # us) = (DBASE * q + r) * DBASE ^ length us + dval us0"
    using eq IH(2) unfolding q_def [symmetric] r_def [symmetric] by (simp add: algebra_simps)
  then have "dval us' + t * DBASE ^ length (u # us) = dval (u # us) + dval (v # vs)"
    unfolding s [symmetric] using IH(4) 4(4) by (simp add: algebra_simps)
  ultimately show ?case using eq IH(2,3) by (simp add: q_def)
qed simp_all


subsection \<open>The trial digit\<close>

text \<open>
  \<open>N\<close> is the number made of the two leading digits of the dividend, \<open>q\<close> the digit to be found.  The
  test of the loop, without wrap-around, says that the trial digit is too large for the leading
  three digits.
\<close>

lemma trial_test:
  assumes "v2 < DBASE" "u2 < DBASE" "qhat < DBASE" "rhat < DBASE" "qhat * v1 + rhat = N"
  shows "COMBINE rhat u2 < u32 (v2 * qhat) \<longleftrightarrow> N * DBASE + u2 < (v1 * DBASE + v2) * qhat"
proof -
  have "v2 * qhat \<le> (DBASE - 1) * (DBASE - 1)" using assms by (intro mult_mono) simp_all
  then have "u32 (v2 * qhat) = v2 * qhat" by (intro u32_small) (simp add: DBASE_eq)
  then show ?thesis unfolding assms(5) [symmetric] by (simp add: COMBINE_eq [OF assms(4,2)] algebra_simps)
qed

lemma qhat_loop_ok:
  assumes "v2 < DBASE" "u2 < DBASE"
    and "\<And>x. N * DBASE + u2 < (v1 * DBASE + v2) * x \<Longrightarrow> q < x"
    and "qhat < DBASE" "rhat < DBASE" "qhat * v1 + rhat = N" "q \<le> qhat"
  shows "q \<le> qhat_loop v1 v2 u2 qhat rhat \<and> qhat_loop v1 v2 u2 qhat rhat \<le> qhat \<and>
     (v1 * DBASE + v2) * qhat_loop v1 v2 u2 qhat rhat \<le> N * DBASE + u2"
  using assms(4-)
proof (induction qhat arbitrary: rhat rule: less_induct)
  case (less qhat)
  note test = trial_test [OF assms(1,2) less.prems(1-3)]
  show ?case
  proof (cases "N * DBASE + u2 < (v1 * DBASE + v2) * qhat")
    case False
    then show ?thesis using test less.prems by (subst (1 2 3) qhat_loop.simps) simp
  next
    case True
    have q: "q < qhat" using assms(3) [OF True] .
    then have inv: "(qhat - 1) * v1 + (rhat + v1) = N" using less.prems(3) by (cases qhat) simp_all
    show ?thesis
    proof (cases "DBASE \<le> rhat + v1")
      case big: True
      have "v2 * (qhat - 1) \<le> DBASE * DBASE" using assms(1) less.prems(1) by (intro mult_mono) simp_all
      also have "\<dots> \<le> (rhat + v1) * DBASE" using big by simp
      finally have "(v1 * DBASE + v2) * (qhat - 1) \<le> N * DBASE + u2"
        unfolding inv [symmetric] by (simp add: algebra_simps)
      then show ?thesis using test True big q by (subst (1 2 3) qhat_loop.simps) simp
    next
      case small: False
      have "qhat_loop v1 v2 u2 qhat rhat = qhat_loop v1 v2 u2 (qhat - 1) (rhat + v1)"
        using test True small by (subst qhat_loop.simps) simp
      moreover have "q \<le> qhat_loop v1 v2 u2 (qhat - 1) (rhat + v1) \<and> qhat_loop v1 v2 u2 (qhat - 1) (rhat + v1) \<le> qhat - 1 \<and>
          (v1 * DBASE + v2) * qhat_loop v1 v2 u2 (qhat - 1) (rhat + v1) \<le> N * DBASE + u2"
        by (rule less.IH) (use less.prems(1) small q inv in simp_all)
      ultimately show ?thesis by (metis diff_le_self le_trans)
    qed
  qed
qed

lemma trial_ok:
  assumes d: "digits (v1 # v2 # vs)" "digits (u0 # u1 # u2 # us)" "length us = length vs" "0 < v1"
    and W: "dval (u0 # u1 # u2 # us) < dval (v1 # v2 # vs) * DBASE"
  defines "q \<equiv> dval (u0 # u1 # u2 # us) div dval (v1 # v2 # vs)"
  shows "q \<le> trial v1 v2 u0 u1 u2 \<and> trial v1 v2 u0 u1 u2 \<le> q + 1 \<and> trial v1 v2 u0 u1 u2 < DBASE"
proof -
  let ?V = "dval (v1 # v2 # vs)" and ?W = "dval (u0 # u1 # u2 # us)" and ?K = "DBASE ^ length vs"
  let ?N = "u0 * DBASE + u1" and ?t = "trial v1 v2 u0 u1 u2"
  have V: "?V = (v1 * DBASE + v2) * ?K + dval vs" by (simp add: algebra_simps)
  have W': "?W = (?N * DBASE + u2) * ?K + dval us" using d(3) by (simp add: algebra_simps)
  have vs: "dval vs < ?K" and us: "dval us < ?K" using dval_less [of vs] dval_less [of us] d by simp_all
  have Vpos: "0 < ?V" using d(4) by simp
  have qB: "q < DBASE" unfolding q_def using W by (simp add: less_mult_imp_div_less mult.commute)
  have big: "q < x" if "?N * DBASE + u2 < (v1 * DBASE + v2) * x" for x
  proof -
    have "?W < (?N * DBASE + u2 + 1) * ?K" unfolding W' using us by (simp add: algebra_simps)
    also have "\<dots> \<le> (v1 * DBASE + v2) * x * ?K" using that by (intro mult_right_mono) simp_all
    also have "\<dots> \<le> x * ?V" unfolding V by (simp add: algebra_simps)
    finally show ?thesis unfolding q_def by (simp add: less_mult_imp_div_less)
  qed
  have v1B: "v1 < DBASE" "v2 < DBASE" "u2 < DBASE" "u0 < DBASE" "u1 < DBASE" using d by simp_all
  have t: "q \<le> ?t \<and> ?t < DBASE \<and> (v1 * DBASE + v2) * ?t \<le> ?N * DBASE + u2"
  proof (cases "u0 = v1")
    case True
    have N: "(DBASE - 1) * v1 + (u1 + v1) = ?N"
      using True by (cases DBASE) (simp_all add: algebra_simps)
    show ?thesis
    proof (cases "DBASE \<le> u1 + v1")
      case ge: True
      have "v2 * (DBASE - 1) \<le> DBASE * DBASE" using v1B by (intro mult_mono) simp_all
      also have "\<dots> \<le> (u1 + v1) * DBASE" using ge by simp
      finally have "(v1 * DBASE + v2) * (DBASE - 1) \<le> ?N * DBASE + u2"
        unfolding N [symmetric] by (simp add: algebra_simps)
      then show ?thesis using True ge qB by (simp add: trial_def)
    next
      case False
      let ?r = "qhat_loop v1 v2 u2 (DBASE - 1) (u1 + v1)"
      have "q \<le> ?r \<and> ?r \<le> DBASE - 1 \<and> (v1 * DBASE + v2) * ?r \<le> ?N * DBASE + u2"
        by (rule qhat_loop_ok [OF v1B(2,3) big]) (use N False qB in simp_all)
      moreover have "?t = ?r" using True False by (simp add: trial_def)
      moreover have "DBASE - 1 < DBASE" by simp
      ultimately show ?thesis by (metis le_less_trans)
    qed
  next
    case False
    have le: "u0 < v1"
    proof (rule ccontr)
      assume "\<not> u0 < v1"
      with False have "v1 + 1 \<le> u0" by simp
      then have "(v1 + 1) * DBASE * DBASE * ?K \<le> ?W" unfolding W'
        using mult_right_mono [of "v1 + 1" u0 "DBASE * DBASE * ?K"] by (simp add: algebra_simps)
      moreover have "?V \<le> (v1 + 1) * DBASE * ?K" using dval_less [of "v2 # vs"] d(1) by (simp add: algebra_simps)
      ultimately show False using W mult_right_mono [of ?V "(v1 + 1) * DBASE * ?K" DBASE] by (simp add: algebra_simps)
    qed
    have nn: "COMBINE u0 u1 = ?N" using v1B by (simp add: COMBINE_eq)
    have "?N < v1 * DBASE" using mult_right_mono [of "u0 + 1" v1 DBASE] le v1B by (simp add: algebra_simps)
    then have qh: "?N div v1 < DBASE" by (simp add: less_mult_imp_div_less mult.commute)
    have "q \<le> ?N div v1"
    proof -
      have "?N + 1 \<le> v1 * (?N div v1 + 1)" using dividend_less_times_div [OF d(4), of ?N] by simp
      then have "(?N + 1) * DBASE \<le> v1 * (?N div v1 + 1) * DBASE" by (rule mult_right_mono) simp
      then have "?N * DBASE + u2 < (v1 * DBASE + v2) * (?N div v1 + 1)"
        using v1B(3) by (simp add: algebra_simps)
      from big [OF this] show ?thesis by simp
    qed
    let ?r = "qhat_loop v1 v2 u2 (?N div v1) (?N mod v1)"
    have "?N mod v1 < DBASE" using mod_less_divisor [OF d(4), of ?N] v1B(1) by linarith
    then have "q \<le> ?r \<and> ?r \<le> ?N div v1 \<and> (v1 * DBASE + v2) * ?r \<le> ?N * DBASE + u2"
      by (intro qhat_loop_ok [OF v1B(2,3) big]) (use qh \<open>q \<le> ?N div v1\<close> in simp_all)
    moreover have "?t = ?r" using False nn by (simp add: trial_def Let_def)
    ultimately show ?thesis using qh by (metis le_less_trans)
  qed
  have "?t * ?V = (v1 * DBASE + v2) * ?t * ?K + ?t * dval vs" unfolding V by (simp add: algebra_simps)
  also have "\<dots> \<le> (?N * DBASE + u2) * ?K + DBASE * ?K"
    using t vs by (intro add_mono mult_mono) simp_all
  also have "\<dots> \<le> ?W + ?V"
  proof -
    have "1 * (DBASE * ?K) \<le> v1 * (DBASE * ?K)" using d(4) by (intro mult_right_mono) simp_all
    then show ?thesis unfolding W' V distrib_right by linarith
  qed
  also have "\<dots> < (q + 1) * ?V + ?V"
    unfolding q_def using dividend_less_times_div [OF Vpos, of ?W] by (simp add: mult.commute)
  finally have "?t * ?V < (q + 2) * ?V" by (simp add: algebra_simps del: dval.simps)
  then have "?t < q + 2" by (rule mult_right_less_imp_less) simp
  then show ?thesis using t by simp
qed

subsection \<open>One digit of the quotient\<close>

lemma div_step_ok:
  assumes d: "digits vs" "digits us" "length us = length vs + 1" "2 \<le> length vs" "0 < hd vs"
    and W: "dval us < dval vs * DBASE" and eq: "div_step vs us = (q, w)"
  shows "q = dval us div dval vs \<and> hd w = 0 \<and> length w = length us \<and> digits w \<and> dval (tl w) = dval us mod dval vs"
proof -
  obtain v1 v2 vs' where vs: "vs = v1 # v2 # vs'" using d(4) by (cases vs; cases "tl vs") auto
  obtain u0 u1 u2 us' where us: "us = u0 # u1 # u2 # us'"
    using d(3,4) by (cases us; cases "tl us"; cases "tl (tl us)") (auto simp: Suc_le_eq)
  define Q where "Q = dval us div dval vs"
  define R where "R = dval us mod dval vs"
  let ?n = "length vs" and ?V = "dval vs"
  have Vpos: "0 < ?V" using d(5) by (simp add: vs)
  have QR: "dval us = Q * ?V + R" and R: "R < ?V" using Vpos by (simp_all add: Q_def R_def)
  have VK: "?V < DBASE ^ ?n" by (rule dval_less) (rule d(1))
  define qhat where "qhat = trial v1 v2 u0 u1 u2"
  have t: "Q \<le> qhat" "qhat \<le> Q + 1" "qhat < DBASE"
    unfolding qhat_def Q_def vs us using trial_ok [of v1 v2 vs' u0 u1 u2 us'] d W by (simp_all add: vs us)
  obtain b w1 where ms: "mulsub qhat (tl us) vs = (b, w1)" by (cases "mulsub qhat (tl us) vs")
  have lt: "length (tl us) = ?n" using d(3) by simp
  have "digits (tl us)" using d(2) by (simp add: us)
  note B0 = mulsub_ok [OF this d(1) lt t(3) ms, unfolded lt]
  have B: "b < DBASE" "length w1 = ?n" "digits w1"
    "dval w1 + qhat * ?V = dval (tl us) + b * DBASE ^ ?n"
    using B0 by blast+
  have dus: "dval us = u0 * DBASE ^ ?n + dval (tl us)" using lt by (simp add: us)
  have w1: "dval w1 < DBASE ^ ?n" using dval_less [OF B(3)] B(2) by simp
  let ?t = "nat ((int u0 - int b) mod 2 ^ 32)"
  have step: "div_step vs us = (if HHALF ?t \<noteq> 0
         then let (c, us'') = addback w1 vs in (LHALF (qhat - 1), LHALF (LHALF ?t + c) # us'')
         else (LHALF qhat, LHALF ?t # w1))"
    unfolding div_step_def using ms by (simp add: qhat_def vs us Let_def)
  consider "qhat = Q" | "qhat = Q + 1" using t by linarith
  then show ?thesis
  proof cases
    case 1
    have e: "dval w1 + b * 0 + u0 * DBASE ^ ?n = R + b * DBASE ^ ?n" using B(4) QR dus 1 by simp
    have "u0 = b"
    proof (rule ccontr)
      assume "u0 \<noteq> b"
      then consider "b + 1 \<le> u0" | "u0 + 1 \<le> b" by linarith
      then show False
      proof cases
        case 1
        then have "(b + 1) * DBASE ^ ?n \<le> u0 * DBASE ^ ?n" by (rule mult_right_mono) simp
        then show ?thesis using e R VK by simp
      next
        case 2
        then have "(u0 + 1) * DBASE ^ ?n \<le> b * DBASE ^ ?n" by (rule mult_right_mono) simp
        then show ?thesis using e w1 by simp
      qed
    qed
    then have "?t = 0" "dval w1 = R" using e by simp_all
    then show ?thesis using eq step t(3) B(2,3) d(3) 1
      by (auto simp: halves R_def [symmetric] Q_def [symmetric])
  next
    case 2
    have e: "dval w1 + ?V + u0 * DBASE ^ ?n = R + b * DBASE ^ ?n"
      using B(4) QR dus 2 by (simp add: algebra_simps)
    have "b = u0 + 1"
    proof (rule ccontr)
      assume "b \<noteq> u0 + 1"
      then consider "b \<le> u0" | "u0 + 2 \<le> b" by linarith
      then show False
      proof cases
        case 1
        then have "b * DBASE ^ ?n \<le> u0 * DBASE ^ ?n" by (rule mult_right_mono) simp
        then show ?thesis using e R by linarith
      next
        case 2
        then have "(u0 + 2) * DBASE ^ ?n \<le> b * DBASE ^ ?n" by (rule mult_right_mono) simp
        then show ?thesis using e w1 VK by simp
      qed
    qed
    then have m1: "?t = 2 ^ 32 - 1" and e': "dval w1 + ?V = R + DBASE ^ ?n" using e by simp_all
    obtain c w2 where ab: "addback w1 vs = (c, w2)" by (cases "addback w1 vs")
    have C: "c \<le> 1" "length w2 = ?n" "digits w2" "dval w2 + c * DBASE ^ ?n = dval w1 + ?V"
      using addback_ok [OF B(3) d(1) B(2) ab] B(2) by auto
    have "dval w2 < DBASE ^ ?n" using dval_less [OF C(3)] C(2) by simp
    then have "c = 1" using C(1,4) e' by (cases c) auto
    then show ?thesis using eq step m1 C ab e' t(3) d(3) 2
      by (auto simp: halves DBASE_eq R_def [symmetric] Q_def [symmetric])
  qed
qed

subsection \<open>All digits\<close>

lemma div_loop_ok:
  assumes v: "digits vs" "2 \<le> length vs" "0 < hd vs"
    and "digits us" "length us = length vs + k" "dval (take (length vs) us) < dval vs"
    and "div_loop k vs us = (qs, us')"
  shows "length qs = k \<and> digits qs \<and> (\<exists>r. us' = replicate k 0 @ r \<and> length r = length vs \<and> digits r \<and>
     dval us = dval qs * dval vs + dval r \<and> dval r < dval vs)"
  using assms(4-)
proof (induction k arbitrary: us qs us')
  case (Suc k)
  let ?n = "length vs" and ?V = "dval vs"
  let ?A = "take (?n + 1) us" and ?B = "drop (?n + 1) us"
  have A: "?A = take ?n us @ [us ! ?n]" using Suc.prems(2) by (simp add: take_Suc_conv_app_nth)
  have un: "us ! ?n < DBASE" using Suc.prems(1,2) by simp
  have dA: "digits ?A" "length ?A = ?n + 1" using Suc.prems(1,2) by (auto dest: in_set_takeD)
  have "(dval (take ?n us) + 1) * DBASE \<le> ?V * DBASE" using Suc.prems(3) by (intro mult_right_mono) simp_all
  then have W: "dval ?A < ?V * DBASE" unfolding A using un by (simp add: dval_append algebra_simps)
  obtain q w where st: "div_step vs ?A = (q, w)" by (cases "div_step vs ?A")
  note S = div_step_ok [OF v(1) dA v(2,3) W st]
  have Vpos: "0 < ?V" using Suc.prems(3) by simp
  have w: "w = 0 # tl w" "length (tl w) = ?n" "digits (tl w)" "dval (tl w) < ?V" "dval ?A = q * ?V + dval (tl w)"
    using S dA(2) Vpos by (cases w; simp)+
  have q: "q < DBASE" using S W by (simp add: less_mult_imp_div_less mult.commute)
  obtain qs1 us1 where lp: "div_loop k vs (tl w @ ?B) = (qs1, us1)" by (cases "div_loop k vs (tl w @ ?B)")
  have B: "digits ?B" "length ?B = k" using Suc.prems(1,2) by (auto dest: in_set_dropD)
  have dr: "digits (tl w @ ?B)" "length (tl w @ ?B) = ?n + k" "dval (take ?n (tl w @ ?B)) < ?V"
    using w B by auto
  from Suc.IH [OF dr lp] obtain r where r: "length qs1 = k" "digits qs1" "us1 = replicate k 0 @ r" "length r = ?n"
    "digits r" "dval (tl w @ ?B) = dval qs1 * ?V + dval r" "dval r < ?V" by blast
  have out: "qs = q # qs1" "us' = 0 # us1" using Suc.prems(4) st lp S by (auto simp: Let_def)
  have "dval us = dval (?A @ ?B)" by simp
  also have "\<dots> = q * ?V * DBASE ^ k + dval (tl w @ ?B)"
    unfolding dval_append w(5) B(2) by (simp add: distrib_right)
  also have "\<dots> = dval qs * ?V + dval r" unfolding r(6) out(1) by (simp add: r(1) algebra_simps)
  finally show ?case using out r q by auto
qed simp

lemma norm_v_ok:
  assumes "digits vs" "2 \<le> length vs" "dval vs \<noteq> 0"
  shows "case norm_v vs of Inl t \<Rightarrow> 0 < t \<and> t < DBASE \<and> t = dval vs
     | Inr ws \<Rightarrow> digits ws \<and> 2 \<le> length ws \<and> length ws \<le> length vs \<and> 0 < hd ws \<and> dval ws = dval vs"
  using assms
proof (induction vs rule: norm_v.induct)
  case (2 v1 vs)
  show ?case
  proof (cases "v1 = 0 \<and> length vs \<noteq> 1")
    case True
    then have "2 \<le> length vs" using 2(3) by simp
    then have "case norm_v vs of Inl t \<Rightarrow> 0 < t \<and> t < DBASE \<and> t = dval vs
      | Inr ws \<Rightarrow> digits ws \<and> 2 \<le> length ws \<and> length ws \<le> length vs \<and> 0 < hd ws \<and> dval ws = dval vs"
      using 2(2,4) True by (intro 2(1)) simp_all
    then show ?thesis using True by (cases "norm_v vs") simp_all
  next
    case False
    then show ?thesis using 2(2-4) by (cases "v1 = 0"; cases vs) simp_all
  qed
qed simp

lemma norm_u_ok:
  assumes "dval us \<noteq> 0"
  shows "\<exists>k ws. norm_u (0 # us) = 0 # ws \<and> us = replicate k 0 @ ws \<and> ws \<noteq> []"
  using assms
proof (induction us)
  case (Cons u us)
  show ?case
  proof (cases "u = 0")
    case True
    with Cons obtain k ws where "norm_u (0 # us) = 0 # ws" "us = replicate k 0 @ ws" "ws \<noteq> []" by auto
    with True have "norm_u (0 # u # us) = 0 # ws" "u # us = replicate (Suc k) 0 @ ws" by simp_all
    with \<open>ws \<noteq> []\<close> show ?thesis by blast
  next
    case False
    then have "norm_u (0 # u # us) = 0 # u # us" "u # us = replicate 0 0 @ u # us" by simp_all
    then show ?thesis by blast
  qed
qed simp

lemma unshift_ok:
  assumes r: "digits r" and d: "d \<le> HALF_BITS" and v: "dval r = x * 2 ^ d"
  shows "length (unshift d m (replicate (m + 1) 0 @ r)) = m + 1 + length r \<and>
     digits (unshift d m (replicate (m + 1) 0 @ r)) \<and> dval (unshift d m (replicate (m + 1) 0 @ r)) = x"
proof (cases "d = 0")
  case True
  then show ?thesis using r v by (auto simp: unshift_def)
next
  case False
  have z: "replicate (m + 1) (0 :: nat) = replicate m 0 @ [0]" by (simp add: replicate_append_same)
  have e: "unshift d m (replicate (m + 1) 0 @ r) = replicate (m + 1) 0 @ shr d 0 r"
    unfolding unshift_def z using False by (simp add: nth_append)
  have "digits (0 # r)" using r by simp
  from shr_ok [OF this d] obtain t where t: "length (shr d 0 r) = length r" "digits (shr d 0 r)"
    "t < 2 ^ d" "2 ^ d * dval (shr d 0 r) + t = 0 mod 2 ^ d * DBASE ^ length r + dval r" by blast
  then have tx: "2 ^ d * dval (shr d 0 r) + t = x * 2 ^ d" using v by simp
  have "dval (shr d 0 r) = (2 ^ d * dval (shr d 0 r) + t) div 2 ^ d" using t(3) by simp
  also have "\<dots> = x" unfolding tx by simp
  finally show ?thesis unfolding e dval_zeros using t(1,2) by auto
qed

subsection \<open>The whole routine\<close>

lemma split_digits_ok:
  assumes "x < 2 ^ 64"
  shows "digits (split_digits x) \<and> length (split_digits x) = 4 \<and> dval (split_digits x) = x"
proof -
  define h l where "h = x div 2 ^ 32" and "l = x mod 2 ^ 32"
  define h1 h0 l1 l0 where "h1 = h div DBASE" and "h0 = h mod DBASE" and "l1 = l div DBASE" and "l0 = l mod DBASE"
  have "h < 2 ^ 32" "l < 2 ^ 32" "x = h * 2 ^ 32 + l"
    using assms by (simp_all add: h_def l_def less_mult_imp_div_less)
  moreover have "h = h1 * DBASE + h0" "l = l1 * DBASE + l0" by (simp_all add: h1_def h0_def l1_def l0_def)
  ultimately have "x = dval [h1, h0, l1, l0]" by (simp add: DBASE_eq)
  moreover have "digits [h1, h0, l1, l0]"
    using \<open>h < 2 ^ 32\<close> \<open>l < 2 ^ 32\<close>
    by (simp add: h1_def h0_def l1_def l0_def DBASE_eq less_mult_imp_div_less)
  moreover have "split_digits x = [h1, h0, l1, l0]"
    by (simp add: split_digits_def halves h_def l_def h1_def h0_def l1_def l0_def)
  ultimately show ?thesis by simp
qed

lemma join_digits_ok:
  assumes "digits xs" "length xs = 5" "dval xs < 2 ^ 64"
  shows "join_digits xs = dval xs"
proof -
  obtain a b c e f where xs: "xs = [a, b, c, e, f]"
    using assms(2) by (auto simp: length_Suc_conv numeral_eq_Suc)
  have "a * 2 ^ 64 \<le> dval xs" by (simp add: xs DBASE_eq)
  then have "a = 0" using assms(3) by (cases a) simp_all
  then show ?thesis using assms(1) by (simp add: xs join_digits_def COMBINE_eq DBASE_eq)
qed

lemma join_digits_pad:
  assumes "digits xs" "k + length xs = 5" "dval xs \<le> u" "u < 2 ^ 64"
  shows "join_digits (replicate k 0 @ xs) = dval xs"
proof -
  have "digits (replicate k 0 @ xs)" using assms(1) by (auto simp: set_replicate_conv_if)
  then show ?thesis using join_digits_ok [of "replicate k 0 @ xs"] assms(2-) by (simp del: set_append)
qed

lemma short_step:
  fixes X :: nat
  assumes "X = q * t + r"
  shows "X * B + u = (q * B + (r * B + u) div t) * t + (r * B + u) mod t"
proof -
  define c where "c = r * B + u"
  have "(q * B + c div t) * t + c mod t = q * B * t + (c div t * t + c mod t)" by (simp only: distrib_right add.assoc)
  also have "\<dots> = (q * t + r) * B + u" unfolding div_mult_mod_eq by (simp add: c_def algebra_simps)
  finally show ?thesis unfolding assms c_def by simp
qed

lemma div_short_ok:
  assumes d: "digits [u1, u2, u3, u4]" and t: "0 < t" "t < DBASE"
  shows "div_short [0, u1, u2, u3, u4] t = (dval [u1, u2, u3, u4] div t, dval [u1, u2, u3, u4] mod t)"
proof -
  have st: "COMBINE (x mod t) u = (x mod t) * DBASE + u \<and> COMBINE (x mod t) u div t < DBASE" if "u < DBASE" for x u
  proof -
    have lt: "x mod t < t" using t by simp
    then have c: "COMBINE (x mod t) u = (x mod t) * DBASE + u" using t(2) that by (intro COMBINE_eq) linarith+
    have "(x mod t + 1) * DBASE \<le> t * DBASE" using lt by (intro mult_right_mono) simp_all
    then have "COMBINE (x mod t) u < t * DBASE" using c that by simp
    then show ?thesis using c by (simp add: less_mult_imp_div_less mult.commute)
  qed
  define r2 where "r2 = COMBINE (u1 mod t) u2"
  define r3 where "r3 = COMBINE (r2 mod t) u3"
  define r4 where "r4 = COMBINE (r3 mod t) u4"
  have q1: "u1 div t < DBASE" using d t by (simp add: div_less_mono le_less_trans [OF div_le_dividend])
  have ud: "u2 < DBASE" "u3 < DBASE" "u4 < DBASE" using d by simp_all
  have r: "r2 = (u1 mod t) * DBASE + u2" "r2 div t < DBASE" "r3 = (r2 mod t) * DBASE + u3" "r3 div t < DBASE"
    "r4 = (r3 mod t) * DBASE + u4" "r4 div t < DBASE"
    using st [OF ud(1), of u1] st [OF ud(2), of r2] st [OF ud(3), of r3]
    unfolding r2_def [symmetric] r3_def [symmetric] r4_def [symmetric] by blast+
  let ?Q = "((u1 div t * DBASE + r2 div t) * DBASE + r3 div t) * DBASE + r4 div t"
  have "dval [u1, u2, u3, u4] = ((u1 * DBASE + u2) * DBASE + u3) * DBASE + u4" by (simp add: algebra_simps)
  moreover have "u1 = u1 div t * t + u1 mod t" by simp
  from short_step [OF short_step [OF short_step [OF this]], of DBASE u2 DBASE u3 DBASE u4]
  have "((u1 * DBASE + u2) * DBASE + u3) * DBASE + u4 = ?Q * t + r4 mod t"
    unfolding r(5,3,1) .
  ultimately have D: "dval [u1, u2, u3, u4] = ?Q * t + r4 mod t" by simp
  have "div_short [0, u1, u2, u3, u4] t =
      (COMBINE (u1 div t) (r2 div t) * 2 ^ 32 + COMBINE (r3 div t) (r4 div t), r4 mod t)"
    using q1 r(2,4,6)
    by (simp add: div_short_def Let_def r2_def [symmetric] r3_def [symmetric] r4_def [symmetric] halves)
  also have "\<dots> = (?Q, r4 mod t)" using q1 r(2,4,6) by (simp add: COMBINE_eq) (simp add: DBASE_eq)
  finally have "div_short [0, u1, u2, u3, u4] t = (?Q, r4 mod t)" .
  then show ?thesis unfolding D using t by simp
qed

text \<open>Algorithm D on a dividend with a zero digit in front, after both numbers are shifted.\<close>

lemma div_core:
  assumes ws: "digits ws" and vs: "digits vs" "2 \<le> length vs" "0 < hd vs" and le: "dval vs \<le> dval ws"
  defines "d \<equiv> count_d (hd vs)" and "m \<equiv> length ws - length vs"
  assumes lp: "div_loop (m + 1) (if 0 < d then shl d vs else vs) (if 0 < d then shl d (0 # ws) else 0 # ws) = (qs, us)"
  shows "length vs \<le> length ws \<and> length qs = m + 1 \<and> digits qs \<and> dval qs = dval ws div dval vs \<and>
     length (unshift d m us) = length ws + 1 \<and> length us = length ws + 1 \<and> digits (unshift d m us) \<and>
     dval (unshift d m us) = dval ws mod dval vs"
proof -
  obtain v1 vt where v: "vs = v1 # vt" using vs(2) by (cases vs) simp_all
  let ?n = "length vs" and ?K = "DBASE ^ (length vs - 1)"
  have cd: "v1 * 2 ^ d < DBASE" "d < HALF_BITS"
    using count_d_ok [of v1] vs(1,3) by (simp_all add: d_def v)
  have VK: "?K \<le> dval vs" using vs(3) by (cases v1) (simp_all add: v)
  have "?K < DBASE ^ length ws" using VK le dval_less [OF ws] by linarith
  then have "?n - 1 < length ws" by (rule power_less_imp_less_exp [rotated]) (simp add: DBASE_eq)
  then have n: "?n \<le> length ws" "length ws = ?n + m" by (simp_all add: m_def)
  define V where "V = (if 0 < d then shl d vs else vs)"
  define U where "U = (if 0 < d then shl d (0 # ws) else 0 # ws)"
  have "v1 div 2 ^ (HALF_BITS - d) = 0"
  proof -
    have "v1 * 2 ^ d < 2 ^ (HALF_BITS - d) * 2 ^ d" using cd by (simp add: DBASE_def flip: power_add)
    then show ?thesis by simp
  qed
  then have V: "digits V" "length V = ?n" "dval V = dval vs * 2 ^ d"
    using shl_ok [of vs d] vs(1) cd(2) by (auto simp: V_def v)
  have U: "digits U" "length U = length ws + 1" "dval U = dval ws * 2 ^ d"
    using shl_ok [of "0 # ws" d] ws cd(2) by (auto simp: U_def)
  have hdV: "0 < hd V"
  proof (rule ccontr)
    assume "\<not> 0 < hd V"
    then obtain xs where "V = 0 # xs" using V(2) vs(2) by (cases V) auto
    then have "dval V < ?K" using dval_less [of xs] V(1) by (auto simp flip: V(2))
    moreover have "dval vs \<le> dval V" using V(3) by simp
    ultimately show False using VK by linarith
  qed
  have "dval (take ?n U) < dval V"
  proof -
    have ln: "length ws = (?n - 1) + (m + 1)" using n(2) vs(2) by simp
    have "dval U = dval (take ?n U) * DBASE ^ (m + 1) + dval (drop ?n U)"
      using dval_append [of "take ?n U" "drop ?n U"] U(2) n(2) by simp
    then have "dval (take ?n U) * DBASE ^ (m + 1) \<le> dval ws * 2 ^ d" using U(3) by linarith
    also have "\<dots> < DBASE ^ length ws * 2 ^ d" using dval_less [OF ws] by simp
    also have "\<dots> = ?K * 2 ^ d * DBASE ^ (m + 1)" unfolding ln by (simp only: power_add ac_simps)
    also have "\<dots> \<le> dval V * DBASE ^ (m + 1)" unfolding V(3) using VK by (intro mult_right_mono) simp_all
    finally show ?thesis by (rule mult_right_less_imp_less) simp
  qed
  moreover have "div_loop (m + 1) V U = (qs, us)" using lp by (simp add: V_def U_def)
  moreover have "length U = length V + (m + 1)" using U(2) V(2) n(2) by simp
  moreover have "2 \<le> length V" using V(2) vs(2) by simp
  ultimately obtain r where r: "length qs = m + 1" "digits qs" "us = replicate (m + 1) 0 @ r" "length r = ?n"
    "digits r" "dval U = dval qs * dval V + dval r" "dval r < dval V"
    using div_loop_ok [OF V(1) _ hdV U(1), of "m + 1" qs us] V(2) by (metis (no_types))
  have rd: "dval r = dval U mod dval V" and q: "dval qs = dval U div dval V" using r(6,7) by simp_all
  have "dval r = (dval ws mod dval vs) * 2 ^ d" unfolding rd U(3) V(3) by (simp add: mult_mod_left)
  from unshift_ok [OF r(5) _ this, of m] cd(2) have "length (unshift d m us) = m + 1 + length r \<and>
     digits (unshift d m us) \<and> dval (unshift d m us) = dval ws mod dval vs" unfolding r(3) by simp
  moreover have "dval qs = dval ws div dval vs" unfolding q U(3) V(3) by simp
  ultimately show ?thesis using r(1-4) n by simp
qed

lemma qdivrem_div:
  assumes "u < 2 ^ 64" "v < 2 ^ 64" "v \<noteq> 0"
  shows "qdivrem u v = Some (u div v, u mod v)"
proof (cases "u < v")
  case True
  then show ?thesis using assms(3) by (simp add: qdivrem_def)
next
  case ge: False
  note us = split_digits_ok [OF assms(1)] and vs = split_digits_ok [OF assms(2)]
  have nv: "case norm_v (split_digits v) of Inl t \<Rightarrow> 0 < t \<and> t < DBASE \<and> t = v
     | Inr ws \<Rightarrow> digits ws \<and> 2 \<le> length ws \<and> length ws \<le> 4 \<and> 0 < hd ws \<and> dval ws = v"
    using norm_v_ok [of "split_digits v"] vs assms(3) by (cases "norm_v (split_digits v)") simp_all
  show ?thesis
  proof (cases "norm_v (split_digits v)")
    case (Inl t)
    obtain u1 u2 u3 u4 where s: "split_digits u = [u1, u2, u3, u4]" by (simp add: split_digits_def)
    have "digits [u1, u2, u3, u4]" "dval [u1, u2, u3, u4] = u" using us unfolding s by blast+
    then show ?thesis using div_short_ok [of u1 u2 u3 u4 t] Inl nv ge assms(3) by (simp add: qdivrem_def s del: dval.simps)
  next
    case (Inr ws)
    have w: "digits ws" "2 \<le> length ws" "length ws \<le> 4" "0 < hd ws" "dval ws = v" using nv Inr by simp_all
    obtain k xs where x: "norm_u (0 # split_digits u) = 0 # xs" "split_digits u = replicate k 0 @ xs" "xs \<noteq> []"
      using norm_u_ok [of "split_digits u"] us ge assms(3) by auto
    have xd: "digits xs" "dval xs = u" "k + length xs = 4" using us unfolding x(2) by (auto simp: dval_zeros)
    let ?d = "count_d (hd ws)" and ?m = "length xs - length ws"
    obtain qs us' where lp: "div_loop (?m + 1) (if 0 < ?d then shl ?d ws else ws) (if 0 < ?d then shl ?d (0 # xs) else 0 # xs) = (qs, us')"
      by (cases "div_loop (?m + 1) (if 0 < ?d then shl ?d ws else ws) (if 0 < ?d then shl ?d (0 # xs) else 0 # xs)")
    have le: "dval ws \<le> dval xs" using w(5) xd(2) ge by simp
    have C: "length ws \<le> length xs" "length qs = ?m + 1" "digits qs" "dval qs = u div v"
      "length (unshift ?d ?m us') = length xs + 1" "length us' = length xs + 1" "digits (unshift ?d ?m us')"
      "dval (unshift ?d ?m us') = u mod v"
      using div_core [OF xd(1) w(1,2,4) le lp] unfolding w(5) xd(2) by blast+
    have "join_digits (replicate (4 - ?m) 0 @ qs) = u div v"
      using join_digits_pad [OF C(3) _ _ assms(1), of "4 - ?m"] C(1,2,4) xd(3) w(2) by simp
    moreover have tk: "take (4 - length xs) (0 # split_digits u) = replicate k 0"
    proof -
      have k: "4 - length xs = k" and z: "0 # replicate k (0 :: nat) @ xs = replicate k 0 @ 0 # xs"
        using xd(3) replicate_app_Cons_same [of k 0 xs] by simp_all
      show ?thesis unfolding x(2) k z by simp
    qed
    moreover have "join_digits (replicate k 0 @ unshift ?d ?m us') = u mod v"
      using join_digits_pad [OF C(7) _ _ assms(1), of k] C(5,8) xd(3) by simp
    ultimately show ?thesis
      using Inr x(1) lp C(6) ge assms(3) by (simp add: qdivrem_def Let_def del: div_loop.simps split del: if_split cong: if_cong)
  qed
qed

text \<open>
  C27. \<^verbatim>\<open>__qdivrem\<close> divides: for all 64-bit numbers with a nonzero divisor it returns the quotient and
  the remainder, whether it takes the short division, no normalisation, or the full algorithm with
  corrections of the trial digit.
\<close>

theorem qdivrem_divides:
  assumes "u < 2 ^ 64" "v < 2 ^ 64" "v \<noteq> 0"
  shows "qdivrem u v = Some (u div v, u mod v)"
  using assms by (rule qdivrem_div)

theorem qdivrem_divides_witness:
  "qdivrem 1000000000000000000 3000000000 = Some (333333333, 1000000000)"
  using qdivrem_divides [of 1000000000000000000 3000000000] by simp

end
