(* ===== verification/Millicode.thy ===== *)
theory Millicode
  imports Millicode_Div "HOL-Library.Word" "HOL-Library.Signed_Division"
begin

unbundle bit_operations_syntax

text \<open>
  64-bit arithmetic for the 32-bit machine (\<^verbatim>\<open>common/gcc-millicode\<close>): the compiler calls these routines
  for additions, shifts, comparisons, products and quotients of \<^verbatim>\<open>long long\<close>.  Each is shown to be the
  operation of the 64-bit words.

  The union \<^verbatim>\<open>uu\<close> reads a number as two words of 32 bits; \<open>ui_H\<close>, \<open>ui_L\<close> and \<open>uu\<close> are its
  two readings and the way back.
\<close>

section \<open>The two halves\<close>

definition ui_H :: "64 word \<Rightarrow> 32 word" where "ui_H a = ucast (drop_bit 32 a)"
definition ui_L :: "64 word \<Rightarrow> 32 word" where "ui_L a = ucast a"
definition uu :: "32 word \<Rightarrow> 32 word \<Rightarrow> 64 word" where "uu h l = push_bit 32 (ucast h) OR ucast l"

definition INT_BITS :: nat where "INT_BITS = 32"

definition hhalf :: "32 word \<Rightarrow> 32 word" where "hhalf x = drop_bit HALF_BITS x"
definition lhalf :: "32 word \<Rightarrow> 32 word" where "lhalf x = x AND (push_bit HALF_BITS 1 - 1)"
definition lhup :: "32 word \<Rightarrow> 32 word" where "lhup x = push_bit HALF_BITS x"

section \<open>The routines\<close>

definition adddi3 :: "64 word \<Rightarrow> 64 word \<Rightarrow> 64 word" where
  "adddi3 a b =
     (let l = ui_L a + ui_L b
      in uu (ui_H a + ui_H b + (if l < ui_L b then 1 else 0)) l)"

definition subdi3 :: "64 word \<Rightarrow> 64 word \<Rightarrow> 64 word" where
  "subdi3 a b =
     (let l = ui_L a - ui_L b
      in uu (ui_H a - ui_H b - (if ui_L a < l then 1 else 0)) l)"

definition negdi2 :: "64 word \<Rightarrow> 64 word" where
  "negdi2 a = (let l = - ui_L a in uu (- ui_H a - (if 0 < l then 1 else 0)) l)"

definition anddi3 :: "64 word \<Rightarrow> 64 word \<Rightarrow> 64 word" where
  "anddi3 a b = uu (ui_H a AND ui_H b) (ui_L a AND ui_L b)"

definition iordi3 :: "64 word \<Rightarrow> 64 word \<Rightarrow> 64 word" where
  "iordi3 a b = uu (ui_H a OR ui_H b) (ui_L a OR ui_L b)"

definition xordi3 :: "64 word \<Rightarrow> 64 word \<Rightarrow> 64 word" where
  "xordi3 a b = uu (ui_H a XOR ui_H b) (ui_L a XOR ui_L b)"

definition one_cmpldi2 :: "64 word \<Rightarrow> 64 word" where
  "one_cmpldi2 a = uu (NOT (ui_H a)) (NOT (ui_L a))"

definition ashldi3 :: "64 word \<Rightarrow> nat \<Rightarrow> 64 word" where
  "ashldi3 a shift =
     (if shift = 0 then a
      else if INT_BITS \<le> shift then uu (push_bit (shift - INT_BITS) (ui_L a)) 0
      else uu (push_bit shift (ui_H a) OR drop_bit (INT_BITS - shift) (ui_L a)) (push_bit shift (ui_L a)))"

definition lshldi3 :: "64 word \<Rightarrow> nat \<Rightarrow> 64 word" where
  "lshldi3 a shift =
     (if shift = 0 then a
      else if INT_BITS \<le> shift then uu (push_bit (shift - INT_BITS) (ui_L a)) 0
      else uu (push_bit shift (ui_H a) OR drop_bit (INT_BITS - shift) (ui_L a)) (push_bit shift (ui_L a)))"

definition lshrdi3 :: "64 word \<Rightarrow> nat \<Rightarrow> 64 word" where
  "lshrdi3 a shift =
     (if shift = 0 then a
      else if INT_BITS \<le> shift then uu 0 (drop_bit (shift - INT_BITS) (ui_H a))
      else uu (drop_bit shift (ui_H a)) (drop_bit shift (ui_L a) OR push_bit (INT_BITS - shift) (ui_H a)))"

definition ashrdi3 :: "64 word \<Rightarrow> nat \<Rightarrow> 64 word" where
  "ashrdi3 a shift =
     (if shift = 0 then a
      else if INT_BITS \<le> shift
      then let s = signed_drop_bit 1 (signed_drop_bit (INT_BITS - 1) (ui_H a))
           in uu s (signed_drop_bit (shift - INT_BITS) (ui_H a))
      else uu (signed_drop_bit shift (ui_H a)) (drop_bit shift (ui_L a) OR push_bit (INT_BITS - shift) (ui_H a)))"

definition cmpdi2 :: "64 word \<Rightarrow> 64 word \<Rightarrow> int" where
  "cmpdi2 a b =
     (if sint (ui_H a) < sint (ui_H b) then 0 else if sint (ui_H b) < sint (ui_H a) then 2
      else if ui_L a < ui_L b then 0 else if ui_L b < ui_L a then 2 else 1)"

definition ucmpdi2 :: "64 word \<Rightarrow> 64 word \<Rightarrow> int" where
  "ucmpdi2 a b =
     (if ui_H a < ui_H b then 0 else if ui_H b < ui_H a then 2
      else if ui_L a < ui_L b then 0 else if ui_L b < ui_L a then 2 else 1)"

text \<open>The product of two words of 32 bits, from four products of 16 bits.\<close>

definition lmulq :: "32 word \<Rightarrow> 32 word \<Rightarrow> 64 word" where
  "lmulq u v =
     (let u1 = hhalf u; u0 = lhalf u; v1 = hhalf v; v0 = lhalf v; low = u0 * v0
      in if u1 = 0 \<and> v1 = 0 then ucast low
         else
           let (udiff, neg) = (if u0 \<le> u1 then (u1 - u0, False) else (u0 - u1, True));
               (vdiff, neg) = (if v1 \<le> v0 then (v0 - v1, neg) else (v1 - v0, \<not> neg));
               mid = udiff * vdiff;
               high = u1 * v1;
               prodh = high + hhalf high;
               prodl = lhup high;
               was = prodl;
               (prodl, prodh) =
                 (if neg
                  then let prodl = prodl - lhup mid
                       in (prodl, prodh - (hhalf mid + (if was < prodl then 1 else 0)))
                  else let prodl = prodl + lhup mid
                       in (prodl, prodh + (hhalf mid + (if prodl < was then 1 else 0))));
               was = prodl;
               prodl = prodl + lhup low;
               prodh = prodh + (hhalf low + (if prodl < was then 1 else 0));
               prodl = prodl + low;
               prodh = (if prodl < low then prodh + 1 else prodh)
           in uu prodh prodl)"

text \<open>The product of the absolute values, in \<^verbatim>\<open>__muldi3\<close>, and the product with its sign.\<close>

definition muldi3_abs :: "64 word \<Rightarrow> 64 word \<Rightarrow> 64 word" where
  "muldi3_abs u v =
     (let u1 = ui_H u; u0 = ui_L u; v1 = ui_H v; v0 = ui_L v
      in if u1 = 0 \<and> v1 = 0 then lmulq u0 v0
         else
           let low = lmulq u0 v0;
               (udiff, negmid) = (if u0 \<le> u1 then (u1 - u0, False) else (u0 - u1, True));
               (vdiff, negmid) = (if v1 \<le> v0 then (v0 - v1, negmid) else (v1 - v0, \<not> negmid));
               mid = udiff * vdiff;
               high = u1 * v1
           in uu (high + (if negmid then - mid else mid) + ui_L low + ui_H low) (ui_L low))"

definition muldi3 :: "64 word \<Rightarrow> 64 word \<Rightarrow> 64 word" where
  "muldi3 a b =
     (let (u, negall) = (if 0 \<le> sint a then (a, False) else (- a, True));
          (v, negall) = (if 0 \<le> sint b then (b, negall) else (- b, \<not> negall));
          prod = muldi3_abs u v
      in if negall then - prod else prod)"

text \<open>Division, over \<^verbatim>\<open>__qdivrem\<close>; a division by zero does not return.\<close>

definition udivdi3 :: "64 word \<Rightarrow> 64 word \<Rightarrow> 64 word option" where
  "udivdi3 a b = map_option (\<lambda>(q, r). word_of_nat q) (qdivrem (unat a) (unat b))"

definition umoddi3 :: "64 word \<Rightarrow> 64 word \<Rightarrow> 64 word option" where
  "umoddi3 a b = map_option (\<lambda>(q, r). word_of_nat r) (qdivrem (unat a) (unat b))"

definition divdi3 :: "64 word \<Rightarrow> 64 word \<Rightarrow> 64 word option" where
  "divdi3 a b =
     (let ua = a; ub = b; neg = False;
          (ua, neg) = (if sint a < 0 then (- ua, \<not> neg) else (ua, neg));
          (ub, neg) = (if sint b < 0 then (- ub, \<not> neg) else (ub, neg))
      in map_option (\<lambda>(q, r). let uq = word_of_nat q in if neg then - uq else uq) (qdivrem (unat ua) (unat ub)))"

definition moddi3 :: "64 word \<Rightarrow> 64 word \<Rightarrow> 64 word option" where
  "moddi3 a b =
     (let ua = a; ub = b; neg = False;
          (ua, neg) = (if sint a < 0 then (- ua, \<not> neg) else (ua, neg));
          ub = (if sint b < 0 then - ub else ub)
      in map_option (\<lambda>(q, r). let ur = word_of_nat r in if neg then - ur else ur) (qdivrem (unat ua) (unat ub)))"

section \<open>Bits of the halves\<close>

lemma bit_uu: "bit (uu h l) n \<longleftrightarrow> (if n < 32 then bit l n else n < 64 \<and> bit h (n - 32))"
  by (auto simp: uu_def bit_simps dest: bit_imp_le_length)

lemma bit_ui_H: "bit (ui_H a) n \<longleftrightarrow> n < 32 \<and> bit a (n + 32)"
  by (auto simp: ui_H_def bit_simps ac_simps)

lemma bit_ui_L: "bit (ui_L a) n \<longleftrightarrow> n < 32 \<and> bit a n"
  by (auto simp: ui_L_def bit_simps)

lemmas bit_halves = bit_uu bit_ui_H bit_ui_L

lemma uu_halves [simp]: "uu (ui_H a) (ui_L a) = a"
  by (rule bit_word_eqI) (auto simp: bit_halves)

lemma ui_uu [simp]: "ui_H (uu h l) = h" "ui_L (uu h l) = l"
  by (rule bit_word_eqI; simp add: bit_halves)+

lemma bitwise_ok: "anddi3 a b = a AND b" "iordi3 a b = a OR b" "xordi3 a b = a XOR b" "one_cmpldi2 a = NOT a"
  by (rule bit_word_eqI; auto simp: anddi3_def iordi3_def xordi3_def one_cmpldi2_def bit_simps bit_halves)+

lemma shift_left_ok: "shift < 64 \<Longrightarrow> ashldi3 a shift = push_bit shift a" "lshldi3 a shift = ashldi3 a shift"
  by (rule bit_word_eqI; auto simp: ashldi3_def lshldi3_def INT_BITS_def bit_simps bit_halves)+

lemma lshrdi3_ok: "shift < 64 \<Longrightarrow> lshrdi3 a shift = drop_bit shift a"
  by (rule bit_word_eqI)
    (auto simp: lshrdi3_def INT_BITS_def bit_simps bit_halves ac_simps dest: bit_imp_le_length)

lemma bit_signed_drop_gen:
  "bit (signed_drop_bit m w) n \<longleftrightarrow>
     n < LENGTH('a) \<and> bit w (if LENGTH('a) - m \<le> n then LENGTH('a) - 1 else n + m)"
  for w :: "'a::len word"
  by (auto simp: bit_signed_drop_bit_iff add.commute dest: bit_imp_le_length)

lemma bit_signed_drop:
  "bit (signed_drop_bit m w) n \<longleftrightarrow> n < 32 \<and> bit w (if 32 - m \<le> n then 31 else n + m)"
  "bit (signed_drop_bit m x) n \<longleftrightarrow> n < 64 \<and> bit x (if 64 - m \<le> n then 63 else n + m)"
  for w :: "32 word" and x :: "64 word"
  using bit_signed_drop_gen [of m w n] bit_signed_drop_gen [of m x n] by simp_all

lemma ashrdi3_ok: "ashrdi3 a shift = signed_drop_bit shift a" if "shift < 64"
proof (rule bit_word_eqI)
  fix n :: nat
  assume "n < LENGTH(64)"
  then have n: "n < 64" by simp
  consider "shift = 0" | "0 < shift" "shift < 32" | "32 \<le> shift" by linarith
  then show "bit (ashrdi3 a shift) n = bit (signed_drop_bit shift a) n"
  proof cases
    case 2
    then show ?thesis using n that
      by (auto simp: ashrdi3_def INT_BITS_def bit_signed_drop bit_halves bit_or_iff bit_push_bit_iff bit_drop_bit_eq ac_simps)
  next
    case 3
    then show ?thesis using n that
      by (auto simp: ashrdi3_def INT_BITS_def bit_signed_drop bit_halves Let_def ac_simps)
  qed (simp add: ashrdi3_def)
qed

text \<open>
  C30. The bitwise operations and the shifts on two words of 32 bits are those on 64 bits, for every
  shift the language defines; the arithmetic shift to the right copies the sign.
\<close>

theorem millicode_bits:
  assumes "shift < 64"
  shows "anddi3 a b = a AND b \<and> iordi3 a b = a OR b \<and> xordi3 a b = a XOR b \<and> one_cmpldi2 a = NOT a \<and>
    ashldi3 a shift = push_bit shift a \<and> lshldi3 a shift = push_bit shift a \<and>
    lshrdi3 a shift = drop_bit shift a \<and> ashrdi3 a shift = signed_drop_bit shift a"
  using assms by (simp add: bitwise_ok shift_left_ok lshrdi3_ok ashrdi3_ok)

theorem millicode_bits_witness:
  "ashrdi3 (- 5000000000) 33 = - 1 \<and> lshrdi3 (push_bit 63 1) 40 = push_bit 23 1"
  using millicode_bits [of 33 "- 5000000000" 0] millicode_bits [of 40 "push_bit 63 1" 0] by simp

section \<open>Arithmetic\<close>

text \<open>
  In the ring of the 64-bit words a pair of halves is \<open>2\<^sup>3\<^sup>2 h + l\<close>.  Only the carries out of the low
  half have to be accounted for.
\<close>

definition B32 :: "64 word" where "B32 = 4294967296"
definition lw :: "32 word \<Rightarrow> 64 word" where "lw x = ucast x"
definition hw :: "32 word \<Rightarrow> 64 word" where "hw x = B32 * lw x"

lemma uu_eq: "uu h l = hw h + lw l"
proof -
  have "push_bit 32 (ucast h) AND (ucast l :: 64 word) = 0"
    by (rule bit_word_eqI) (auto simp: bit_simps dest: bit_imp_le_length)
  then have "push_bit 32 (ucast h) + ucast l = push_bit 32 (ucast h) OR (ucast l :: 64 word)"
    by (rule disjunctive_add_eq_or)
  then show ?thesis by (simp add: uu_def push_bit_eq_mult mult.commute hw_def lw_def B32_def)
qed

lemma halves_eq: "hw (ui_H a) + lw (ui_L a) = a"
  using uu_eq [of "ui_H a" "ui_L a"] by simp

lemma BB: "B32 * B32 = 0" "B32 * (B32 * x) = 0"
proof -
  show b: "B32 * B32 = 0" by (simp add: B32_def)
  have "B32 * (B32 * x) = B32 * B32 * x" by (simp only: mult.assoc)
  then show "B32 * (B32 * x) = 0" unfolding b by simp
qed

lemma hw_hw [simp]: "hw x * hw y = 0" "B32 * hw x = 0"
proof -
  have "hw x * hw y = B32 * B32 * (lw x * lw y)" unfolding hw_def by (simp only: ac_simps)
  then show "hw x * hw y = 0" unfolding BB by simp
  have "B32 * hw x = B32 * B32 * lw x" unfolding hw_def by (simp only: ac_simps)
  then show "B32 * hw x = 0" unfolding BB by simp
qed

lemma unat32: "unat x < 2 ^ 32" for x :: "32 word"
  by (rule order.strict_trans2 [OF unsigned_less]) simp

lemma lw_of_nat: "lw x = of_nat (unat x)"
  by (simp add: lw_def unsigned_ucast_eq)

text \<open>The high half is only used modulo \<open>2\<^sup>3\<^sup>2\<close>: there the arithmetic of the halves is exact.\<close>

lemma hw_mod: "B32 * of_nat (n mod 2 ^ 32) = B32 * of_nat n"
proof -
  have "(of_nat n :: 64 word) = of_nat (2 ^ 32 * (n div 2 ^ 32) + n mod 2 ^ 32)" by simp
  also have "\<dots> = B32 * of_nat (n div 2 ^ 32) + of_nat (n mod 2 ^ 32)"
    unfolding of_nat_add of_nat_mult by (simp add: B32_def)
  finally have "B32 * of_nat n = B32 * B32 * of_nat (n div 2 ^ 32) + B32 * of_nat (n mod 2 ^ 32)"
    by (simp only: distrib_left mult.assoc)
  then show ?thesis by (simp add: BB)
qed

lemma hw_hom [simp]:
  "hw (x + y) = hw x + hw y" "hw (x * y) = hw x * lw y" "hw (x - y) = hw x - hw y" "hw (- x) = - hw x"
  "hw 0 = 0" "hw 1 = B32" "lw 0 = 0"
proof -
  show z: "hw 0 = 0" "hw 1 = B32" "lw 0 = 0" by (simp_all add: hw_def lw_def)
  show add: "hw (x + y) = hw x + hw y" for x y
    using hw_mod [of "unat x + unat y"] by (simp add: hw_def lw_of_nat unat_word_ariths distrib_left)
  show "hw (x * y) = hw x * lw y"
    using hw_mod [of "unat x * unat y"] by (simp add: hw_def lw_of_nat unat_word_ariths mult.assoc)
  show sub: "hw (x - y) = hw x - hw y" for x y using add [of "x - y" y] by simp
  show "hw (- x) = - hw x" using sub [of 0 x] z(1) by simp
qed

lemma lw_add: "lw (x + y) = lw x + lw y - (if x + y < y then B32 else 0)"
proof (cases "unat x + unat y < 2 ^ 32")
  case True
  then have "unat (x + y) = unat x + unat y" by (simp add: unat_word_ariths)
  then show ?thesis by (simp add: lw_of_nat word_less_nat_alt)
next
  case False
  note x = unat32 [of x] unat32 [of y]
  have "(unat x + unat y) mod 2 ^ 32 = unat x + unat y - 2 ^ 32"
    using False x by (subst le_mod_geq) (simp_all add: mod_less)
  then have u: "unat (x + y) + 2 ^ 32 = unat x + unat y" using False by (simp add: unat_word_ariths)
  have "of_nat (unat (x + y) + 2 ^ 32) = (of_nat (unat x + unat y) :: 64 word)" unfolding u ..
  then have "lw (x + y) + B32 = lw x + lw y" by (simp add: lw_of_nat B32_def)
  moreover have "x + y < y" using u x(1) unfolding word_less_nat_alt by linarith
  ultimately show ?thesis by (simp add: eq_diff_eq)
qed

lemma lw_sub: "lw (x - y) = lw x - lw y + (if x < x - y then B32 else 0)"
proof -
  have "x < x - y \<longleftrightarrow> x < y"
    using unat_sub_if' [of x y] unat32 [of x] unat32 [of y]
    by (auto simp: word_less_nat_alt word_le_nat_alt split: if_splits)
  then show ?thesis using lw_add [of "x - y" y] by (simp add: eq_diff_eq diff_add_eq split: if_splits)
qed

lemma adddi3_ok: "adddi3 a b = a + b"
proof -
  have "adddi3 a b = (hw (ui_H a) + lw (ui_L a)) + (hw (ui_H b) + lw (ui_L b))"
    by (simp add: adddi3_def Let_def uu_eq lw_add algebra_simps)
  then show ?thesis unfolding halves_eq .
qed

lemma subdi3_ok: "subdi3 a b = a - b"
proof -
  have "subdi3 a b = (hw (ui_H a) + lw (ui_L a)) - (hw (ui_H b) + lw (ui_L b))"
    by (simp add: subdi3_def Let_def uu_eq lw_sub algebra_simps)
  then show ?thesis unfolding halves_eq .
qed

lemma negdi2_ok: "negdi2 a = - a"
proof -
  have "negdi2 a = subdi3 0 a" by (simp add: negdi2_def subdi3_def ui_H_def ui_L_def Let_def)
  then show ?thesis by (simp add: subdi3_ok)
qed

subsection \<open>Products\<close>

lemma half_parts: "lw u = 2 ^ 16 * lw (hhalf u) + lw (lhalf u)" "unat (hhalf u) < 2 ^ 16" "unat (lhalf u) < 2 ^ 16"
proof -
  have h: "unat (hhalf u) = unat u div 2 ^ 16"
    by (simp add: hhalf_def HALF_BITS_def drop_bit_eq_div unat_div)
  have "lhalf u = take_bit 16 u" by (simp add: lhalf_def HALF_BITS_def take_bit_eq_mask mask_numeral)
  then have l: "unat (lhalf u) = unat u mod 2 ^ 16"
    by (simp add: take_bit_eq_mod unat_mod)
  have "of_nat (unat u) = (of_nat (2 ^ 16 * (unat u div 2 ^ 16) + unat u mod 2 ^ 16) :: 64 word)" by simp
  then show "lw u = 2 ^ 16 * lw (hhalf u) + lw (lhalf u)"
    unfolding lw_of_nat h l of_nat_add of_nat_mult by simp
  show "unat (hhalf u) < 2 ^ 16" "unat (lhalf u) < 2 ^ 16"
    unfolding h l using unat32 [of u] by (simp_all add: less_mult_imp_div_less)
qed

text \<open>A shift to the left by half a word, split into the halves of the result.\<close>

lemma shift_half: "hw (hhalf x) + lw (lhup x) = 2 ^ 16 * lw x"
proof -
  have "uu (hhalf x) (lhup x) = push_bit 16 (ucast x)"
    by (rule bit_word_eqI)
      (auto simp: bit_uu hhalf_def lhup_def HALF_BITS_def bit_simps ac_simps dest: bit_imp_le_length)
  then show ?thesis by (simp add: uu_eq lw_def push_bit_eq_mult mult.commute)
qed

lemma lw_mult:
  assumes "unat x < 2 ^ 16" "unat y < 2 ^ 16"
  shows "lw (x * y) = lw x * lw y"
proof -
  have "unat x * unat y \<le> (2 ^ 16 - 1) * (2 ^ 16 - 1)" using assms by (intro mult_mono) simp_all
  then have "unat (x * y) = unat x * unat y" by (simp add: unat_word_ariths)
  then show ?thesis by (simp add: lw_of_nat)
qed

lemma lw_diff: "y \<le> x \<Longrightarrow> lw (x - y) = lw x - lw y \<and> unat (x - y) \<le> unat x"
  by (simp add: lw_of_nat unat_sub word_le_nat_alt of_nat_diff)

lemma lmulq_ok: "lmulq u v = lw u * lw v"
proof -
  define u1 u0 v1 v0 where d: "u1 = hhalf u" "u0 = lhalf u" "v1 = hhalf v" "v0 = lhalf v"
  have uv: "lw u = 2 ^ 16 * lw u1 + lw u0" "lw v = 2 ^ 16 * lw v1 + lw v0"
    and b: "unat u1 < 2 ^ 16" "unat u0 < 2 ^ 16" "unat v1 < 2 ^ 16" "unat v0 < 2 ^ 16"
    unfolding d by (rule half_parts)+
  define low high where lh: "low = u0 * v0" "high = u1 * v1"
  have p: "lw low = lw u0 * lw v0" "lw high = lw u1 * lw v1"
    unfolding lh by (rule lw_mult; rule b)+
  have B: "(2 ^ 16 * 2 ^ 16 :: 64 word) = B32" by (simp add: B32_def)
  show ?thesis
  proof (cases "u1 = 0 \<and> v1 = 0")
    case True
    then show ?thesis using uv p(1) by (simp add: lmulq_def d [symmetric] lh [symmetric] lw_def)
  next
    case False
    define ud un where udn: "ud = (if u0 \<le> u1 then u1 - u0 else u0 - u1)" "un \<longleftrightarrow> \<not> u0 \<le> u1"
    define vd vn where vdn: "vd = (if v1 \<le> v0 then v0 - v1 else v1 - v0)" "vn \<longleftrightarrow> (if v1 \<le> v0 then un else \<not> un)"
    define mid where "mid = ud * vd"
    have ud: "lw ud = (if un then lw u0 - lw u1 else lw u1 - lw u0)" "unat ud < 2 ^ 16"
      using lw_diff [of u0 u1] lw_diff [of u1 u0] b linear [of u0 u1] by (auto simp: udn)
    have vd: "lw vd = (if vn = un then lw v0 - lw v1 else lw v1 - lw v0)" "unat vd < 2 ^ 16"
      using lw_diff [of v0 v1] lw_diff [of v1 v0] b linear [of v0 v1] by (auto simp: vdn)
    have m: "lw mid = lw ud * lw vd" unfolding mid_def by (rule lw_mult) (use ud vd in auto)
    then have mid: "(if vn then - lw mid else lw mid) = (lw u1 - lw u0) * (lw v0 - lw v1)"
      unfolding m ud(1) vd(1) by (auto simp: algebra_simps)
    define pl where "pl = (if vn then lhup high - lhup mid else lhup high + lhup mid)"
    define ph where "ph = (if vn then high + hhalf high - (hhalf mid + (if lhup high < pl then 1 else 0))
       else high + hhalf high + (hhalf mid + (if pl < lhup high then 1 else 0)))"
    have "hw ph + lw pl = hw high + (hw (hhalf high) + lw (lhup high)) +
        (if vn then - (hw (hhalf mid) + lw (lhup mid)) else hw (hhalf mid) + lw (lhup mid))"
      using lw_add [of "lhup mid" "lhup high"] lw_sub [of "lhup high" "lhup mid"]
      by (auto simp: ph_def pl_def add.commute [of "lhup mid"] algebra_simps)
    also have "\<dots> = B32 * lw high + 2 ^ 16 * lw high + 2 ^ 16 * (if vn then - lw mid else lw mid)"
      unfolding shift_half by (simp add: hw_def)
    finally have 1: "hw ph + lw pl = B32 * lw high + 2 ^ 16 * lw high + 2 ^ 16 * ((lw u1 - lw u0) * (lw v0 - lw v1))"
      unfolding mid .
    define pl2 where "pl2 = pl + lhup low"
    define ph2 where "ph2 = ph + (hhalf low + (if pl2 < pl then 1 else 0))"
    have "hw ph2 + lw pl2 = hw ph + lw pl + (hw (hhalf low) + lw (lhup low))"
      using lw_add [of "lhup low" pl] by (auto simp: ph2_def pl2_def add.commute [of "lhup low"] algebra_simps)
    then have 2: "hw ph2 + lw pl2 = hw ph + lw pl + 2 ^ 16 * lw low" unfolding shift_half .
    have 3: "uu (if pl2 + low < low then ph2 + 1 else ph2) (pl2 + low) = hw ph2 + lw pl2 + lw low"
      by (simp add: uu_eq lw_add)
    have "lmulq u v = uu (if pl2 + low < low then ph2 + 1 else ph2) (pl2 + low)"
      unfolding lmulq_def Let_def d [symmetric] lh [symmetric] if_not_P [OF False] ph2_def pl2_def ph_def pl_def mid_def udn vdn
      by (cases "u0 \<le> u1"; cases "v1 \<le> v0") (simp_all only: if_True if_False prod.case simp_thms)
    also have "\<dots> = B32 * lw high + 2 ^ 16 * lw high + 2 ^ 16 * ((lw u1 - lw u0) * (lw v0 - lw v1)) + 2 ^ 16 * lw low + lw low"
      unfolding 3 2 1 ..
    also have "\<dots> = lw u * lw v" unfolding p uv B [symmetric] by (simp only: algebra_simps)
    finally show ?thesis .
  qed
qed

lemma muldi3_abs_ok: "muldi3_abs u v = u * v"
proof -
  define u1 u0 v1 v0 where d: "u1 = ui_H u" "u0 = ui_L u" "v1 = ui_H v" "v0 = ui_L v"
  have uv: "hw u1 + lw u0 = u" "hw v1 + lw v0 = v" unfolding d by (rule halves_eq)+
  define low where "low = lmulq u0 v0"
  have low: "low = lw u0 * lw v0" unfolding low_def by (rule lmulq_ok)
  have l: "hw (ui_L low) = B32 * low"
  proof -
    have "B32 * low = B32 * (hw (ui_H low) + lw (ui_L low))" unfolding halves_eq ..
    then show ?thesis by (simp add: distrib_left) (simp add: hw_def)
  qed
  show ?thesis
  proof (cases "u1 = 0 \<and> v1 = 0")
    case True
    then have "muldi3_abs u v = low" by (simp add: muldi3_abs_def d [symmetric] low_def)
    then show ?thesis using uv low True by simp
  next
    case False
    have "muldi3_abs u v = uu (u1 * v1 + (u1 - u0) * (v0 - v1) + ui_L low + ui_H low) (ui_L low)"
      unfolding muldi3_abs_def Let_def d [symmetric] if_not_P [OF False] low_def
      by (cases "u0 \<le> u1"; cases "v1 \<le> v0") (simp_all add: algebra_simps)
    also have "\<dots> = hw (u1 * v1) + hw ((u1 - u0) * (v0 - v1)) + hw (ui_L low) + (hw (ui_H low) + lw (ui_L low))"
      by (simp add: uu_eq)
    also have "\<dots> = hw u1 * lw v1 + (hw u1 - hw u0) * lw (v0 - v1) + B32 * low + low"
      unfolding halves_eq l by simp
    also have "\<dots> = u * v"
      unfolding uv [symmetric] low by (simp add: lw_sub hw_def BB algebra_simps)
    finally show ?thesis .
  qed
qed

lemma muldi3_ok: "muldi3 a b = a * b"
  by (simp add: muldi3_def muldi3_abs_ok)

text \<open>
  C28. Sum, difference, negation and product of 64-bit numbers computed from words of 32 bits are those
  of the 64-bit words: every carry and borrow is accounted for, and Karatsuba's product with its
  signed middle term loses nothing.
\<close>

theorem millicode_ring:
  "adddi3 a b = a + b \<and> subdi3 a b = a - b \<and> negdi2 a = - a \<and> lmulq x y = ucast x * ucast y \<and> muldi3 a b = a * b"
  by (simp add: adddi3_ok subdi3_ok negdi2_ok lmulq_ok muldi3_ok lw_def)

subsection \<open>Comparison and division\<close>

lemma unat64: "unat a < 2 ^ 64" for a :: "64 word"
  by (rule order.strict_trans2 [OF unsigned_less]) simp

lemma unat_halves: "unat a = unat (ui_H a) * 2 ^ 32 + unat (ui_L a)"
proof -
  have "unat a div 2 ^ 32 < 2 ^ 32" using unat64 [of a] by (simp add: less_mult_imp_div_less)
  then have "unat (ui_H a) = unat a div 2 ^ 32"
    by (simp add: ui_H_def unsigned_ucast_eq drop_bit_eq_div unat_div take_bit_nat_eq_self_iff)
  moreover have "unat (ui_L a) = unat a mod 2 ^ 32"
    by (simp add: ui_L_def unsigned_ucast_eq take_bit_eq_mod)
  ultimately show ?thesis by simp
qed

lemma signed_shift: "signed_take_bit n (int k) = (if k < 2 ^ n then int k else int k - 2 ^ Suc n)" if "k < 2 ^ Suc n"
proof (cases "k < 2 ^ n")
  case True
  then show ?thesis by (simp add: signed_take_bit_int_eq_self_iff)
     (metis of_nat_0_le_iff neg_le_0_iff_le order_trans zero_le_numeral zero_le_power)
next
  case False
  then have "(2 :: int) ^ n \<le> int k" by (metis not_less of_nat_le_iff of_nat_numeral of_nat_power)
  moreover have "int k < 2 * 2 ^ n" using that by (metis of_nat_less_iff of_nat_numeral of_nat_power power_Suc)
  ultimately have "(int k + 2 ^ n) mod (2 * 2 ^ n) = int k + 2 ^ n - 2 * 2 ^ n" by (subst minus_mod_self2 [symmetric]) simp
  then show ?thesis using False by (simp add: signed_take_bit_eq_take_bit_shift take_bit_eq_mod)
qed

lemma sint_unat_gen:
  "sint w = (if unat w < 2 ^ (LENGTH('a) - 1) then int (unat w) else int (unat w) - 2 ^ LENGTH('a))"
  for w :: "'a::len word"
proof -
  have "Suc (LENGTH('a) - 1) = LENGTH('a)" by simp
  then have "signed_take_bit (LENGTH('a) - 1) (int (unat w)) =
      (if unat w < 2 ^ (LENGTH('a) - 1) then int (unat w) else int (unat w) - 2 ^ LENGTH('a))"
    using signed_shift [of "unat w" "LENGTH('a) - 1"] unsigned_less [of w] by (simp only:)
  then show ?thesis by (simp only: sint_uint uint_nat One_nat_def)
qed

lemma sint_unat:
  "sint x = (if unat x < 2147483648 then int (unat x) else int (unat x) - 4294967296)"
  "sint a = (if unat a < 9223372036854775808 then int (unat a) else int (unat a) - 18446744073709551616)"
  for x :: "32 word" and a :: "64 word"
  using sint_unat_gen [of x] sint_unat_gen [of a] by simp_all

lemma sint_halves: "sint a = sint (ui_H a) * 2 ^ 32 + int (unat (ui_L a))"
  using unat_halves [of a] unat32 [of "ui_L a"] by (simp add: sint_unat)

lemma lex_halves:
  assumes "l < (2 :: nat) ^ 32" "l' < 2 ^ 32"
  shows "h * 2 ^ 32 + int l < h' * 2 ^ 32 + int l' \<longleftrightarrow> h < h' \<or> h = h' \<and> l < l'"
    and "h * 2 ^ 32 + int l = h' * 2 ^ 32 + int l' \<longleftrightarrow> h = h' \<and> l = l'"
proof -
  have "h < h' \<Longrightarrow> (h + 1) * 2 ^ 32 \<le> h' * 2 ^ 32" "h' < h \<Longrightarrow> (h' + 1) * 2 ^ 32 \<le> h * 2 ^ 32"
    by (intro mult_right_mono; simp)+
  then show "h * 2 ^ 32 + int l < h' * 2 ^ 32 + int l' \<longleftrightarrow> h < h' \<or> h = h' \<and> l < l'"
    and "h * 2 ^ 32 + int l = h' * 2 ^ 32 + int l' \<longleftrightarrow> h = h' \<and> l = l'"
    using assms by (cases h h' rule: linorder_cases; simp)+
qed

text \<open>
  C31. The comparisons of 64-bit numbers by halves order them as unsigned and as signed numbers: the
  result is 0, 1 or 2 for less, equal and greater.
\<close>

theorem millicode_cmp:
  "ucmpdi2 a b = (if unat a < unat b then 0 else if a = b then 1 else 2) \<and>
   cmpdi2 a b = (if sint a < sint b then 0 else if a = b then 1 else 2)"
proof -
  have eq: "a = b \<longleftrightarrow> unat a = unat b" "a = b \<longleftrightarrow> sint a = sint b"
    by (simp add: word_unat_eq_iff) (metis signed_word_eqI)
  note b = unat32 [of "ui_L a"] unat32 [of "ui_L b"]
  have n: "unat a < unat b \<longleftrightarrow> int (unat (ui_H a)) * 2 ^ 32 + int (unat (ui_L a)) < int (unat (ui_H b)) * 2 ^ 32 + int (unat (ui_L b))"
    "unat a = unat b \<longleftrightarrow> int (unat (ui_H a)) * 2 ^ 32 + int (unat (ui_L a)) = int (unat (ui_H b)) * 2 ^ 32 + int (unat (ui_L b))"
    unfolding unat_halves [of a] unat_halves [of b] by (simp_all flip: of_nat_less_iff [where 'a = int] of_nat_eq_iff [where 'a = int])
  have "ucmpdi2 a b = (if unat a < unat b then 0 else if a = b then 1 else 2)"
    unfolding ucmpdi2_def eq(1) n lex_halves [OF b] of_nat_less_iff of_nat_eq_iff word_less_nat_alt by simp
  moreover have "cmpdi2 a b = (if sint a < sint b then 0 else if a = b then 1 else 2)"
    unfolding cmpdi2_def eq(2) word_less_nat_alt sint_halves [of a] sint_halves [of b] lex_halves [OF b] by simp
  ultimately show ?thesis by simp
qed

lemma abs_unat: "int (unat (if sint a < 0 then - a else a)) = \<bar>sint a\<bar>" for a :: "64 word"
proof (cases "sint a < 0")
  case True
  then have "unat a \<noteq> 0" unfolding sint_unat by (simp split: if_splits)
  then have "unat (- a) = 2 ^ 64 - unat a" using unat_sub_if' [of 0 a] by simp
  then show ?thesis using True unat64 [of a] by (simp add: sint_unat split: if_splits)
next
  case False
  then show ?thesis using unat64 [of a] unfolding sint_unat by (simp split: if_splits)
qed

lemma word_of_sign:
  "(if n then - word_of_nat k else word_of_nat k) = word_of_int (if n then - int k else int k)"
  by simp

lemma sdiv_parts:
  "x sdiv y = (if (x < 0) \<noteq> (y < 0) then - (\<bar>x\<bar> div \<bar>y\<bar>) else \<bar>x\<bar> div \<bar>y\<bar>)"
  "x smod y = (if x < 0 then - (\<bar>x\<bar> mod \<bar>y\<bar>) else \<bar>x\<bar> mod \<bar>y\<bar>)" for x y :: int
  by (auto simp: signed_divide_int_def signed_modulo_int_def sgn_if)

lemma signed_div_ok:
  assumes "b \<noteq> 0"
  shows "divdi3 a b = Some (word_of_int (sint a sdiv sint b)) \<and> moddi3 a b = Some (word_of_int (sint a smod sint b))"
proof -
  define ua ub where u: "ua = (if sint a < 0 then - a else a)" "ub = (if sint b < 0 then - b else b)"
  have "unat ub \<noteq> 0" using assms by (simp add: u unat_gt_0)
  then have q: "qdivrem (unat ua) (unat ub) = Some (unat ua div unat ub, unat ua mod unat ub)"
    using qdivrem_div [OF unat64 unat64] by simp
  have n: "(if sint b < 0 then \<not> (sint a < 0) else sint a < 0) \<longleftrightarrow> (sint a < 0) \<noteq> (sint b < 0)" by auto
  have i: "int (unat ua div unat ub) = \<bar>sint a\<bar> div \<bar>sint b\<bar>" "int (unat ua mod unat ub) = \<bar>sint a\<bar> mod \<bar>sint b\<bar>"
    unfolding zdiv_int zmod_int u abs_unat by simp_all
  have "divdi3 a b = Some (if (sint a < 0) \<noteq> (sint b < 0) then - word_of_nat (unat ua div unat ub) else word_of_nat (unat ua div unat ub))"
    using q unfolding divdi3_def Let_def u by (simp split: if_splits)
  moreover have "moddi3 a b = Some (if sint a < 0 then - word_of_nat (unat ua mod unat ub) else word_of_nat (unat ua mod unat ub))"
    using q unfolding moddi3_def Let_def u by (simp split: if_splits)
  ultimately show ?thesis unfolding word_of_sign i sdiv_parts by simp
qed

text \<open>
  C29. Division returns for every nonzero divisor: \<^verbatim>\<open>__udivdi3\<close> and \<^verbatim>\<open>__umoddi3\<close> compute quotient and
  remainder of unsigned numbers, \<^verbatim>\<open>__divdi3\<close> and \<^verbatim>\<open>__moddi3\<close> the quotient rounded towards zero and
  the remainder with the sign of the dividend; the smallest number divided by \<open>-1\<close> wraps around.
\<close>

theorem millicode_div:
  assumes "b \<noteq> 0"
  shows "udivdi3 a b = Some (a div b) \<and> umoddi3 a b = Some (a mod b) \<and>
     divdi3 a b = Some (word_of_int (sint a sdiv sint b)) \<and> moddi3 a b = Some (word_of_int (sint a smod sint b))"
proof -
  have "unat b \<noteq> 0" using assms by (simp add: unat_gt_0)
  then have "qdivrem (unat a) (unat b) = Some (unat a div unat b, unat a mod unat b)"
    using qdivrem_div [OF unat64 unat64] by simp
  then have "udivdi3 a b = Some (a div b)" "umoddi3 a b = Some (a mod b)"
    by (simp_all add: udivdi3_def umoddi3_def flip: unat_div unat_mod)
  then show ?thesis using signed_div_ok [OF assms] by simp
qed

theorem millicode_div_witness:
  "divdi3 (- 7000000000) 2000000000 = Some (- 3) \<and> moddi3 (- 7000000000) 2000000000 = Some (- 1000000000) \<and>
   divdi3 (push_bit 63 1) (- 1) = Some (push_bit 63 1)"
proof -
  have "(2000000000 :: 64 word) \<noteq> 0" "(- 1 :: 64 word) \<noteq> 0" by simp_all
  moreover have "sint (- 7000000000 :: 64 word) = - 7000000000" "sint (2000000000 :: 64 word) = 2000000000"
    "sint (push_bit 63 1 :: 64 word) = - (2 ^ 63)" by simp_all
  moreover have "(- 7000000000 :: int) sdiv 2000000000 = - 3" "(- 7000000000 :: int) smod 2000000000 = - 1000000000"
    "(- (2 ^ 63) :: int) sdiv - 1 = 2 ^ 63" by (simp_all add: sdiv_parts)
  ultimately show ?thesis
    using millicode_div [of 2000000000 "- 7000000000"] millicode_div [of "- 1" "push_bit 63 1"] by simp
qed

end
