(* ===== verification/Kern_Coremap.thy ===== *)
theory Kern_Coremap
  imports Kern_Prelude
begin

text \<open>
  Physical memory: \<^verbatim>\<open>kern/arch/mips/vm/ram.c\<close> and the part of \<^verbatim>\<open>kern/arch/mips/vm/vm.c\<close> that keeps the
  map of page frames.  The state is an extensible record; the rest of the virtual memory system
  extends it.  The flag \<open>cm_lock\<close> says that this CPU holds \<^verbatim>\<open>cm_spinlock\<close>: taking it twice and releasing
  it when it is not held are assertion failures.
\<close>

section \<open>Addresses\<close>

definition PAGE_SIZE :: nat where "PAGE_SIZE = 4096"
definition PAGE_FRAME :: nat where "PAGE_FRAME = 0xfffff000"
definition MIPS_KSEG0 :: nat where "MIPS_KSEG0 = 0x80000000"
definition MIPS_KSEG1 :: nat where "MIPS_KSEG1 = 0xa0000000"

definition PADDR_TO_KVADDR :: "nat \<Rightarrow> nat" where "PADDR_TO_KVADDR paddr = u32 (paddr + MIPS_KSEG0)"
definition KVADDR_TO_PADDR :: "nat \<Rightarrow> nat" where "KVADDR_TO_PADDR kvaddr = usub32 kvaddr MIPS_KSEG0"
definition PPAGE_TO_PADDR :: "nat \<Rightarrow> nat" where "PPAGE_TO_PADDR pp_num = u32 (pp_num * PAGE_SIZE)"
definition PADDR_TO_PPAGE :: "nat \<Rightarrow> nat" where "PADDR_TO_PPAGE addr = addr div PAGE_SIZE"

section \<open>Memory before the VM system runs\<close>

record ram =
  firstpaddr :: nat
  lastpaddr :: nat

definition ram_bootstrap :: "nat \<Rightarrow> nat \<Rightarrow> ram" where
  "ram_bootstrap firstfree ramsize =
     \<lparr>firstpaddr = usub32 firstfree MIPS_KSEG0,
      lastpaddr = (if 512 * 1024 * 1024 < ramsize then 512 * 1024 * 1024 else ramsize)\<rparr>"

definition ram_stealmem :: "nat \<Rightarrow> ram \<Rightarrow> nat \<times> ram" where
  "ram_stealmem npages r =
     (let size = u32 (npages * PAGE_SIZE)
      in if lastpaddr r < u32 (firstpaddr r + size) then (0, r)
         else (firstpaddr r, r\<lparr>firstpaddr := u32 (firstpaddr r + size)\<rparr>))"

definition ram_getsize :: "ram \<Rightarrow> nat" where
  "ram_getsize r = lastpaddr r"

definition ram_getfirstfree :: "ram \<Rightarrow> nat \<times> ram" where
  "ram_getfirstfree r = (firstpaddr r, r\<lparr>firstpaddr := 0, lastpaddr := 0\<rparr>)"

section \<open>The map of page frames\<close>

record cm_entry =
  used :: bool
  kmalloc_end :: bool
  cm_dirty :: bool
  kernel_page :: bool
  busy :: bool
  owner :: "nat option"
  cm_vaddr :: nat
  pp_num :: nat

record coremap =
  entries :: "cm_entry list"
  cm_page_count :: nat
  first_page :: nat
  last_page :: nat
  cm_lock :: bool

definition cm_acquire :: "'a coremap_scheme \<Rightarrow> 'a coremap_scheme option" where
  "cm_acquire s = do { kassert (\<not> cm_lock s); Some (s\<lparr>cm_lock := True\<rparr>) }"

definition cm_release :: "'a coremap_scheme \<Rightarrow> 'a coremap_scheme option" where
  "cm_release s = do { kassert (cm_lock s); Some (s\<lparr>cm_lock := False\<rparr>) }"

definition is_pp_used :: "'a coremap_scheme \<Rightarrow> nat \<Rightarrow> bool option" where
  "is_pp_used s p = do { kassert (p < last_page s); e \<leftarrow> cread (entries s) p; Some (used e) }"

text \<open>What \<^verbatim>\<open>free_ppage\<close> and \<^verbatim>\<open>kalloc_ppage\<close> store in an entry.\<close>

definition freed_entry :: "cm_entry \<Rightarrow> cm_entry" where
  "freed_entry e =
     e\<lparr>used := False, kmalloc_end := False, kernel_page := False, busy := False, owner := None, cm_vaddr := 0\<rparr>"

definition kernel_entry :: "nat \<Rightarrow> cm_entry \<Rightarrow> cm_entry" where
  "kernel_entry p e =
     e\<lparr>used := True, pp_num := p, kmalloc_end := False, kernel_page := True, busy := False, owner := None, cm_vaddr := 0\<rparr>"

definition free_ppage :: "nat \<Rightarrow> 'a coremap_scheme \<Rightarrow> 'a coremap_scheme option" where
  "free_ppage p s =
     do { kassert (first_page s \<le> p \<and> p < last_page s);
          e \<leftarrow> cread (entries s) p;
          Some (s\<lparr>entries := (entries s)[p := freed_entry e], cm_page_count := usub32 (cm_page_count s) 1\<rparr>) }"

definition kalloc_ppage :: "nat \<Rightarrow> 'a coremap_scheme \<Rightarrow> 'a coremap_scheme option" where
  "kalloc_ppage p s =
     do { e \<leftarrow> cread (entries s) p;
          Some (s\<lparr>entries := (entries s)[p := kernel_entry p e], cm_page_count := u32 (cm_page_count s + 1)\<rparr>) }"

text \<open>The number of free pages from \<open>current\<close> on, at most \<open>k\<close>: the inner loop of \<^verbatim>\<open>find_free_pp\<close>.\<close>

primrec free_run :: "'a coremap_scheme \<Rightarrow> nat \<Rightarrow> nat \<Rightarrow> nat option" where
  "free_run s current 0 = Some 0"
| "free_run s current (Suc k) =
     do { u \<leftarrow> is_pp_used s current;
          if u then Some 0 else do { n \<leftarrow> free_run s (current + 1) k; Some (n + 1) } }"

function find_loop :: "'a coremap_scheme \<Rightarrow> nat \<Rightarrow> nat \<Rightarrow> (errno + nat) option" where
  "find_loop s npages current =
     (if current + npages \<le> last_page s
      then do { n \<leftarrow> free_run s current npages;
                if n = npages then Some (Inr current) else find_loop s npages (current + n + 1) }
      else Some (Inl ENOMEM))"
  by pat_completeness auto
termination
  by (relation "measure (\<lambda>(s, npages, current). last_page s + 1 - current)") auto

declare find_loop.simps [simp del]

definition find_free_pp :: "nat \<Rightarrow> nat \<Rightarrow> 'a coremap_scheme \<Rightarrow> (errno + nat) option" where
  "find_free_pp npages start s =
     (if last_page s < npages \<or> last_page s - npages < start then Some (Inl ENOMEM)
      else find_loop s npages start)"

primrec kalloc_run :: "nat \<Rightarrow> nat \<Rightarrow> 'a coremap_scheme \<Rightarrow> 'a coremap_scheme option" where
  "kalloc_run pp 0 s = Some s"
| "kalloc_run pp (Suc k) s = do { s \<leftarrow> kalloc_ppage pp s; kalloc_run (pp + 1) k s }"

text \<open>One round of \<^verbatim>\<open>alloc_kpages\<close>: the pages found, or nothing.\<close>

definition alloc_try :: "nat \<Rightarrow> 'a coremap_scheme \<Rightarrow> (nat option \<times> 'a coremap_scheme) option" where
  "alloc_try npages s =
     do { s \<leftarrow> cm_acquire s;
          r \<leftarrow> find_free_pp npages (first_page s) s;
          case r of
            Inr start \<Rightarrow>
              do { s \<leftarrow> kalloc_run start npages s;
                   let pend = usub32 (start + npages) 1;
                   e \<leftarrow> cread (entries s) pend;
                   let s = s\<lparr>entries := (entries s)[pend := e\<lparr>kmalloc_end := True\<rparr>]\<rparr>;
                   s \<leftarrow> cm_release s;
                   Some (Some (PADDR_TO_KVADDR (PPAGE_TO_PADDR start)), s) }
          | Inl _ \<Rightarrow> do { s \<leftarrow> cm_release s; Some (None, s) } }"

text \<open>The walk of \<^verbatim>\<open>free_kpages\<close> down to the page with the end mark.\<close>

function free_walk :: "nat \<Rightarrow> 'a coremap_scheme \<Rightarrow> 'a coremap_scheme option" where
  "free_walk cur s =
     do { u \<leftarrow> is_pp_used s cur;
          if u
          then do { e \<leftarrow> cread (entries s) cur;
                    s \<leftarrow> free_ppage cur s;
                    if kmalloc_end e then Some s else free_walk (cur + 1) s }
          else Some s }"
  by pat_completeness auto
termination
proof (relation "measure (\<lambda>(cur, s). last_page s - cur)")
  fix cur s u e s'
  assume "is_pp_used s cur = Some u" "free_ppage cur s = Some s'"
  then show "((cur + 1, s'), cur, s) \<in> measure (\<lambda>(cur, s). last_page s - cur)"
    by (auto simp: is_pp_used_def free_ppage_def bind_eq_Some_conv)
qed simp

declare free_walk.simps [simp del]

definition free_kpages :: "nat \<Rightarrow> 'a coremap_scheme \<Rightarrow> 'a coremap_scheme option" where
  "free_kpages addr s =
     (let held = cm_lock s
      in do { s \<leftarrow> (if held then Some s else cm_acquire s);
              s \<leftarrow> free_walk (PADDR_TO_PPAGE (KVADDR_TO_PADDR addr)) s;
              if held then Some s else cm_release s })"

text \<open>Giving a page to a user address space.\<close>

definition cm_set_user_page :: "nat \<Rightarrow> nat \<Rightarrow> nat \<Rightarrow> 'a coremap_scheme \<Rightarrow> 'a coremap_scheme option" where
  "cm_set_user_page ppn as vaddr s =
     do { s \<leftarrow> cm_acquire s;
          e \<leftarrow> cread (entries s) ppn;
          let s = s\<lparr>entries := (entries s)[ppn := e\<lparr>kernel_page := False, owner := Some as, cm_vaddr := vaddr AND PAGE_FRAME\<rparr>]\<rparr>;
          cm_release s }"

text \<open>
  \<^verbatim>\<open>vm_bootstrap\<close>: the map lies in memory stolen before it exists, and covers all of memory.  The sizes
  are those of the machine: 4 bytes for \<^verbatim>\<open>struct coremap\<close>, 20 for an entry.
\<close>

definition blank_entry :: cm_entry where
  "blank_entry =
     \<lparr>used = False, kmalloc_end = False, cm_dirty = False, kernel_page = False, busy = False, owner = None,
      cm_vaddr = 0, pp_num = 0\<rparr>"

definition vm_bootstrap :: "ram \<Rightarrow> (coremap \<times> ram) option" where
  "vm_bootstrap r =
     (let total_pages = ram_getsize r div PAGE_SIZE;
          coremap_bytes = u32 (4 + total_pages * 20);
          coremap_pages = u32 (coremap_bytes + PAGE_SIZE - 1) div PAGE_SIZE;
          (cm_paddr, r) = ram_stealmem coremap_pages r
      in do { kassert (cm_paddr \<noteq> 0);
              kassert (fst (ram_stealmem 0 r) mod PAGE_SIZE = 0);
              let first = PADDR_TO_PPAGE (fst (ram_stealmem 0 r));
              let s = \<lparr>entries = replicate total_pages blank_entry, cm_page_count = 0,
                       first_page = first, last_page = PADDR_TO_PPAGE (ram_getsize r), cm_lock = False\<rparr>;
              s \<leftarrow> cm_acquire s;
              s \<leftarrow> kalloc_run 0 first s;
              s \<leftarrow> cm_release s;
              Some (s, r) })"

section \<open>Well-formed maps\<close>

text \<open>
  The map covers all of memory, counts the pages in use, and every block of pages in use runs up to
  a page with the end mark.  There are at most 512 MB of memory.
\<close>

abbreviation ent :: "'a coremap_scheme \<Rightarrow> nat \<Rightarrow> cm_entry" where
  "ent s p \<equiv> entries s ! p"

definition cm_wf :: "'a coremap_scheme \<Rightarrow> bool" where
  "cm_wf s \<longleftrightarrow>
     length (entries s) = last_page s \<and> 0 < first_page s \<and> first_page s \<le> last_page s \<and> last_page s \<le> 131072 \<and>
     cm_page_count s = countP used (entries s) \<and>
     (\<forall>p < last_page s. used (ent s p) \<longrightarrow> pp_num (ent s p) = p) \<and>
     (\<forall>p. first_page s \<le> p \<longrightarrow> p < last_page s \<longrightarrow> used (ent s p) \<longrightarrow> \<not> kmalloc_end (ent s p) \<longrightarrow>
        p + 1 < last_page s \<and> used (ent s (p + 1)))"

lemma cm_wfD:
  assumes "cm_wf s"
  shows "length (entries s) = last_page s" "0 < first_page s" "first_page s \<le> last_page s" "last_page s \<le> 131072"
    "cm_page_count s = countP used (entries s)"
    "p < last_page s \<Longrightarrow> used (ent s p) \<Longrightarrow> pp_num (ent s p) = p"
    "first_page s \<le> p \<Longrightarrow> p < last_page s \<Longrightarrow> used (ent s p) \<Longrightarrow> \<not> kmalloc_end (ent s p) \<Longrightarrow>
       p + 1 < last_page s \<and> used (ent s (p + 1))"
  using assms unfolding cm_wf_def by blast+

text \<open>Changing the entries and the count of a well-formed map.\<close>

lemma cm_wf_update:
  assumes "cm_wf s" "length E = length (entries s)" "c = countP used E"
    and "\<And>p. p < last_page s \<Longrightarrow> used (E ! p) \<Longrightarrow> pp_num (E ! p) = p"
    and "\<And>p. first_page s \<le> p \<Longrightarrow> p < last_page s \<Longrightarrow> used (E ! p) \<Longrightarrow> \<not> kmalloc_end (E ! p) \<Longrightarrow>
       p + 1 < last_page s \<and> used (E ! (p + 1))"
  shows "cm_wf (s\<lparr>entries := E, cm_page_count := c\<rparr>)"
  using assms unfolding cm_wf_def by simp

lemma kv_of_page:
  assumes "p < 131072"
  shows "PADDR_TO_KVADDR (PPAGE_TO_PADDR p) = MIPS_KSEG0 + p * PAGE_SIZE"
    and "PADDR_TO_PPAGE (KVADDR_TO_PADDR (MIPS_KSEG0 + p * PAGE_SIZE)) = p"
    and "PADDR_TO_PPAGE (PPAGE_TO_PADDR p) = p"
proof -
  have lt: "p * 4096 < 536870912" using assms by simp
  then show "PADDR_TO_KVADDR (PPAGE_TO_PADDR p) = MIPS_KSEG0 + p * PAGE_SIZE"
    by (simp add: PADDR_TO_KVADDR_def PPAGE_TO_PADDR_def MIPS_KSEG0_def PAGE_SIZE_def u32_def)
  show "PADDR_TO_PPAGE (KVADDR_TO_PADDR (MIPS_KSEG0 + p * PAGE_SIZE)) = p"
    using lt by (simp add: KVADDR_TO_PADDR_def PADDR_TO_PPAGE_def MIPS_KSEG0_def PAGE_SIZE_def)
  show "PADDR_TO_PPAGE (PPAGE_TO_PADDR p) = p"
    using lt by (simp add: PADDR_TO_PPAGE_def PPAGE_TO_PADDR_def PAGE_SIZE_def u32_def)
qed

text \<open>The entries after a run of pages has been given to the kernel, and after it has been freed.\<close>

definition map_range :: "nat \<Rightarrow> nat \<Rightarrow> (nat \<Rightarrow> cm_entry \<Rightarrow> cm_entry) \<Rightarrow> cm_entry list \<Rightarrow> cm_entry list" where
  "map_range a n f es = map (\<lambda>p. if a \<le> p \<and> p < a + n then f p (es ! p) else es ! p) [0..<length es]"

lemma length_map_range [simp]: "length (map_range a n f es) = length es"
  by (simp add: map_range_def)

lemma nth_map_range [simp]:
  "p < length es \<Longrightarrow> map_range a n f es ! p = (if a \<le> p \<and> p < a + n then f p (es ! p) else es ! p)"
  by (simp add: map_range_def)

lemma map_range_0 [simp]: "map_range a 0 f es = es"
  by (rule nth_equalityI) auto

lemma map_range_Suc: "a < length es \<Longrightarrow> map_range a (Suc n) f es = map_range (a + 1) n f (es[a := f a (es ! a)])"
  by (rule nth_equalityI) (auto simp: nth_list_update)

lemma countP_map_range:
  assumes "a + n \<le> length es" "\<forall>p. a \<le> p \<longrightarrow> p < a + n \<longrightarrow> P (es ! p) = b \<and> P (f p (es ! p)) = (\<not> b)"
  shows "if b then countP P (map_range a n f es) + n = countP P es else countP P (map_range a n f es) = countP P es + n"
  using assms
proof (induction n arbitrary: a es)
  case (Suc n)
  let ?es = "es[a := f a (es ! a)]"
  have a: "a < length es" "P (es ! a) = b" "P (f a (es ! a)) = (\<not> b)" using Suc.prems by auto
  have "if b then countP P (map_range (a + 1) n f ?es) + n = countP P ?es
     else countP P (map_range (a + 1) n f ?es) = countP P ?es + n"
    using Suc.prems by (intro Suc.IH) auto
  moreover note countP_update [OF a(1), of P "f a (es ! a)"]
  ultimately show ?case unfolding map_range_Suc [OF a(1)] using a(2,3) by (auto split: if_splits)
qed simp

lemma free_run_ok:
  assumes "length (entries s) = last_page s" "cur + k \<le> last_page s"
  shows "\<exists>n \<le> k. free_run s cur k = Some n \<and> (\<forall>i < n. \<not> used (ent s (cur + i))) \<and> (n < k \<longrightarrow> used (ent s (cur + n)))"
  using assms(2)
proof (induction k arbitrary: cur)
  case (Suc k)
  from Suc.prems have c: "cur < last_page s" by simp
  show ?case
  proof (cases "used (ent s cur)")
    case True
    then show ?thesis using c assms(1) by (intro exI [of _ 0]) (simp add: is_pp_used_def)
  next
    case False
    have "cur + 1 + k \<le> last_page s" using Suc.prems by simp
    from Suc.IH [OF this] obtain n where n: "n \<le> k" "free_run s (cur + 1) k = Some n"
      "\<forall>i < n. \<not> used (ent s (cur + 1 + i))" "n < k \<longrightarrow> used (ent s (cur + 1 + n))" by blast
    have "\<not> used (ent s (cur + i))" if "i < n + 1" for i
      using that False n(3) by (cases i) auto
    then show ?thesis using n c assms(1) False by (intro exI [of _ "n + 1"]) (simp add: is_pp_used_def)
  qed
qed simp

lemma find_loop_ok:
  assumes "length (entries s) = last_page s"
  shows "(\<exists>st. find_loop s n cur = Some (Inr st) \<and> cur \<le> st \<and> st + n \<le> last_page s \<and> (\<forall>i < n. \<not> used (ent s (st + i)))) \<or>
    (find_loop s n cur = Some (Inl ENOMEM) \<and> (\<forall>st. cur \<le> st \<longrightarrow> st + n \<le> last_page s \<longrightarrow> (\<exists>i < n. used (ent s (st + i)))))"
  using assms
proof (induction s n cur rule: find_loop.induct)
  case (1 s n cur)
  show ?case
  proof (cases "cur + n \<le> last_page s")
    case False
    then show ?thesis by (subst (1 2) find_loop.simps) auto
  next
    case True
    from free_run_ok [OF 1(2) True] obtain k where k: "k \<le> n" "free_run s cur n = Some k"
      "\<forall>i < k. \<not> used (ent s (cur + i))" "k < n \<longrightarrow> used (ent s (cur + k))" by blast
    show ?thesis
    proof (cases "k = n")
      case eq: True
      then have "find_loop s n cur = Some (Inr cur)" using True k(2) by (subst find_loop.simps) simp
      then show ?thesis using True k(3) eq by auto
    next
      case False
      then have e: "find_loop s n cur = find_loop s n (cur + k + 1)" using True k(2) by (subst find_loop.simps) simp
      have "\<exists>i < n. used (ent s (st + i))" if st: "cur \<le> st" "\<not> cur + k + 1 \<le> st" for st
      proof -
        have "cur + k - st < n" "st + (cur + k - st) = cur + k" using st False k(1) by simp_all
        then show ?thesis using k(4) False k(1) by (metis le_neq_implies_less)
      qed
      then show ?thesis unfolding e using 1(1) [OF True k(2) False 1(2)] by (auto intro: add_leD1)
    qed
  qed
qed

lemma kalloc_run_ok:
  assumes "a + n \<le> length (entries s)"
  shows "kalloc_run a n s = Some (s\<lparr>entries := map_range a n kernel_entry (entries s),
     cm_page_count := (if n = 0 then cm_page_count s else u32 (cm_page_count s + n))\<rparr>)"
  using assms
proof (induction n arbitrary: a s)
  case (Suc n)
  then show ?case by (simp add: kalloc_ppage_def map_range_Suc u32_def mod_simps)
qed simp

definition alloc_entry :: "nat \<Rightarrow> nat \<Rightarrow> cm_entry \<Rightarrow> cm_entry" where
  "alloc_entry pend p e = (kernel_entry p e)\<lparr>kmalloc_end := (p = pend)\<rparr>"

lemma alloc_try_cases:
  assumes wf: "cm_wf s" "\<not> cm_lock s" "0 < n"
  obtains (found) st where "alloc_try n s = Some (Some (MIPS_KSEG0 + st * PAGE_SIZE),
        s\<lparr>entries := map_range st n (alloc_entry (st + n - 1)) (entries s), cm_page_count := cm_page_count s + n\<rparr>)"
      "first_page s \<le> st" "st + n \<le> last_page s" "\<forall>p. st \<le> p \<longrightarrow> p < st + n \<longrightarrow> \<not> used (ent s p)"
    | (none) "alloc_try n s = Some (None, s)"
      "\<forall>st. first_page s \<le> st \<longrightarrow> st + n \<le> last_page s \<longrightarrow> (\<exists>i < n. used (ent s (st + i)))"
proof -
  let ?s = "s\<lparr>cm_lock := True\<rparr>"
  note w = cm_wfD [OF wf(1)]
  have len: "length (entries ?s) = last_page ?s" using w(1) by simp
  have rel: "s\<lparr>cm_lock := False\<rparr> = s" using wf(2) by simp
  show thesis
  proof (cases "last_page s < n \<or> last_page s - n < first_page s")
    case True
    then have "alloc_try n s = Some (None, s)"
      using wf(2) rel by (simp add: alloc_try_def cm_acquire_def cm_release_def find_free_pp_def)
    moreover have "\<forall>st. first_page s \<le> st \<longrightarrow> st + n \<le> last_page s \<longrightarrow> (\<exists>i < n. used (ent s (st + i)))" using True by auto
    ultimately show thesis by (rule none)
  next
    case F: False
    then have ff: "find_free_pp n (first_page s) ?s = find_loop ?s n (first_page s)" by (simp add: find_free_pp_def)
    from find_loop_ok [OF len, of n "first_page s"] consider
      st where "find_loop ?s n (first_page s) = Some (Inr st)" "first_page s \<le> st" "st + n \<le> last_page s"
        "\<forall>i < n. \<not> used (ent s (st + i))"
      | "find_loop ?s n (first_page s) = Some (Inl ENOMEM)"
        "\<forall>st. first_page s \<le> st \<longrightarrow> st + n \<le> last_page s \<longrightarrow> (\<exists>i < n. used (ent s (st + i)))" by auto
    then show thesis
    proof cases
      case (1 st)
      have free: "\<not> used (ent s p)" if "st \<le> p" "p < st + n" for p
        using 1(4) that by (metis add_diff_inverse_nat less_diff_conv2 not_less add.commute)
      have cnt: "countP used (map_range st n kernel_entry (entries s)) = countP used (entries s) + n"
        using countP_map_range [of st n "entries s" used False kernel_entry] 1(3) w(1) free
        by (simp add: kernel_entry_def)
      then have "countP used (entries s) + n \<le> last_page s"
        using countP_le_length [of used "map_range st n kernel_entry (entries s)"] w(1) by simp
      then have c: "u32 (cm_page_count s + n) = cm_page_count s + n" using w(4,5) by (intro u32_small) simp
      have e: "(map_range st n kernel_entry (entries s))[st + n - 1 := (map_range st n kernel_entry (entries s) ! (st + n - 1))\<lparr>kmalloc_end := True\<rparr>] =
          map_range st n (alloc_entry (st + n - 1)) (entries s)"
        using 1(3) w(1) wf(3) by (intro nth_equalityI) (auto simp: nth_list_update alloc_entry_def kernel_entry_def)
      have "usub32 (st + n) 1 = st + n - 1" using 1(3) w(4) wf(3) by (intro usub32_le) simp_all
      then have "alloc_try n s = Some (Some (MIPS_KSEG0 + st * PAGE_SIZE),
          s\<lparr>entries := map_range st n (alloc_entry (st + n - 1)) (entries s), cm_page_count := cm_page_count s + n\<rparr>)"
        using 1 wf ff w(1,4) c e kv_of_page(1) [of st]
        by (simp add: alloc_try_def cm_acquire_def cm_release_def kalloc_run_ok Let_def)
      then show thesis using 1 free by (intro found [of st]) blast+
    next
      case 2
      then have "alloc_try n s = Some (None, s)"
        using wf(2) rel ff by (simp add: alloc_try_def cm_acquire_def cm_release_def)
      then show thesis using 2(2) by (rule none)
    qed
  qed
qed

subsection \<open>Blocks of pages\<close>

text \<open>A block as \<^verbatim>\<open>alloc_kpages\<close> hands it out: it begins where no other block goes on.\<close>

definition kblock :: "'a coremap_scheme \<Rightarrow> nat \<Rightarrow> nat \<Rightarrow> bool" where
  "kblock s p n \<longleftrightarrow> 0 < n \<and> first_page s \<le> p \<and> p + n \<le> last_page s \<and>
     (p = first_page s \<or> \<not> used (ent s (p - 1)) \<or> kmalloc_end (ent s (p - 1))) \<and>
     (\<forall>q. p \<le> q \<longrightarrow> q < p + n \<longrightarrow> used (ent s q) \<and> (kmalloc_end (ent s q) \<longleftrightarrow> q = p + n - 1))"

abbreviation alloc_state :: "nat \<Rightarrow> nat \<Rightarrow> 'a coremap_scheme \<Rightarrow> 'a coremap_scheme" where
  "alloc_state st n s \<equiv>
     s\<lparr>entries := map_range st n (alloc_entry (st + n - 1)) (entries s), cm_page_count := cm_page_count s + n\<rparr>"

abbreviation free_state :: "nat \<Rightarrow> nat \<Rightarrow> 'a coremap_scheme \<Rightarrow> 'a coremap_scheme" where
  "free_state st n s \<equiv>
     s\<lparr>entries := map_range st n (\<lambda>_. freed_entry) (entries s), cm_page_count := cm_page_count s - n\<rparr>"

lemma alloc_entry_simps [simp]:
  "used (alloc_entry e p x)" "kmalloc_end (alloc_entry e p x) = (p = e)" "kernel_page (alloc_entry e p x)"
  "pp_num (alloc_entry e p x) = p" "owner (alloc_entry e p x) = None" "\<not> busy (alloc_entry e p x)"
  by (simp_all add: alloc_entry_def kernel_entry_def)

lemma freed_entry_simps [simp]:
  "\<not> used (freed_entry x)" "\<not> kmalloc_end (freed_entry x)" "\<not> kernel_page (freed_entry x)" "owner (freed_entry x) = None"
  by (simp_all add: freed_entry_def)

lemma alloc_state_wf:
  assumes wf: "cm_wf s" and r: "0 < n" "first_page s \<le> st" "st + n \<le> last_page s"
    and free: "\<forall>p. st \<le> p \<longrightarrow> p < st + n \<longrightarrow> \<not> used (ent s p)"
  shows "cm_wf (alloc_state st n s) \<and> kblock (alloc_state st n s) st n"
proof -
  note w = cm_wfD [OF wf]
  let ?E = "map_range st n (alloc_entry (st + n - 1)) (entries s)"
  have E: "?E ! p = (if st \<le> p \<and> p < st + n then alloc_entry (st + n - 1) p (ent s p) else ent s p)" if "p < last_page s" for p
    using that w(1) by simp
  have cnt: "countP used ?E = countP used (entries s) + n"
    using countP_map_range [of st n "entries s" used False "alloc_entry (st + n - 1)"] r(3) w(1) free by simp
  have before: "kmalloc_end (ent s (st - 1))" if "first_page s < st" "used (ent s (st - 1))"
  proof (rule ccontr)
    assume "\<not> kmalloc_end (ent s (st - 1))"
    then have "used (ent s (st - 1 + 1))" using w(7) [of "st - 1"] that r by simp
    then show False using that r free by simp
  qed
  have ends: "p + 1 < last_page s \<and> used (?E ! (p + 1))"
    if "first_page s \<le> p" "p < last_page s" "used (?E ! p)" "\<not> kmalloc_end (?E ! p)" for p
  proof (cases "st \<le> p \<and> p < st + n")
    case True
    then have "p \<noteq> st + n - 1" using that(2,4) E by simp
    then have "p + 1 < st + n" using True by linarith
    then show ?thesis using True r(3) E [of "p + 1"] by simp
  next
    case False
    then have "?E ! p = ent s p" using E that(2) by auto
    then have "p + 1 < last_page s \<and> used (ent s (p + 1))" using w(7) [of p] that by simp
    then show ?thesis using E [of "p + 1"] by simp
  qed
  have "cm_wf (alloc_state st n s)"
  proof (rule cm_wf_update [OF wf])
    show "pp_num (?E ! p) = p" if "p < last_page s" "used (?E ! p)" for p
      using that E w(6) by (auto split: if_splits)
  qed (use cnt w(5) ends in simp_all)
  moreover have "st = first_page s \<or> \<not> used (?E ! (st - 1)) \<or> kmalloc_end (?E ! (st - 1))"
  proof (cases "st = first_page s")
    case False
    then have "first_page s < st" using r(2) by simp
    moreover from this have "?E ! (st - 1) = ent s (st - 1)" using E [of "st - 1"] r(1,3) by auto
    ultimately show ?thesis using before by auto
  qed simp
  then have "kblock (alloc_state st n s) st n" unfolding kblock_def using r E by (simp del: nth_map_range)
  ultimately show ?thesis by simp
qed

lemma free_walk_ok:
  assumes "length (entries s) = last_page s" "0 < n" "first_page s \<le> p" "p + n \<le> last_page s"
    and "\<forall>q. p \<le> q \<longrightarrow> q < p + n \<longrightarrow> used (ent s q) \<and> (kmalloc_end (ent s q) \<longleftrightarrow> q = p + n - 1)"
    and "n \<le> cm_page_count s" "cm_page_count s < 2 ^ 32"
  shows "free_walk p s = Some (free_state p n s)"
  using assms
proof (induction n arbitrary: p s)
  case (Suc n)
  let ?s = "s\<lparr>entries := (entries s)[p := freed_entry (ent s p)], cm_page_count := cm_page_count s - 1\<rparr>"
  have p: "p < last_page s" "used (ent s p)" "kmalloc_end (ent s p) \<longleftrightarrow> n = 0" using Suc.prems by auto
  have fp: "free_ppage p s = Some ?s" using Suc.prems p by (simp add: free_ppage_def)
  have step: "free_walk p s = (if n = 0 then Some ?s else free_walk (p + 1) ?s)"
    using p fp Suc.prems(1) by (subst free_walk.simps) (simp add: is_pp_used_def)
  show ?case
  proof (cases "n = 0")
    case True
    then show ?thesis using step Suc.prems(1) p by (simp add: map_range_Suc)
  next
    case False
    have "free_walk (p + 1) ?s = Some (free_state (p + 1) n ?s)"
      by (rule Suc.IH) (use Suc.prems False in \<open>auto simp: nth_list_update\<close>)
    then show ?thesis using step False Suc.prems(1) p by (simp add: map_range_Suc)
  qed
qed simp

lemma kblock_count:
  assumes "cm_wf s" "kblock s p n"
  shows "countP used (map_range p n (\<lambda>_. freed_entry) (entries s)) + n = cm_page_count s"
  using countP_map_range [of p n "entries s" used True "\<lambda>_. freed_entry"] cm_wfD(1,5) [OF assms(1)] assms(2)
  by (simp add: kblock_def)

lemma free_kpages_ok:
  assumes wf: "cm_wf s" and b: "kblock s p n"
  shows "free_kpages (MIPS_KSEG0 + p * PAGE_SIZE) s = Some (free_state p n s)" and "cm_wf (free_state p n s)"
proof -
  note w = cm_wfD [OF wf]
  have r: "0 < n" "first_page s \<le> p" "p + n \<le> last_page s"
    and u: "\<forall>q. p \<le> q \<longrightarrow> q < p + n \<longrightarrow> used (ent s q) \<and> (kmalloc_end (ent s q) \<longleftrightarrow> q = p + n - 1)"
    and hd: "p = first_page s \<or> \<not> used (ent s (p - 1)) \<or> kmalloc_end (ent s (p - 1))"
    using b unfolding kblock_def by blast+
  let ?E = "map_range p n (\<lambda>_. freed_entry) (entries s)"
  have E: "?E ! q = (if p \<le> q \<and> q < p + n then freed_entry (ent s q) else ent s q)" if "q < last_page s" for q
    using that w(1) by simp
  note cnt = kblock_count [OF wf b]
  have pp: "PADDR_TO_PPAGE (KVADDR_TO_PADDR (MIPS_KSEG0 + p * PAGE_SIZE)) = p"
    using kv_of_page(2) [of p] r w(4) by simp
  have c: "cm_page_count s < 2 ^ 32" using w(1,4,5) countP_le_length [of used "entries s"] by simp
  let ?s = "s\<lparr>cm_lock := True\<rparr>"
  have "free_walk p ?s = Some (free_state p n ?s)"
    by (rule free_walk_ok) (use w(1) r u cnt c in simp_all)
  moreover have "free_walk p s = Some (free_state p n s)"
    by (rule free_walk_ok) (use w(1) r u cnt c in simp_all)
  ultimately show "free_kpages (MIPS_KSEG0 + p * PAGE_SIZE) s = Some (free_state p n s)"
    unfolding free_kpages_def pp by (cases "cm_lock s") (simp_all add: cm_acquire_def cm_release_def)
  have "q + 1 < last_page s \<and> used (?E ! (q + 1))"
    if "first_page s \<le> q" "q < last_page s" "used (?E ! q)" "\<not> kmalloc_end (?E ! q)" for q
  proof -
    have q: "\<not> (p \<le> q \<and> q < p + n)" using that E by (metis freed_entry_simps(1))
    then have e: "?E ! q = ent s q" using E that(2) by auto
    then have "q + 1 < last_page s \<and> used (ent s (q + 1))" using w(7) [of q] that by simp
    moreover have "q + 1 \<noteq> p"
    proof
      assume "q + 1 = p"
      then have "p - 1 = q" "p \<noteq> first_page s" using that(1) by simp_all
      then show False using hd that(3,4) e by simp
    qed
    then have "\<not> (p \<le> q + 1 \<and> q + 1 < p + n)" using q by linarith
    ultimately show ?thesis using E [of "q + 1"] by simp
  qed
  note ends = this
  show "cm_wf (free_state p n s)"
  proof (rule cm_wf_update [OF wf])
    show "pp_num (?E ! q) = q" if "q < last_page s" "used (?E ! q)" for q
      using that E w(6) by (auto split: if_splits)
  qed (use cnt ends in simp_all)
qed

end
