(* ===== verification/Kern_Vm.thy ===== *)
theory Kern_Vm
  imports Kern_Coremap Kern_Bitmap
begin

text \<open>
  The virtual memory system: two-level page tables (\<^verbatim>\<open>kern/vm/pagetable.c\<close>), the swap device
  (\<^verbatim>\<open>kern/vm/swap.c\<close>), eviction, page faults and the TLB (\<^verbatim>\<open>kern/arch/mips/vm/vm.c\<close>).

  One thread runs in this code at a time; \<open>as_held\<close> says that it holds the lock of an address space,
  and taking that lock again is the assertion failure of \<^verbatim>\<open>lock_acquire\<close>.  The disk under the swap
  device is a parameter: a pair of functions that read and write a page at an offset and may fail or
  transfer less than a page.  Page tables are larger than the largest block of the subpage allocator,
  so \<^verbatim>\<open>kmalloc\<close> and \<^verbatim>\<open>kfree\<close> of them are \<^verbatim>\<open>alloc_kpages\<close> and \<^verbatim>\<open>free_kpages\<close>; the answers to the small requests
  are an input.
\<close>

section \<open>Page tables\<close>

type_synonym page = "12 word \<Rightarrow> 8 word"

definition L1_SIZE :: nat where "L1_SIZE = 1024"
definition L2_SIZE :: nat where "L2_SIZE = 1024"
definition L1_PAGE_MASK :: nat where "L1_PAGE_MASK = 0x003ff000"
definition GET_L2_INDEX :: "nat \<Rightarrow> nat" where "GET_L2_INDEX vaddr = drop_bit 22 vaddr"
definition GET_L1_INDEX :: "nat \<Rightarrow> nat" where "GET_L1_INDEX vaddr = drop_bit 12 (vaddr AND L1_PAGE_MASK)"
definition SWAP_OFFSET_NONE :: int where "SWAP_OFFSET_NONE = - 1"

record pte =
  valid :: bool
  in_mem :: bool
  readonly :: bool
  dirty :: bool
  swap_offset :: int
  ppn :: nat

record l2_ptable =
  l2_addr :: nat
  l2_ptes :: "pte list"

record pagetable =
  pt_addr :: nat
  l2_entries :: "l2_ptable option list"

definition pagetable_lookup :: "pagetable \<Rightarrow> nat \<Rightarrow> pte option option" where
  "pagetable_lookup pt vaddr =
     do { l2 \<leftarrow> cread (l2_entries pt) (GET_L1_INDEX vaddr);
          case l2 of
            None \<Rightarrow> Some None
          | Some l2 \<Rightarrow> do { e \<leftarrow> cread (l2_ptes l2) (GET_L2_INDEX vaddr); Some (Some e) } }"

text \<open>Writing through the pointer \<^verbatim>\<open>pagetable_lookup\<close> returned.\<close>

definition pte_store :: "(pte \<Rightarrow> pte) \<Rightarrow> nat \<Rightarrow> pagetable \<Rightarrow> pagetable" where
  "pte_store f vaddr pt =
     (case l2_entries pt ! GET_L1_INDEX vaddr of
        None \<Rightarrow> pt
      | Some l2 \<Rightarrow> pt\<lparr>l2_entries := (l2_entries pt)[GET_L1_INDEX vaddr :=
           Some (l2\<lparr>l2_ptes := (l2_ptes l2)[GET_L2_INDEX vaddr := f (l2_ptes l2 ! GET_L2_INDEX vaddr)]\<rparr>)]\<rparr>)"

section \<open>The state\<close>

record region =
  as_vbase :: nat
  as_npages :: nat
  r_read :: int
  r_write :: int
  r_exec :: int

record addrspace =
  as_pt :: pagetable
  as_held :: bool
  region_list :: "region list"
  heap_start :: nat
  heap_end :: nat
  stack_base :: nat

record 'd vm = coremap +
  cm_evict_index :: nat
  frames :: "nat \<Rightarrow> page"
  spaces :: "nat \<Rightarrow> addrspace option"
  swap_bitmap :: bitmap
  swap_slots :: nat
  dev :: 'd
  tlb :: "(nat \<times> nat) list"
  tlb_next_victim :: nat
  curas :: "nat option"

text \<open>The disk: \<open>Inr\<close> is the number of bytes that were not transferred.\<close>

record 'd swapdev =
  vop_write :: "page \<Rightarrow> int \<Rightarrow> 'd \<Rightarrow> ((errno + nat) \<times> 'd) option"
  vop_read :: "page \<Rightarrow> int \<Rightarrow> 'd \<Rightarrow> ((errno + nat) \<times> page \<times> 'd) option"

definition as_update :: "nat \<Rightarrow> (addrspace \<Rightarrow> addrspace) \<Rightarrow> 'd vm \<Rightarrow> 'd vm" where
  "as_update a f s = s\<lparr>spaces := (spaces s)(a := map_option f (spaces s a))\<rparr>"

definition as_lock_acquire :: "nat \<Rightarrow> 'd vm \<Rightarrow> 'd vm option" where
  "as_lock_acquire a s =
     do { as \<leftarrow> spaces s a; kassert (\<not> as_held as); Some (as_update a (\<lambda>as. as\<lparr>as_held := True\<rparr>) s) }"

definition as_lock_release :: "nat \<Rightarrow> 'd vm \<Rightarrow> 'd vm option" where
  "as_lock_release a s =
     do { as \<leftarrow> spaces s a; kassert (as_held as); Some (as_update a (\<lambda>as. as\<lparr>as_held := False\<rparr>) s) }"

definition as_pte_store :: "nat \<Rightarrow> (pte \<Rightarrow> pte) \<Rightarrow> nat \<Rightarrow> 'd vm \<Rightarrow> 'd vm" where
  "as_pte_store a f vaddr = as_update a (\<lambda>as. as\<lparr>as_pt := pte_store f vaddr (as_pt as)\<rparr>)"

section \<open>Swap\<close>

definition swap_alloc_slot :: "'d vm \<Rightarrow> ((errno + int) \<times> 'd vm) option" where
  "swap_alloc_slot s =
     do { (r, b) \<leftarrow> bitmap_alloc (swap_bitmap s);
          let s = s\<lparr>swap_bitmap := b\<rparr>;
          case r of
            Inl _ \<Rightarrow> Some (Inl ENOSPC, s)
          | Inr idx \<Rightarrow> Some (Inr (int idx * int PAGE_SIZE), s) }"

definition swap_free_slot :: "int \<Rightarrow> 'd vm \<Rightarrow> 'd vm option" where
  "swap_free_slot offset s =
     (if offset = SWAP_OFFSET_NONE then Some s
      else do { kassert (offset mod int PAGE_SIZE = 0);
                let idx = nat (offset div int PAGE_SIZE);
                kassert (0 \<le> offset \<and> idx < swap_slots s);
                b \<leftarrow> bitmap_unmark (swap_bitmap s) idx;
                Some (s\<lparr>swap_bitmap := b\<rparr>) })"

definition swap_write_page :: "'d swapdev \<Rightarrow> nat \<Rightarrow> int \<Rightarrow> 'd vm \<Rightarrow> ((errno + unit) \<times> 'd vm) option" where
  "swap_write_page D paddr offset s =
     do { kassert (offset mod int PAGE_SIZE = 0);
          (r, d) \<leftarrow> vop_write D (frames s (PADDR_TO_PPAGE paddr)) offset (dev s);
          let s = s\<lparr>dev := d\<rparr>;
          case r of
            Inl e \<Rightarrow> Some (Inl e, s)
          | Inr resid \<Rightarrow> Some (if resid \<noteq> 0 then Inl EIO else Inr (), s) }"

definition swap_read_page :: "'d swapdev \<Rightarrow> nat \<Rightarrow> int \<Rightarrow> 'd vm \<Rightarrow> ((errno + unit) \<times> 'd vm) option" where
  "swap_read_page D paddr offset s =
     do { kassert (offset mod int PAGE_SIZE = 0);
          let p = PADDR_TO_PPAGE paddr;
          (r, pg, d) \<leftarrow> vop_read D (frames s p) offset (dev s);
          let s = s\<lparr>dev := d, frames := (frames s)(p := pg)\<rparr>;
          case r of
            Inl e \<Rightarrow> Some (Inl e, s)
          | Inr resid \<Rightarrow> Some (if resid \<noteq> 0 then Inl EIO else Inr (), s) }"

section \<open>The TLB\<close>

definition NUM_TLB :: nat where "NUM_TLB = 64"
definition TLBHI_VPAGE :: nat where "TLBHI_VPAGE = 0xfffff000"
definition TLBLO_PPAGE :: nat where "TLBLO_PPAGE = 0xfffff000"
definition TLBLO_DIRTY :: nat where "TLBLO_DIRTY = 0x400"
definition TLBLO_VALID :: nat where "TLBLO_VALID = 0x200"
definition TLBHI_INVALID :: "nat \<Rightarrow> nat" where "TLBHI_INVALID i = (0x80000 + i) * 2 ^ 12"
definition TLBLO_INVALID :: nat where "TLBLO_INVALID = 0"

definition tlb_write :: "nat \<Rightarrow> nat \<Rightarrow> nat \<Rightarrow> 'd vm \<Rightarrow> 'd vm" where
  "tlb_write hi lo i s = s\<lparr>tlb := (tlb s)[i := (hi, lo)]\<rparr>"

text \<open>The first entry for a page; the hardware compares page numbers only.\<close>

definition tlb_probe :: "nat \<Rightarrow> 'd vm \<Rightarrow> nat option" where
  "tlb_probe hi s = find (\<lambda>i. fst (tlb s ! i) AND TLBHI_VPAGE = hi) [0..<length (tlb s)]"

definition vm_tlbshootdown_all :: "'d vm \<Rightarrow> 'd vm" where
  "vm_tlbshootdown_all s = fold (\<lambda>i. tlb_write (TLBHI_INVALID i) TLBLO_INVALID i) [0..<NUM_TLB] s"

definition vm_tlbshootdown :: "nat \<Rightarrow> 'd vm \<Rightarrow> 'd vm" where
  "vm_tlbshootdown vaddr s =
     (case tlb_probe (vaddr AND TLBHI_VPAGE) s of
        Some idx \<Rightarrow> tlb_write (TLBHI_INVALID idx) TLBLO_INVALID idx s
      | None \<Rightarrow> s)"

text \<open>The first slot without a valid entry, or the next victim in turn.\<close>

definition tlb_insert_entry :: "nat \<Rightarrow> nat \<Rightarrow> 'd vm \<Rightarrow> 'd vm" where
  "tlb_insert_entry hi lo s =
     (case find (\<lambda>i. snd (tlb s ! i) AND TLBLO_VALID = 0) [0..<NUM_TLB] of
        Some i \<Rightarrow> tlb_write hi lo i s
      | None \<Rightarrow> (tlb_write hi lo (tlb_next_victim s) s)\<lparr>tlb_next_victim := (tlb_next_victim s + 1) mod NUM_TLB\<rparr>)"

section \<open>Eviction and allocation\<close>

definition set_busy :: "nat \<Rightarrow> bool \<Rightarrow> 'd vm \<Rightarrow> 'd vm option" where
  "set_busy p b s =
     do { e \<leftarrow> cread (entries s) p; Some (s\<lparr>entries := (entries s)[p := e\<lparr>busy := b\<rparr>]\<rparr>) }"

text \<open>Giving up on a candidate: its lock is released and it is no longer busy.\<close>

definition evict_abort :: "nat \<Rightarrow> nat \<Rightarrow> 'd vm \<Rightarrow> 'd vm option" where
  "evict_abort candidate a s =
     do { s \<leftarrow> as_lock_release a s; s \<leftarrow> cm_acquire s; s \<leftarrow> set_busy candidate False s; cm_release s }"

text \<open>Writing a candidate out; the lock of its address space is held.\<close>

definition evict_page :: "'d swapdev \<Rightarrow> nat \<Rightarrow> nat \<Rightarrow> nat \<Rightarrow> 'd vm \<Rightarrow> ((errno + nat) \<times> 'd vm) option" where
  "evict_page D candidate a vaddr s =
     do { (r, s) \<leftarrow> swap_alloc_slot s;
          case r of
            Inl e \<Rightarrow> do { s \<leftarrow> evict_abort candidate a s; Some (Inl e, s) }
          | Inr offset \<Rightarrow>
              do { e \<leftarrow> cread (entries s) candidate;
                   (r, s) \<leftarrow> swap_write_page D (PPAGE_TO_PADDR (pp_num e)) offset s;
                   case r of
                     Inl err \<Rightarrow>
                       do { s \<leftarrow> evict_abort candidate a s; s \<leftarrow> swap_free_slot offset s; Some (Inl err, s) }
                   | Inr _ \<Rightarrow>
                       do { let s = as_pte_store a (\<lambda>pte. pte\<lparr>swap_offset := offset, in_mem := False, dirty := False, ppn := 0\<rparr>) vaddr s;
                            let s = vm_tlbshootdown vaddr s;
                            s \<leftarrow> as_lock_release a s;
                            s \<leftarrow> cm_acquire s;
                            s \<leftarrow> free_ppage (pp_num e) s;
                            s \<leftarrow> cm_release s;
                            Some (Inr candidate, s) } } }"

definition evict_skip :: "cm_entry \<Rightarrow> bool" where
  "evict_skip e \<longleftrightarrow> \<not> used e \<or> kernel_page e \<or> busy e \<or> owner e = None"

primrec evict_loop :: "'d swapdev \<Rightarrow> nat \<Rightarrow> nat list \<Rightarrow> 'd vm \<Rightarrow> ((errno + nat) \<times> 'd vm) option" where
  "evict_loop D tot [] s = do { s \<leftarrow> cm_release s; Some (Inl ENOMEM, s) }"
| "evict_loop D tot (i # is) s =
     (let candidate = first_page s + (cm_evict_index s + i) mod tot
      in do { e \<leftarrow> cread (entries s) candidate;
              if evict_skip e then evict_loop D tot is s
              else do {
                s \<leftarrow> set_busy candidate True s;
                let s = s\<lparr>cm_evict_index := (candidate - first_page s + 1) mod tot\<rparr>;
                s \<leftarrow> cm_release s;
                a \<leftarrow> owner e;
                let vaddr = cm_vaddr e;
                s \<leftarrow> as_lock_acquire a s;
                as \<leftarrow> spaces s a;
                pte \<leftarrow> pagetable_lookup (as_pt as) vaddr;
                case pte of
                  None \<Rightarrow> do { s \<leftarrow> evict_abort candidate a s; evict_loop D tot is s }
                | Some pte \<Rightarrow>
                    if \<not> valid pte \<or> \<not> in_mem pte \<or> ppn pte \<noteq> pp_num e
                    then do { s \<leftarrow> evict_abort candidate a s; evict_loop D tot is s }
                    else evict_page D candidate a vaddr s } })"

definition evict_one :: "'d swapdev \<Rightarrow> 'd vm \<Rightarrow> ((errno + nat) \<times> 'd vm) option" where
  "evict_one D s =
     do { s \<leftarrow> cm_acquire s;
          let tot = last_page s - first_page s;
          evict_loop D tot [0..<tot] s }"

partial_function (option) alloc_kpages :: "'d swapdev \<Rightarrow> nat \<Rightarrow> 'd vm \<Rightarrow> (nat \<times> 'd vm) option" where
  "alloc_kpages D npages s =
     do { (r, s) \<leftarrow> alloc_try npages s;
          case r of
            Some kv \<Rightarrow> Some (kv, s)
          | None \<Rightarrow>
              do { (ev, s) \<leftarrow> evict_one D s;
                   case ev of Inl _ \<Rightarrow> Some (0, s) | Inr _ \<Rightarrow> alloc_kpages D npages s } }"

definition alloc_user_page :: "'d swapdev \<Rightarrow> 'd vm \<Rightarrow> (nat \<times> 'd vm) option" where
  "alloc_user_page D s =
     do { (kv, s) \<leftarrow> alloc_kpages D 1 s;
          if kv \<noteq> 0 then Some (kv, s)
          else do { (ev, s) \<leftarrow> evict_one D s;
                    case ev of Inl _ \<Rightarrow> Some (0, s) | Inr _ \<Rightarrow> alloc_kpages D 1 s } }"

section \<open>Page table operations that allocate\<close>

definition KPAGES_PAGETABLE :: nat where "KPAGES_PAGETABLE = 1"
definition KPAGES_L2_PTABLE :: nat where "KPAGES_L2_PTABLE = 6"

definition zero_pte :: pte where
  "zero_pte = \<lparr>valid = False, in_mem = False, readonly = False, dirty = False, swap_offset = 0, ppn = 0\<rparr>"

definition pagetable_create :: "'d swapdev \<Rightarrow> 'd vm \<Rightarrow> (pagetable option \<times> 'd vm) option" where
  "pagetable_create D s =
     do { (kv, s) \<leftarrow> alloc_kpages D KPAGES_PAGETABLE s;
          Some (if kv = 0 then None else Some \<lparr>pt_addr = kv, l2_entries = replicate L1_SIZE None\<rparr>, s) }"

definition l2_ptable_destroy :: "l2_ptable \<Rightarrow> 'd vm \<Rightarrow> 'd vm option" where
  "l2_ptable_destroy l2 s =
     do { s \<leftarrow> for_each (l2_ptes l2) (\<lambda>e s.
            if valid e \<and> \<not> in_mem e \<and> swap_offset e \<noteq> SWAP_OFFSET_NONE then swap_free_slot (swap_offset e) s
            else Some s) s;
          free_kpages (l2_addr l2) s }"

definition pagetable_destroy :: "pagetable \<Rightarrow> 'd vm \<Rightarrow> 'd vm option" where
  "pagetable_destroy pt s =
     do { s \<leftarrow> for_each (l2_entries pt) (\<lambda>l2 s. case l2 of None \<Rightarrow> Some s | Some l2 \<Rightarrow> l2_ptable_destroy l2 s) s;
          free_kpages (pt_addr pt) s }"

text \<open>
  Copying one entry of a table.  The source is read through its table in the address space \<open>a\<close> when the
  new page has been allocated: the allocation may have evicted it.
\<close>

definition pte_at :: "'d vm \<Rightarrow> nat \<Rightarrow> nat \<Rightarrow> nat \<Rightarrow> pte option" where
  "pte_at s a i j =
     do { as \<leftarrow> spaces s a; l2 \<leftarrow> cread (l2_entries (as_pt as)) i; l2 \<leftarrow> l2; cread (l2_ptes l2) j }"

definition copy_entry :: "'d swapdev \<Rightarrow> nat \<Rightarrow> nat \<Rightarrow> nat \<Rightarrow> 'd vm \<Rightarrow> ((errno + pte) \<times> 'd vm) option" where
  "copy_entry D a i j s =
     do { src \<leftarrow> pte_at s a i j;
          if \<not> valid src then Some (Inr src, s)
          else do {
            (kv, s) \<leftarrow> alloc_kpages D 1 s;
            if kv = 0 then Some (Inl ENOMEM, s)
            else do {
              src \<leftarrow> pte_at s a i j;
              let p = PADDR_TO_PPAGE (KVADDR_TO_PADDR kv);
              let s = s\<lparr>frames := (frames s)(p := frames s (ppn src))\<rparr>;
              Some (Inr \<lparr>valid = True, in_mem = True, readonly = readonly src, dirty = False,
                         swap_offset = swap_offset src, ppn = p\<rparr>, s) } } }"

text \<open>
  The address the clean-up computes is \<^verbatim>\<open>PPAGE_TO_PADDR(PADDR_TO_KVADDR(ppn))\<close>, the two macros the
  wrong way round.
\<close>

definition copy_cleanup :: "pte list \<Rightarrow> 'd vm \<Rightarrow> 'd vm option" where
  "copy_cleanup ps s =
     for_each ps (\<lambda>e s. if valid e \<and> in_mem e then free_kpages (PPAGE_TO_PADDR (PADDR_TO_KVADDR (ppn e))) s else Some s) s"

primrec copy_entries :: "'d swapdev \<Rightarrow> nat \<Rightarrow> nat \<Rightarrow> nat list \<Rightarrow> pte list \<Rightarrow> 'd vm \<Rightarrow> ((errno + pte list) \<times> 'd vm) option" where
  "copy_entries D a i [] done s = Some (Inr done, s)"
| "copy_entries D a i (j # js) done s =
     do { (r, s) \<leftarrow> copy_entry D a i j s;
          case r of
            Inl _ \<Rightarrow> do { s \<leftarrow> copy_cleanup done s; Some (Inl ENOMEM, s) }
          | Inr e \<Rightarrow> copy_entries D a i js (done @ [e]) s }"

definition l2_ptable_copy :: "'d swapdev \<Rightarrow> nat \<Rightarrow> nat \<Rightarrow> 'd vm \<Rightarrow> ((errno + l2_ptable) \<times> 'd vm) option" where
  "l2_ptable_copy D a i s =
     do { (kv, s) \<leftarrow> alloc_kpages D KPAGES_L2_PTABLE s;
          if kv = 0 then Some (Inl ENOMEM, s)
          else do {
            (r, s) \<leftarrow> copy_entries D a i [0..<L2_SIZE] [] s;
            case r of
              Inl e \<Rightarrow> do { s \<leftarrow> free_kpages kv s; Some (Inl e, s) }
            | Inr ps \<Rightarrow> Some (Inr \<lparr>l2_addr = kv, l2_ptes = ps\<rparr>, s) } }"

primrec copy_tables :: "'d swapdev \<Rightarrow> nat \<Rightarrow> nat list \<Rightarrow> l2_ptable option list \<Rightarrow> 'd vm \<Rightarrow> ((errno + l2_ptable option list) \<times> 'd vm) option" where
  "copy_tables D a [] done s = Some (Inr done, s)"
| "copy_tables D a (i # is) done s =
     do { as \<leftarrow> spaces s a;
          l2 \<leftarrow> cread (l2_entries (as_pt as)) i;
          case l2 of
            None \<Rightarrow> copy_tables D a is (done @ [None]) s
          | Some _ \<Rightarrow>
              do { (r, s) \<leftarrow> l2_ptable_copy D a i s;
                   case r of
                     Inl e \<Rightarrow>
                       do { s \<leftarrow> for_each done (\<lambda>l2 s. case l2 of None \<Rightarrow> Some s | Some l2 \<Rightarrow> l2_ptable_destroy l2 s) s;
                            Some (Inl e, s) }
                   | Inr l2 \<Rightarrow> copy_tables D a is (done @ [Some l2]) s } }"

definition pagetable_copy :: "'d swapdev \<Rightarrow> nat \<Rightarrow> 'd vm \<Rightarrow> ((errno + pagetable) \<times> 'd vm) option" where
  "pagetable_copy D a s =
     do { (kv, s) \<leftarrow> alloc_kpages D KPAGES_PAGETABLE s;
          if kv = 0 then Some (Inl ENOMEM, s)
          else do {
            (r, s) \<leftarrow> copy_tables D a [0..<L1_SIZE] [] s;
            case r of
              Inl e \<Rightarrow> do { s \<leftarrow> free_kpages kv s; Some (Inl e, s) }
            | Inr ls \<Rightarrow> Some (Inr \<lparr>pt_addr = kv, l2_entries = ls\<rparr>, s) } }"

text \<open>A missing second-level table is created first, full of zeros.\<close>

definition pagetable_addl2 :: "'d swapdev \<Rightarrow> nat \<Rightarrow> nat \<Rightarrow> 'd vm \<Rightarrow> ((errno + unit) \<times> 'd vm) option" where
  "pagetable_addl2 D a i s =
     do { as \<leftarrow> spaces s a;
          l2 \<leftarrow> cread (l2_entries (as_pt as)) i;
          case l2 of
            Some _ \<Rightarrow> Some (Inr (), s)
          | None \<Rightarrow>
              do { (kv, s) \<leftarrow> alloc_kpages D KPAGES_L2_PTABLE s;
                   if kv = 0 then Some (Inl ENOMEM, s)
                   else Some (Inr (), as_update a (\<lambda>as. as\<lparr>as_pt := (as_pt as)\<lparr>l2_entries :=
                          (l2_entries (as_pt as))[i := Some \<lparr>l2_addr = kv, l2_ptes = replicate L2_SIZE zero_pte\<rparr>]\<rparr>\<rparr>) s) } }"

definition pagetable_insert :: "'d swapdev \<Rightarrow> nat \<Rightarrow> nat \<Rightarrow> nat \<Rightarrow> bool \<Rightarrow> 'd vm \<Rightarrow> ((errno + unit) \<times> 'd vm) option" where
  "pagetable_insert D a vaddr paddr ro s =
     do { kassert (paddr \<noteq> 0);
          (r, s) \<leftarrow> pagetable_addl2 D a (GET_L1_INDEX vaddr) s;
          case r of
            Inl e \<Rightarrow> Some (Inl e, s)
          | Inr _ \<Rightarrow>
              Some (Inr (), as_pte_store a (\<lambda>_. \<lparr>valid = True, in_mem = True, readonly = ro, dirty = False,
                      swap_offset = SWAP_OFFSET_NONE, ppn = PADDR_TO_PPAGE paddr\<rparr>) vaddr s) }"

section \<open>Page faults\<close>

datatype faulttype = VM_FAULT_READ | VM_FAULT_WRITE | VM_FAULT_READONLY

definition USERSTACK :: nat where "USERSTACK = MIPS_KSEG0"

definition in_region :: "region \<Rightarrow> nat \<Rightarrow> bool" where
  "in_region r vaddr \<longleftrightarrow> as_vbase r \<le> vaddr \<and> vaddr < u32 (as_vbase r + u32 (as_npages r * PAGE_SIZE))"

definition is_valid_address :: "addrspace \<Rightarrow> nat \<Rightarrow> bool" where
  "is_valid_address as vaddr \<longleftrightarrow>
     (\<exists>r \<in> set (region_list as). in_region r vaddr) \<or>
     (heap_start as \<le> vaddr \<and> vaddr < heap_end as) \<or> (vaddr < USERSTACK \<and> stack_base as \<le> vaddr)"

definition get_region_permissions :: "addrspace \<Rightarrow> nat \<Rightarrow> errno + bool \<times> bool \<times> bool" where
  "get_region_permissions as vaddr =
     (case find (\<lambda>r. in_region r vaddr) (region_list as) of
        Some r \<Rightarrow> Inr (r_read r \<noteq> 0, r_write r \<noteq> 0, r_exec r \<noteq> 0)
      | None \<Rightarrow>
          if heap_start as \<le> vaddr \<and> vaddr < heap_end as then Inr (True, True, False)
          else if vaddr < USERSTACK \<and> stack_base as \<le> vaddr then Inr (True, True, False)
          else Inl EFAULT)"

text \<open>The first part of \<^verbatim>\<open>vm_fault\<close>: a page that does not exist yet, and one that has been evicted.\<close>

definition fault_new_page :: "'d swapdev \<Rightarrow> nat \<Rightarrow> nat \<Rightarrow> 'd vm \<Rightarrow> ((errno + unit) \<times> 'd vm) option" where
  "fault_new_page D a page_vaddr s =
     do { (kv, s) \<leftarrow> alloc_user_page D s;
          if kv = 0 then Some (Inl ENOMEM, s)
          else do {
            let s = s\<lparr>frames := (frames s)(PADDR_TO_PPAGE (KVADDR_TO_PADDR kv) := (\<lambda>_. 0))\<rparr>;
            as \<leftarrow> spaces s a;
            case get_region_permissions as page_vaddr of
              Inl _ \<Rightarrow> do { s \<leftarrow> free_kpages kv s; Some (Inl EFAULT, s) }
            | Inr (rd, wr, ex) \<Rightarrow>
                do { let paddr = KVADDR_TO_PADDR kv;
                     (r, s) \<leftarrow> pagetable_insert D a page_vaddr paddr (\<not> wr) s;
                     case r of
                       Inl e \<Rightarrow> Some (Inl e, s)
                     | Inr _ \<Rightarrow>
                         do { as \<leftarrow> spaces s a;
                              entry \<leftarrow> pagetable_lookup (as_pt as) page_vaddr;
                              kassert (case entry of None \<Rightarrow> False | Some e \<Rightarrow> valid e \<and> in_mem e);
                              s \<leftarrow> cm_set_user_page (PADDR_TO_PPAGE paddr) a page_vaddr s;
                              Some (Inr (), s) } } } }"

definition fault_swap_in :: "'d swapdev \<Rightarrow> nat \<Rightarrow> nat \<Rightarrow> 'd vm \<Rightarrow> ((errno + unit) \<times> 'd vm) option" where
  "fault_swap_in D a page_vaddr s =
     do { (kv, s) \<leftarrow> alloc_user_page D s;
          if kv = 0 then Some (Inl ENOMEM, s)
          else do {
            as \<leftarrow> spaces s a;
            entry \<leftarrow> pagetable_lookup (as_pt as) page_vaddr;
            entry \<leftarrow> entry;
            if swap_offset entry = SWAP_OFFSET_NONE
            then do { s \<leftarrow> free_kpages kv s; Some (Inl EFAULT, s) }
            else do {
              let paddr = KVADDR_TO_PADDR kv;
              (r, s) \<leftarrow> swap_read_page D paddr (swap_offset entry) s;
              case r of
                Inl e \<Rightarrow> do { s \<leftarrow> free_kpages kv s; Some (Inl e, s) }
              | Inr _ \<Rightarrow>
                  do { let s = as_pte_store a (\<lambda>e. e\<lparr>ppn := PADDR_TO_PPAGE paddr, in_mem := True, dirty := False\<rparr>) page_vaddr s;
                       s \<leftarrow> swap_free_slot (swap_offset entry) s;
                       let s = as_pte_store a (\<lambda>e. e\<lparr>swap_offset := SWAP_OFFSET_NONE\<rparr>) page_vaddr s;
                       s \<leftarrow> cm_set_user_page (PADDR_TO_PPAGE paddr) a page_vaddr s;
                       Some (Inr (), s) } } } }"

definition fault_tlb :: "faulttype \<Rightarrow> nat \<Rightarrow> nat \<Rightarrow> nat \<Rightarrow> 'd vm \<Rightarrow> ((errno + unit) \<times> 'd vm) option" where
  "fault_tlb ft a page_vaddr faultaddress s =
     do { as \<leftarrow> spaces s a;
          entry \<leftarrow> pagetable_lookup (as_pt as) page_vaddr;
          entry \<leftarrow> entry;
          if ft = VM_FAULT_READONLY \<and> readonly entry then Some (Inl EFAULT, s)
          else do {
            let s = (if ft = VM_FAULT_WRITE then as_pte_store a (\<lambda>e. e\<lparr>dirty := True\<rparr>) page_vaddr s else s);
            let hi = faultaddress AND TLBHI_VPAGE;
            let lo = (PPAGE_TO_PADDR (ppn entry) AND TLBLO_PPAGE) OR TLBLO_VALID;
            let lo = (if \<not> readonly entry then lo OR TLBLO_DIRTY else lo);
            Some (Inr (), tlb_insert_entry hi lo s) } }"

definition vm_fault :: "'d swapdev \<Rightarrow> faulttype \<Rightarrow> nat \<Rightarrow> 'd vm \<Rightarrow> ((errno + unit) \<times> 'd vm) option" where
  "vm_fault D ft faultaddress s =
     (case curas s of
        None \<Rightarrow> Some (Inl EFAULT, s)
      | Some a \<Rightarrow>
          do { s \<leftarrow> as_lock_acquire a s;
               as \<leftarrow> spaces s a;
               if \<not> is_valid_address as faultaddress
               then do { s \<leftarrow> as_lock_release a s; Some (Inl EFAULT, s) }
               else do {
                 let page_vaddr = faultaddress AND PAGE_FRAME;
                 entry \<leftarrow> pagetable_lookup (as_pt as) page_vaddr;
                 (r, s) \<leftarrow> (case entry of
                     None \<Rightarrow> fault_new_page D a page_vaddr s
                   | Some e \<Rightarrow>
                       if \<not> valid e then fault_new_page D a page_vaddr s
                       else if \<not> in_mem e then fault_swap_in D a page_vaddr s
                       else Some (Inr (), s));
                 (r, s) \<leftarrow> (case r of
                     Inl e \<Rightarrow> Some (Inl e, s)
                   | Inr _ \<Rightarrow> fault_tlb ft a page_vaddr faultaddress s);
                 s \<leftarrow> as_lock_release a s;
                 Some (r, s) } })"

section \<open>Page table lookups\<close>

definition pt_wf :: "pagetable \<Rightarrow> bool" where
  "pt_wf pt \<longleftrightarrow> length (l2_entries pt) = L1_SIZE \<and>
     (\<forall>i < L1_SIZE. \<forall>l2. l2_entries pt ! i = Some l2 \<longrightarrow> length (l2_ptes l2) = L2_SIZE)"

text \<open>Page addresses of user space.\<close>

definition upage :: "nat \<Rightarrow> bool" where
  "upage va \<longleftrightarrow> va < MIPS_KSEG0 \<and> va mod PAGE_SIZE = 0"

lemma frame_bits: "va < 2 ^ 32 \<Longrightarrow> va AND PAGE_FRAME = va div PAGE_SIZE * PAGE_SIZE"
proof -
  assume "va < 2 ^ 32"
  then have va: "bit va n \<Longrightarrow> n < 32" for n
    by (metis bit_take_bit_iff take_bit_nat_eq_self)
  have f: "PAGE_FRAME = push_bit 12 (mask 20)" by (simp add: PAGE_FRAME_def mask_eq_exp_minus_1 push_bit_eq_mult)
  have "va AND PAGE_FRAME = push_bit 12 (drop_bit 12 va)"
  proof (rule bit_eqI)
    fix n
    show "bit (va AND PAGE_FRAME) n = bit (push_bit 12 (drop_bit 12 va)) n"
      unfolding f using va [of n] by (auto simp: bit_and_iff bit_push_bit_iff bit_mask_iff bit_drop_bit_eq)
  qed
  then show ?thesis by (simp add: PAGE_SIZE_def push_bit_eq_mult drop_bit_eq_div)
qed

lemma index_eq:
  "GET_L1_INDEX va = va div PAGE_SIZE mod 1024"
  "GET_L2_INDEX va = va div PAGE_SIZE div 1024"
proof -
  have f: "L1_PAGE_MASK = push_bit 12 (mask 10)" by (simp add: L1_PAGE_MASK_def mask_eq_exp_minus_1 push_bit_eq_mult)
  have "GET_L1_INDEX va = take_bit 10 (drop_bit 12 va)"
    unfolding GET_L1_INDEX_def f
    by (rule bit_eqI) (auto simp: bit_and_iff bit_push_bit_iff bit_mask_iff bit_drop_bit_eq bit_take_bit_iff)
  then show "GET_L1_INDEX va = va div PAGE_SIZE mod 1024" by (simp add: PAGE_SIZE_def drop_bit_eq_div take_bit_eq_mod)
  show "GET_L2_INDEX va = va div PAGE_SIZE div 1024"
    by (simp add: GET_L2_INDEX_def PAGE_SIZE_def drop_bit_eq_div flip: div_mult2_eq)
qed

lemma upage_index:
  assumes "upage va"
  shows "GET_L1_INDEX va < L1_SIZE" "GET_L2_INDEX va < L2_SIZE"
  using assms
  by (simp_all add: index_eq upage_def L1_SIZE_def L2_SIZE_def MIPS_KSEG0_def PAGE_SIZE_def less_mult_imp_div_less
    flip: div_mult2_eq)

lemma upage_inj:
  assumes "upage va" "upage vb" "GET_L1_INDEX va = GET_L1_INDEX vb" "GET_L2_INDEX va = GET_L2_INDEX vb"
  shows "va = vb"
proof -
  have "va div PAGE_SIZE = vb div PAGE_SIZE" using assms(3,4) unfolding index_eq by (metis div_mult_mod_eq)
  moreover have "va = va div PAGE_SIZE * PAGE_SIZE" "vb = vb div PAGE_SIZE * PAGE_SIZE"
    using assms(1,2) by (auto simp: upage_def)
  ultimately show ?thesis by metis
qed

lemma lookup_eq:
  assumes "pt_wf pt" "upage va"
  shows "pagetable_lookup pt va =
     Some (map_option (\<lambda>l2. l2_ptes l2 ! GET_L2_INDEX va) (l2_entries pt ! GET_L1_INDEX va))"
  using assms upage_index [OF assms(2)] by (auto simp: pagetable_lookup_def pt_wf_def split: option.split)

lemma pt_wf_store: "pt_wf pt \<Longrightarrow> pt_wf (pte_store f va pt)"
  by (cases "GET_L1_INDEX va < L1_SIZE")
    (auto simp: pt_wf_def pte_store_def nth_list_update split: option.split if_splits)

lemma lookup_store:
  assumes "pt_wf pt" "upage va" "upage vb"
  shows "pagetable_lookup (pte_store f va pt) vb =
     (if vb = va then map_option (map_option f) (pagetable_lookup pt va) else pagetable_lookup pt vb)"
proof (cases "l2_entries pt ! GET_L1_INDEX va")
  case None
  then show ?thesis by (simp add: pte_store_def lookup_eq [OF assms(1,2)])
next
  case (Some l2)
  note ix = upage_index [OF assms(2)] upage_index [OF assms(3)]
  have len: "length (l2_entries pt) = L1_SIZE" "length (l2_ptes l2) = L2_SIZE"
    using assms(1) Some ix(1) by (auto simp: pt_wf_def)
  let ?pt = "pt\<lparr>l2_entries := (l2_entries pt)[GET_L1_INDEX va :=
      Some (l2\<lparr>l2_ptes := (l2_ptes l2)[GET_L2_INDEX va := f (l2_ptes l2 ! GET_L2_INDEX va)]\<rparr>)]\<rparr>"
  have st: "pte_store f va pt = ?pt" using Some by (simp add: pte_store_def)
  have "pagetable_lookup ?pt vb =
      Some (map_option (\<lambda>l2. l2_ptes l2 ! GET_L2_INDEX vb) (l2_entries ?pt ! GET_L1_INDEX vb))"
    using lookup_eq [OF pt_wf_store [OF assms(1), of f va] assms(3)] unfolding st .
  then show ?thesis
    unfolding st lookup_eq [OF assms(1,2)] lookup_eq [OF assms(1,3)]
    using Some ix len upage_inj [OF assms(2,3)] by (auto simp: nth_list_update)
qed

section \<open>What users see\<close>

definition pte_of :: "'d vm \<Rightarrow> nat \<Rightarrow> nat \<Rightarrow> pte option" where
  "pte_of s a va = do { as \<leftarrow> spaces s a; e \<leftarrow> pagetable_lookup (as_pt as) va; e }"

lemma pte_of_store:
  assumes "\<forall>as. spaces s a = Some as \<longrightarrow> pt_wf (as_pt as)" "upage va" "upage vb"
  shows "pte_of (as_pte_store a f va s) b vb =
     (if b = a \<and> vb = va then map_option f (pte_of s a va) else pte_of s b vb)"
  using assms by (auto simp: pte_of_def as_pte_store_def as_update_def lookup_store lookup_eq split: bind_splits)

lemma pte_of_update:
  assumes "\<And>as. as_pt (f as) = as_pt as"
  shows "pte_of (as_update a f s) b vb = pte_of s b vb"
  using assms by (auto simp: pte_of_def as_update_def split: bind_splits)

end
