(* ===== verification/Kern_Vm_Inv.thy ===== *)
theory Kern_Vm_Inv
  imports Kern_Vm
begin

text \<open>
  What the virtual memory system promises its users: eviction, allocation and page faults never change
  the contents of a user page, whether it is in memory or on the swap device.  The disk enters through
  the locale \<open>swap_device\<close>.
\<close>

section \<open>The invariant\<close>

definition resident :: "'d vm \<Rightarrow> nat \<Rightarrow> nat \<Rightarrow> nat \<Rightarrow> bool" where
  "resident s a va p \<longleftrightarrow> upage va \<and> (\<exists>e. pte_of s a va = Some e \<and> valid e \<and> in_mem e \<and> ppn e = p)"

definition swapped :: "'d vm \<Rightarrow> nat \<Rightarrow> nat \<Rightarrow> nat \<Rightarrow> bool" where
  "swapped s a va i \<longleftrightarrow> upage va \<and> (\<exists>e. pte_of s a va = Some e \<and> valid e \<and> \<not> in_mem e \<and> swap_offset e = int i * int PAGE_SIZE)"

text \<open>
  Every page of a user is in one frame or one slot of its own; the frames that may be evicted know
  their owner; nothing is locked.
\<close>

definition vm_inv :: "'d vm \<Rightarrow> bool" where
  "vm_inv s \<longleftrightarrow>
     cm_wf s \<and> \<not> cm_lock s \<and> bitmap_ok (swap_bitmap s) \<and> bm_nbits (swap_bitmap s) = swap_slots s \<and>
     (\<forall>a as. spaces s a = Some as \<longrightarrow> pt_wf (as_pt as)) \<and>
     (\<forall>p < last_page s. used (ent s p) \<longrightarrow> \<not> kernel_page (ent s p) \<longrightarrow>
        \<not> busy (ent s p) \<and> (\<exists>a. owner (ent s p) = Some a \<and> resident s a (cm_vaddr (ent s p)) p)) \<and>
     (\<forall>a va p. resident s a va p \<longrightarrow> kblock s p 1) \<and>
     (\<forall>a va b vb p. resident s a va p \<longrightarrow> resident s b vb p \<longrightarrow> a = b \<and> va = vb) \<and>
     (\<forall>a va e. upage va \<longrightarrow> pte_of s a va = Some e \<longrightarrow> valid e \<longrightarrow> \<not> in_mem e \<longrightarrow>
        (\<exists>i \<in> bm_marked (swap_bitmap s). swap_offset e = int i * int PAGE_SIZE)) \<and>
     (\<forall>a va b vb i. swapped s a va i \<longrightarrow> swapped s b vb i \<longrightarrow> a = b \<and> va = vb)"

lemma vm_invD:
  assumes "vm_inv s"
  shows "cm_wf s" "\<not> cm_lock s" "bitmap_ok (swap_bitmap s)" "bm_nbits (swap_bitmap s) = swap_slots s"
    "spaces s a = Some as \<Longrightarrow> pt_wf (as_pt as)"
    "p < last_page s \<Longrightarrow> used (ent s p) \<Longrightarrow> \<not> kernel_page (ent s p) \<Longrightarrow>
        \<not> busy (ent s p) \<and> (\<exists>a. owner (ent s p) = Some a \<and> resident s a (cm_vaddr (ent s p)) p)"
    "resident s a va p \<Longrightarrow> kblock s p 1"
    "resident s a va p \<Longrightarrow> resident s b vb p \<Longrightarrow> a = b \<and> va = vb"
    "upage va \<Longrightarrow> pte_of s a va = Some e \<Longrightarrow> valid e \<Longrightarrow> \<not> in_mem e \<Longrightarrow>
        \<exists>i \<in> bm_marked (swap_bitmap s). swap_offset e = int i * int PAGE_SIZE"
    "swapped s a va i \<Longrightarrow> swapped s b vb i \<Longrightarrow> a = b \<and> va = vb"
  using assms unfolding vm_inv_def by blast+

text \<open>The invariant only depends on part of the state.\<close>

lemma pte_of_cong: "spaces s' = spaces s \<Longrightarrow> pte_of s' = pte_of s"
  by (intro ext) (simp add: pte_of_def)

lemma resident_cong: "pte_of s' = pte_of s \<Longrightarrow> resident s' = resident s" "pte_of s' = pte_of s \<Longrightarrow> swapped s' = swapped s"
  by (intro ext, simp add: resident_def swapped_def)+

lemma pte_of_frame [simp]:
  "pte_of (entries_update f1 s) = pte_of s" "pte_of (cm_page_count_update f2 s) = pte_of s"
  "pte_of (cm_lock_update f3 s) = pte_of s" "pte_of (cm_evict_index_update f2 s) = pte_of s"
  "pte_of (frames_update f4 s) = pte_of s" "pte_of (swap_bitmap_update f5 s) = pte_of s"
  "pte_of (dev_update f6 s) = pte_of s" "pte_of (tlb_update f7 s) = pte_of s" "pte_of (tlb_next_victim_update f2 s) = pte_of s"
  by (rule pte_of_cong; simp)+

lemma cm_wf_cong:
  "entries s' = entries s \<Longrightarrow> cm_page_count s' = cm_page_count s \<Longrightarrow> first_page s' = first_page s \<Longrightarrow>
   last_page s' = last_page s \<Longrightarrow> cm_wf s' = cm_wf s"
  "entries s' = entries s \<Longrightarrow> first_page s' = first_page s \<Longrightarrow> last_page s' = last_page s \<Longrightarrow> kblock s' p n = kblock s p n"
  by (simp_all add: cm_wf_def kblock_def)

lemma vm_inv_cong:
  assumes "entries s' = entries s" "cm_page_count s' = cm_page_count s" "first_page s' = first_page s"
    "last_page s' = last_page s" "cm_lock s' = cm_lock s" "swap_bitmap s' = swap_bitmap s" "swap_slots s' = swap_slots s"
    "spaces s' = spaces s"
  shows "vm_inv s' = vm_inv s"
  unfolding vm_inv_def
  using assms pte_of_cong [of s' s] resident_cong [of s' s] cm_wf_cong [of s' s] by simp

text \<open>The contents of a user page and whether it is read-only.\<close>

definition view :: "('d \<Rightarrow> nat \<Rightarrow> page) \<Rightarrow> 'd vm \<Rightarrow> nat \<Rightarrow> nat \<Rightarrow> (page \<times> bool) option" where
  "view slot s a va =
     (case pte_of s a va of
        None \<Rightarrow> None
      | Some e \<Rightarrow>
          if valid e
          then Some (if in_mem e then frames s (ppn e) else slot (dev s) (nat (swap_offset e div int PAGE_SIZE)), readonly e)
          else None)"

text \<open>
  What the operations leave alone: every user page, every kernel page, and everything about an address
  space except where its pages are.
\<close>

definition as_same :: "addrspace \<Rightarrow> addrspace \<Rightarrow> bool" where
  "as_same x y \<longleftrightarrow> as_held x = as_held y \<and> region_list x = region_list y \<and> heap_start x = heap_start y \<and>
     heap_end x = heap_end y \<and> stack_base x = stack_base y"

definition vm_keeps :: "('d \<Rightarrow> nat \<Rightarrow> page) \<Rightarrow> nat set \<Rightarrow> 'd vm \<Rightarrow> 'd vm \<Rightarrow> bool" where
  "vm_keeps slot X s s' \<longleftrightarrow>
     (\<forall>a va. upage va \<longrightarrow> view slot s' a va = view slot s a va) \<and>
     first_page s' = first_page s \<and> last_page s' = last_page s \<and> curas s' = curas s \<and>
     (\<forall>p < last_page s. p \<notin> X \<longrightarrow> used (ent s p) \<longrightarrow> kernel_page (ent s p) \<longrightarrow>
        ent s' p = ent s p \<and> frames s' p = frames s p) \<and>
     (\<forall>a. rel_option as_same (spaces s' a) (spaces s a)) \<and>
     (\<forall>p n. kblock s p n \<longrightarrow> (\<forall>q. p \<le> q \<longrightarrow> q < p + n \<longrightarrow> q \<notin> X \<and> kernel_page (ent s q)) \<longrightarrow> kblock s' p n) \<and>
     (\<forall>a va p. resident s' a va p \<longrightarrow> resident s a va p) \<and>
     (\<forall>va. upage va \<longrightarrow> va \<in> fst ` set (tlb s') \<longrightarrow> va \<in> fst ` set (tlb s))"

lemma as_same_refl [simp]: "as_same x x"
  by (simp add: as_same_def)

lemma rel_as_same_refl [simp]: "rel_option as_same x x"
  by (cases x) simp_all

lemma vm_keeps_refl [simp]: "vm_keeps slot X s s"
  by (simp add: vm_keeps_def)

lemma vm_keepsD:
  assumes "vm_keeps slot X s s'"
  shows "upage va \<Longrightarrow> view slot s' a va = view slot s a va"
    "first_page s' = first_page s" "last_page s' = last_page s" "curas s' = curas s"
    "p < last_page s \<Longrightarrow> p \<notin> X \<Longrightarrow> used (ent s p) \<Longrightarrow> kernel_page (ent s p) \<Longrightarrow> ent s' p = ent s p"
    "rel_option as_same (spaces s' a) (spaces s a)"
    "kblock s p n \<Longrightarrow> (\<And>q. p \<le> q \<Longrightarrow> q < p + n \<Longrightarrow> q \<notin> X \<and> kernel_page (ent s q)) \<Longrightarrow> kblock s' p n"
    "resident s' a va p \<Longrightarrow> resident s a va p"
    "upage va \<Longrightarrow> va \<in> fst ` set (tlb s') \<Longrightarrow> va \<in> fst ` set (tlb s)"
    "p < last_page s \<Longrightarrow> p \<notin> X \<Longrightarrow> used (ent s p) \<Longrightarrow> kernel_page (ent s p) \<Longrightarrow> frames s' p = frames s p"
  using assms by (simp_all add: vm_keeps_def)

lemma vm_keeps_trans: "vm_keeps slot X s s' \<Longrightarrow> vm_keeps slot Y s' s'' \<Longrightarrow> vm_keeps slot (X \<union> Y) s s''"
proof -
  assume 1: "vm_keeps slot X s s'" and 2: "vm_keeps slot Y s' s''"
  have "rel_option as_same (spaces s'' a) (spaces s a)" for a
  proof -
    have "rel_option as_same (spaces s'' a) (spaces s' a)" "rel_option as_same (spaces s' a) (spaces s a)"
      using 1 2 by (simp_all add: vm_keeps_def)
    then show ?thesis by (cases "spaces s'' a"; cases "spaces s' a"; cases "spaces s a") (simp_all add: as_same_def)
  qed
  moreover have "ent s'' p = ent s p \<and> frames s'' p = frames s p"
    if "p < last_page s" "p \<notin> X \<union> Y" "used (ent s p)" "kernel_page (ent s p)" for p
  proof -
    have "ent s' p = ent s p" "frames s' p = frames s p" "last_page s' = last_page s"
      using that vm_keepsD(3,5,10) [OF 1] by simp_all
    then show ?thesis using vm_keepsD(5,10) [OF 2, of p] that by simp
  qed
  moreover have "kblock s'' p n" if b: "kblock s p n" and k: "\<forall>q. p \<le> q \<longrightarrow> q < p + n \<longrightarrow> q \<notin> X \<union> Y \<and> kernel_page (ent s q)" for p n
  proof -
    have e: "ent s' q = ent s q" if "p \<le> q" "q < p + n" for q
      using b k that by (intro vm_keepsD(5) [OF 1]) (auto simp: kblock_def)
    show ?thesis
    proof (rule vm_keepsD(7) [OF 2])
      show "kblock s' p n" using k by (intro vm_keepsD(7) [OF 1 b]) blast
      show "q \<notin> Y \<and> kernel_page (ent s' q)" if "p \<le> q" "q < p + n" for q using e [OF that] k that by simp
    qed
  qed
  ultimately show ?thesis using 1 2 unfolding vm_keeps_def by simp
qed

text \<open>Pages that were not the kernel's do not count.\<close>

lemma vm_keeps_drop:
  assumes k: "vm_keeps slot X s s'"
    and d: "\<And>p. p \<in> X \<Longrightarrow> p \<notin> Y \<Longrightarrow> p < last_page s \<Longrightarrow> \<not> (used (ent s p) \<and> kernel_page (ent s p))"
  shows "vm_keeps slot Y s s'"
proof -
  have "kblock s' p n" if b: "kblock s p n" and q: "\<forall>q. p \<le> q \<longrightarrow> q < p + n \<longrightarrow> q \<notin> Y \<and> kernel_page (ent s q)" for p n
  proof -
    have "q \<notin> X \<and> kernel_page (ent s q)" if "p \<le> q" "q < p + n" for q
      using d [of q] b q that unfolding kblock_def by auto
    then show ?thesis by (rule vm_keepsD(7) [OF k b])
  qed
  moreover have "ent s' p = ent s p \<and> frames s' p = frames s p"
    if "p < last_page s" "p \<notin> Y" "used (ent s p)" "kernel_page (ent s p)" for p
    using d [of p] that by (intro conjI vm_keepsD(5,10) [OF k]) blast+
  ultimately show ?thesis using k unfolding vm_keeps_def by simp
qed

section \<open>The TLB\<close>

definition tlblo :: "pte \<Rightarrow> nat" where
  "tlblo e = (let lo = (PPAGE_TO_PADDR (ppn e) AND TLBLO_PPAGE) OR TLBLO_VALID
              in if \<not> readonly e then lo OR TLBLO_DIRTY else lo)"

text \<open>
  Every valid entry maps a page of the current address space to the frame that page is in, and permits
  writing exactly when the page does; no page has two entries.
\<close>

definition tlb_ok :: "'d vm \<Rightarrow> bool" where
  "tlb_ok s \<longleftrightarrow> length (tlb s) = NUM_TLB \<and> tlb_next_victim s < NUM_TLB \<and> distinct (map fst (tlb s)) \<and>
     (\<forall>i < NUM_TLB. if snd (tlb s ! i) AND TLBLO_VALID = 0 then fst (tlb s ! i) = TLBHI_INVALID i
       else \<exists>a e. curas s = Some a \<and> upage (fst (tlb s ! i)) \<and> pte_of s a (fst (tlb s ! i)) = Some e \<and>
              valid e \<and> in_mem e \<and> snd (tlb s ! i) = tlblo e)"

lemma tlblo_valid: "tlblo e AND TLBLO_VALID \<noteq> 0"
proof
  assume "tlblo e AND TLBLO_VALID = 0"
  then have "\<not> bit (tlblo e AND TLBLO_VALID) 9" by simp
  moreover have "bit TLBLO_VALID 9" by (simp add: TLBLO_VALID_def bit_iff_odd)
  then have "bit (tlblo e AND TLBLO_VALID) 9" by (simp add: tlblo_def bit_simps Let_def)
  ultimately show False by blast
qed

lemma tlb_okD:
  assumes "tlb_ok s"
  shows "length (tlb s) = 64" "tlb_next_victim s < 64" "distinct (map fst (tlb s))"
    "i < 64 \<Longrightarrow> snd (tlb s ! i) AND TLBLO_VALID = 0 \<Longrightarrow> fst (tlb s ! i) = TLBHI_INVALID i"
    "i < 64 \<Longrightarrow> snd (tlb s ! i) AND TLBLO_VALID \<noteq> 0 \<Longrightarrow>
       \<exists>a e. curas s = Some a \<and> upage (fst (tlb s ! i)) \<and> pte_of s a (fst (tlb s ! i)) = Some e \<and>
          valid e \<and> in_mem e \<and> snd (tlb s ! i) = tlblo e"
  using assms unfolding tlb_ok_def NUM_TLB_def by (auto split: if_splits)

lemma tlb_okI:
  assumes "length (tlb s) = 64" "tlb_next_victim s < 64" "distinct (map fst (tlb s))"
    and "\<And>i. i < 64 \<Longrightarrow> if snd (tlb s ! i) AND TLBLO_VALID = 0 then fst (tlb s ! i) = TLBHI_INVALID i
       else \<exists>a e. curas s = Some a \<and> upage (fst (tlb s ! i)) \<and> pte_of s a (fst (tlb s ! i)) = Some e \<and>
              valid e \<and> in_mem e \<and> snd (tlb s ! i) = tlblo e"
  shows "tlb_ok s"
  using assms unfolding tlb_ok_def NUM_TLB_def by blast

lemma upage_and: "upage va \<Longrightarrow> va AND TLBHI_VPAGE = va"
  using frame_bits [of va] by (auto simp: upage_def TLBHI_VPAGE_def PAGE_FRAME_def MIPS_KSEG0_def)

lemma invalid_not_upage: "\<not> upage (TLBHI_INVALID i)"
  by (simp add: upage_def TLBHI_INVALID_def MIPS_KSEG0_def)

text \<open>The TLB only depends on its own entries and on the current address space.\<close>

lemma tlb_ok_cong:
  assumes "tlb s' = tlb s" "tlb_next_victim s' = tlb_next_victim s" "curas s' = curas s"
    and "\<And>a va e. curas s = Some a \<Longrightarrow> upage va \<Longrightarrow> pte_of s a va = Some e \<Longrightarrow> valid e \<Longrightarrow> in_mem e \<Longrightarrow>
       \<exists>e'. pte_of s' a va = Some e' \<and> valid e' \<and> in_mem e' \<and> tlblo e' = tlblo e"
    and "tlb_ok s"
  shows "tlb_ok s'"
proof -
  have "\<exists>a e. curas s = Some a \<and> upage (fst (tlb s ! i)) \<and> pte_of s' a (fst (tlb s ! i)) = Some e \<and> valid e \<and> in_mem e \<and>
      snd (tlb s ! i) = tlblo e" if "i < 64" "snd (tlb s ! i) AND TLBLO_VALID \<noteq> 0" for i
    using tlb_okD(5) [OF assms(5) that] assms(4) by metis
  then show ?thesis using tlb_okD(1-4) [OF assms(5)] assms(1-3) by (simp add: tlb_ok_def NUM_TLB_def)
qed

section \<open>Giving pages to the kernel and taking them back\<close>

lemma kblock_alloc_other:
  assumes "kblock s p m" "\<forall>q. st \<le> q \<longrightarrow> q < st + n \<longrightarrow> \<not> used (ent s q)" "cm_wf s" "st + n \<le> last_page s"
  shows "kblock (alloc_state st n s) p m"
proof -
  have p: "0 < m" "first_page s \<le> p" "p + m \<le> last_page s"
    and u: "\<And>q. p \<le> q \<Longrightarrow> q < p + m \<Longrightarrow> used (ent s q) \<and> (kmalloc_end (ent s q) \<longleftrightarrow> q = p + m - 1)"
    and h: "p = first_page s \<or> \<not> used (ent s (p - 1)) \<or> kmalloc_end (ent s (p - 1))"
    using assms(1) unfolding kblock_def by auto
  let ?E = "map_range st n (alloc_entry (st + n - 1)) (entries s)"
  note len = cm_wfD(1,2) [OF assms(3)]
  have out: "\<not> (st \<le> q \<and> q < st + n)" if "p \<le> q" "q < p + m" for q using assms(2) u [OF that] by blast
  have "p = first_page s \<or> \<not> used (?E ! (p - 1)) \<or> kmalloc_end (?E ! (p - 1))"
  proof (cases "st \<le> p - 1 \<and> p - 1 < st + n")
    case True
    then have "p - 1 = st + n - 1" using out [of p] p len(2) by linarith
    then show ?thesis using True p len(1) by simp
  next
    case False
    then show ?thesis using h p len(1) by auto
  qed
  moreover have "?E ! q = ent s q" if "p \<le> q" "q < p + m" for q using out [OF that] that p len(1) by auto
  ultimately show ?thesis unfolding kblock_def using p u by simp
qed

lemma kblock_free_other:
  assumes "kblock s p m" "\<And>q. p \<le> q \<Longrightarrow> q < p + m \<Longrightarrow> \<not> (st \<le> q \<and> q < st + n)" "cm_wf s"
  shows "kblock (free_state st n s) p m"
proof -
  have p: "0 < m" "first_page s \<le> p" "p + m \<le> last_page s"
    and u: "\<And>q. p \<le> q \<Longrightarrow> q < p + m \<Longrightarrow> used (ent s q) \<and> (kmalloc_end (ent s q) \<longleftrightarrow> q = p + m - 1)"
    and h: "p = first_page s \<or> \<not> used (ent s (p - 1)) \<or> kmalloc_end (ent s (p - 1))"
    using assms(1) unfolding kblock_def by auto
  let ?E = "map_range st n (\<lambda>_. freed_entry) (entries s)"
  note len = cm_wfD(1) [OF assms(3)]
  have "p = first_page s \<or> \<not> used (?E ! (p - 1)) \<or> kmalloc_end (?E ! (p - 1))"
    using h p len by auto
  moreover have "?E ! q = ent s q" if "p \<le> q" "q < p + m" for q using assms(2) [OF that] that p len by auto
  ultimately show ?thesis unfolding kblock_def using p u by simp
qed

lemma alloc_state_keeps:
  assumes inv: "vm_inv s" and r: "0 < n" "first_page s \<le> st" "st + n \<le> last_page s"
    and free: "\<forall>p. st \<le> p \<longrightarrow> p < st + n \<longrightarrow> \<not> used (ent s p)"
  shows "vm_inv (alloc_state st n s)" "vm_keeps slot {} s (alloc_state st n s)"
proof -
  note i = vm_invD [OF inv] and wf = alloc_state_wf [OF vm_invD(1) [OF inv] r free]
  let ?s = "alloc_state st n s"
  have pt: "pte_of ?s = pte_of s" by (rule pte_of_cong) simp
  note rs = resident_cong [OF pt]
  have E: "ent ?s p = (if st \<le> p \<and> p < st + n then alloc_entry (st + n - 1) p (ent s p) else ent s p)" if "p < last_page s" for p
    using that cm_wfD(1) [OF i(1)] by simp
  have kb: "kblock ?s p 1" if "resident s a va p" for a va p
    by (rule kblock_alloc_other [OF i(7) [OF that] free i(1) r(3)])
  have us: "\<not> busy (ent ?s p) \<and> (\<exists>a. owner (ent ?s p) = Some a \<and> resident s a (cm_vaddr (ent ?s p)) p)"
    if "p < last_page s" "used (ent ?s p)" "\<not> kernel_page (ent ?s p)" for p
  proof -
    have "\<not> (st \<le> p \<and> p < st + n)" using that E by auto
    then have "ent ?s p = ent s p" using E that(1) by auto
    then show ?thesis using i(6) that by simp
  qed
  show "vm_inv ?s" unfolding vm_inv_def pt rs
    using wf i(2-5) kb us i(8-10) by auto
  have "view slot ?s a va = view slot s a va" for a va by (simp add: view_def split: option.split)
  moreover have "ent ?s p = ent s p" if "p < last_page s" "used (ent s p)" for p
    using E that free by auto
  moreover have "kblock ?s p m" if "kblock s p m" for p m by (rule kblock_alloc_other [OF that free i(1) r(3)])
  ultimately show "vm_keeps slot {} s ?s" using rs(1) by (simp add: vm_keeps_def)
qed

lemma free_state_keeps:
  assumes inv: "vm_inv s" and b: "kblock s p n" and nr: "\<And>q a va. p \<le> q \<Longrightarrow> q < p + n \<Longrightarrow> \<not> resident s a va q"
  shows "vm_inv (free_state p n s)" "vm_keeps slot {p..<p + n} s (free_state p n s)"
proof -
  note i = vm_invD [OF inv] and wf = free_kpages_ok(2) [OF vm_invD(1) [OF inv] b]
  let ?s = "free_state p n s"
  have E: "ent ?s q = (if p \<le> q \<and> q < p + n then freed_entry (ent s q) else ent s q)" if "q < last_page s" for q
    using that cm_wfD(1) [OF i(1)] by simp
  note rs = resident_cong [of ?s s]
  have kb: "kblock ?s q 1" if "resident s a va q" for a va q
    using that nr by (intro kblock_free_other [OF i(7) [OF that] _ i(1)]) (auto simp: less_Suc_eq_le)
  have us: "\<not> busy (ent ?s q) \<and> (\<exists>a. owner (ent ?s q) = Some a \<and> resident s a (cm_vaddr (ent ?s q)) q)"
    if "q < last_page s" "used (ent ?s q)" "\<not> kernel_page (ent ?s q)" for q
  proof -
    have "\<not> (p \<le> q \<and> q < p + n)" using that E by auto
    then have "ent ?s q = ent s q" using E that(1) by auto
    then show ?thesis using i(6) that by simp
  qed
  show "vm_inv ?s" unfolding vm_inv_def
    using wf i(2-5) kb us i(8-10) rs by auto
  have "view slot ?s a va = view slot s a va" for a va by (simp add: view_def split: option.split)
  moreover have "ent ?s q = ent s q" if "q < last_page s" "q \<notin> {p..<p + n}" for q
    using E that by auto
  moreover have "kblock ?s q m" if "kblock s q m" "\<forall>x. q \<le> x \<longrightarrow> x < q + m \<longrightarrow> x \<notin> {p..<p + n} \<and> kernel_page (ent s x)" for q m
    using that(2) by (intro kblock_free_other [OF that(1) _ i(1)]) auto
  ultimately show "vm_keeps slot {p..<p + n} s ?s" using rs(1) by (simp add: vm_keeps_def)
qed

section \<open>Eviction\<close>

locale swap_device =
  fixes D :: "'d swapdev" and slot :: "'d \<Rightarrow> nat \<Rightarrow> page"
  assumes write_ok: "vop_write D pg (int i * int PAGE_SIZE) d = Some (Inr 0, d') \<Longrightarrow> slot d' i = pg"
    and write_other: "vop_write D pg (int i * int PAGE_SIZE) d = Some (r, d') \<Longrightarrow> j \<noteq> i \<Longrightarrow> slot d' j = slot d j"
    and write_returns: "\<exists>r d'. vop_write D pg (int i * int PAGE_SIZE) d = Some (r, d')"
    and read_ok: "vop_read D pg0 (int i * int PAGE_SIZE) d = Some (Inr 0, pg, d') \<Longrightarrow> pg = slot d i"
    and read_keeps: "vop_read D pg0 (int i * int PAGE_SIZE) d = Some (r, pg, d') \<Longrightarrow> slot d' = slot d"
    and read_returns: "\<exists>r pg d'. vop_read D pg0 (int i * int PAGE_SIZE) d = Some (r, pg, d')"
begin

text \<open>The state after the page of \<open>a\<close> at \<open>va\<close> in frame \<open>c\<close> has been written to slot \<open>i\<close>.\<close>

definition evicted :: "nat \<Rightarrow> nat \<Rightarrow> nat \<Rightarrow> nat \<Rightarrow> bitmap \<Rightarrow> 'd \<Rightarrow> 'd vm \<Rightarrow> 'd vm" where
  "evicted c a va i b d s =
     free_state c 1 (vm_tlbshootdown va (as_pte_store a
       (\<lambda>e. e\<lparr>swap_offset := int i * int PAGE_SIZE, in_mem := False, dirty := False, ppn := 0\<rparr>) va (s\<lparr>swap_bitmap := b, dev := d\<rparr>)))"

definition shot :: "nat \<Rightarrow> (nat \<times> nat) list \<Rightarrow> (nat \<times> nat) list" where
  "shot va t = (case find (\<lambda>i. fst (t ! i) AND TLBHI_VPAGE = va AND TLBHI_VPAGE) [0..<length t] of
     Some i \<Rightarrow> t[i := (TLBHI_INVALID i, TLBLO_INVALID)] | None \<Rightarrow> t)"

lemma shoot_eq: "vm_tlbshootdown va s = s\<lparr>tlb := shot va (tlb s)\<rparr>"
  by (simp add: vm_tlbshootdown_def tlb_probe_def tlb_write_def shot_def split: option.split)

lemma shot_keys: "upage x \<Longrightarrow> x \<in> fst ` set (shot va t) \<Longrightarrow> x \<in> fst ` set t"
proof -
  assume x: "upage x" "x \<in> fst ` set (shot va t)"
  then have ne: "x \<noteq> TLBHI_INVALID i" for i using invalid_not_upage by metis
  show ?thesis using x(2) unfolding shot_def
    by (auto split: option.splits dest!: set_mp [OF set_update_subset_insert] simp: ne ne [symmetric])
qed

lemma shoot_frame [simp]:
  "entries (vm_tlbshootdown va s) = entries s" "cm_page_count (vm_tlbshootdown va s) = cm_page_count s"
  "first_page (vm_tlbshootdown va s) = first_page s" "last_page (vm_tlbshootdown va s) = last_page s"
  "cm_lock (vm_tlbshootdown va s) = cm_lock s" "swap_bitmap (vm_tlbshootdown va s) = swap_bitmap s"
  "swap_slots (vm_tlbshootdown va s) = swap_slots s" "spaces (vm_tlbshootdown va s) = spaces s"
  "frames (vm_tlbshootdown va s) = frames s" "dev (vm_tlbshootdown va s) = dev s" "curas (vm_tlbshootdown va s) = curas s"
  "tlb_next_victim (vm_tlbshootdown va s) = tlb_next_victim s"
  by (auto simp: vm_tlbshootdown_def tlb_write_def split: option.split)

lemma pte_of_shoot [simp]: "pte_of (vm_tlbshootdown va s) = pte_of s"
  by (rule pte_of_cong) simp

lemma as_pte_store_frame [simp]:
  "entries (as_pte_store a f va s) = entries s" "cm_page_count (as_pte_store a f va s) = cm_page_count s"
  "first_page (as_pte_store a f va s) = first_page s" "last_page (as_pte_store a f va s) = last_page s"
  "cm_lock (as_pte_store a f va s) = cm_lock s" "swap_bitmap (as_pte_store a f va s) = swap_bitmap s"
  "swap_slots (as_pte_store a f va s) = swap_slots s" "frames (as_pte_store a f va s) = frames s"
  "dev (as_pte_store a f va s) = dev s" "curas (as_pte_store a f va s) = curas s" "tlb (as_pte_store a f va s) = tlb s"
  "tlb_next_victim (as_pte_store a f va s) = tlb_next_victim s"
  by (simp_all add: as_pte_store_def as_update_def)

lemma rel_as_store: "rel_option as_same (spaces (as_pte_store a f va s) b) (spaces s b)"
  by (auto simp: as_pte_store_def as_update_def as_same_def option.rel_map intro: option.rel_refl_strong)

lemma evicted_keeps:
  assumes inv: "vm_inv s" and c: "resident s a va c"
    and i: "i \<notin> bm_marked (swap_bitmap s)" "bitmap_ok b" "bm_nbits b = bm_nbits (swap_bitmap s)"
      "bm_marked b = insert i (bm_marked (swap_bitmap s))"
    and w: "vop_write D (frames s c) (int i * int PAGE_SIZE) (dev s) = Some (Inr 0, d)"
  shows "vm_inv (evicted c a va i b d s) \<and> vm_keeps slot {c} s (evicted c a va i b d s)"
proof -
  note v = vm_invD [OF inv]
  obtain e where va: "upage va" and e: "pte_of s a va = Some e" "valid e" "in_mem e" "ppn e = c"
    using c unfolding resident_def by blast
  let ?e = "e\<lparr>swap_offset := int i * int PAGE_SIZE, in_mem := False, dirty := False, ppn := 0\<rparr>"
  let ?s = "evicted c a va i b d s"
  have pt: "pte_of ?s x y = (if x = a \<and> y = va then Some ?e else pte_of s x y)" if "upage y" for x y
    using pte_of_store [of "s\<lparr>swap_bitmap := b, dev := d\<rparr>" a va y] v(5) va that e(1)
    by (simp add: evicted_def)
  have rs: "resident ?s x y p \<longleftrightarrow> \<not> (x = a \<and> y = va) \<and> resident s x y p" for x y p
    using e by (cases "x = a \<and> y = va"; cases "upage y") (auto simp: resident_def pt)
  have notsw: "\<not> swapped s a va j" for j using e by (simp add: swapped_def)
  have iI: "int i * int PAGE_SIZE = int j * int PAGE_SIZE \<longleftrightarrow> i = j" for j by (simp add: PAGE_SIZE_def)
  have sw: "swapped ?s x y j \<longleftrightarrow> (if x = a \<and> y = va then j = i else swapped s x y j)" for x y j
    using va e(2) iI [of j] by (cases "x = a \<and> y = va"; cases "upage y") (auto simp: swapped_def pt)
  have fresh: "j \<noteq> i" if sj: "swapped s x y j" for x y j
  proof -
    obtain f where f: "upage y" "pte_of s x y = Some f" "valid f" "\<not> in_mem f" "swap_offset f = int j * int PAGE_SIZE"
      using sj unfolding swapped_def by blast
    from v(9) [OF f(1-4)] f(5) obtain k where "k \<in> bm_marked (swap_bitmap s)" "int j * int PAGE_SIZE = int k * int PAGE_SIZE"
      by auto
    then show ?thesis using i(1) by (auto simp: PAGE_SIZE_def)
  qed
  have kb: "kblock s c 1" using v(7) [OF c] .
  let ?s1 = "vm_tlbshootdown va (as_pte_store a
       (\<lambda>e. e\<lparr>swap_offset := int i * int PAGE_SIZE, in_mem := False, dirty := False, ppn := 0\<rparr>) va (s\<lparr>swap_bitmap := b, dev := d\<rparr>))"
  have wf1: "cm_wf ?s1" and kb1: "kblock ?s1 p n = kblock s p n" for p n
    using v(1) cm_wf_cong [of ?s1 s] by simp_all
  have wf: "cm_wf ?s" using free_kpages_ok(2) [OF wf1, of c 1] kb1 kb by (simp add: evicted_def)
  have cl: "c < last_page s" using kb by (simp add: kblock_def)
  have E: "ent ?s p = (if p = c then freed_entry (ent s c) else ent s p)" if "p < last_page s" for p
    using that cm_wfD(1) [OF v(1)] by (auto simp: evicted_def)
  have same: "first_page ?s = first_page s" "last_page ?s = last_page s" "curas ?s = curas s" "cm_lock ?s = cm_lock s"
    "swap_bitmap ?s = b" "swap_slots ?s = swap_slots s" "frames ?s = frames s" "dev ?s = d"
    by (simp_all add: evicted_def)
  have ptw: "pt_wf (as_pt as)" if "spaces ?s x = Some as" for x as
    using that v(5) by (auto simp: evicted_def as_pte_store_def as_update_def pt_wf_store split: if_splits)
  have us: "\<not> busy (ent ?s p) \<and> (\<exists>x. owner (ent ?s p) = Some x \<and> resident ?s x (cm_vaddr (ent ?s p)) p)"
    if pu: "p < last_page s" "used (ent ?s p)" "\<not> kernel_page (ent ?s p)" for p
  proof -
    have pc: "p \<noteq> c" using pu E by auto
    then have eq: "ent ?s p = ent s p" using E pu(1) by simp
    then obtain x where x: "\<not> busy (ent s p)" "owner (ent s p) = Some x" "resident s x (cm_vaddr (ent s p)) p"
      using v(6) [of p] pu by auto
    have "\<not> (x = a \<and> cm_vaddr (ent s p) = va)" using x(3) c pc e by (auto simp: resident_def)
    then show ?thesis using x eq rs by simp
  qed
  have kfree: "kblock ?s p n" if k: "kblock s p n" and q: "\<And>q. p \<le> q \<Longrightarrow> q < p + n \<Longrightarrow> q \<noteq> c" for p n
  proof -
    have "kblock (free_state c 1 ?s1) p n"
      by (rule kblock_free_other [OF _ _ wf1]) (use k kb1 q in \<open>auto simp: less_Suc_eq_le\<close>)
    then show ?thesis by (simp add: evicted_def)
  qed
  have kbs: "kblock ?s p 1" if "resident ?s x y p" for x y p
  proof -
    have r: "resident s x y p" "\<not> (x = a \<and> y = va)" using that rs by blast+
    then have "p \<noteq> c" using v(8) [OF c, of x y] by auto
    then show ?thesis using kfree [OF v(7) [OF r(1)]] by (simp add: less_Suc_eq_le)
  qed
  have swm: "\<exists>k \<in> bm_marked b. swap_offset x = int k * int PAGE_SIZE"
    if "upage y" "pte_of ?s z y = Some x" "valid x" "\<not> in_mem x" for x y z
    using that pt v(9) i(4) by (auto split: if_splits)
  have swi: "x = x' \<and> y = y'" if "swapped ?s x y j" "swapped ?s x' y' j" for x y x' y' j
    using that unfolding sw by (auto split: if_splits dest: fresh v(10))
  have rsi: "x = x' \<and> y = y'" if "resident ?s x y p" "resident ?s x' y' p" for x y x' y' p
    using that v(8) unfolding rs by blast
  have "vm_inv ?s" unfolding vm_inv_def same
    using wf v(2,4) i(2,3) ptw us kbs rsi swm swi by (intro conjI; simp)
  moreover have "view slot ?s x y = view slot s x y" if "upage y" for x y
  proof (cases "x = a \<and> y = va")
    case True
    then show ?thesis using pt [OF that] e same write_ok [OF w] by (simp add: view_def PAGE_SIZE_def)
  next
    case False
    show ?thesis
    proof (cases "pte_of s x y")
      case (Some f)
      have "slot d (nat (swap_offset f div int PAGE_SIZE)) = slot (dev s) (nat (swap_offset f div int PAGE_SIZE))"
        if f: "valid f" "\<not> in_mem f"
      proof -
        obtain k where k: "swap_offset f = int k * int PAGE_SIZE" using v(9) [OF \<open>upage y\<close> Some f] by blast
        then have "swapped s x y k" using f Some \<open>upage y\<close> by (simp add: swapped_def)
        from write_other [OF w fresh [OF this]] show ?thesis using k by (simp add: PAGE_SIZE_def)
      qed
      then show ?thesis using pt [OF that] False Some same by (auto simp: view_def)
    qed (use pt [OF that] False in \<open>simp add: view_def\<close>)
  qed
  moreover have "rel_option as_same (spaces ?s x) (spaces s x)" for x
    using rel_as_store [of a _ va "s\<lparr>swap_bitmap := b, dev := d\<rparr>" x] by (simp add: evicted_def)
  moreover have "x \<in> fst ` set (tlb s)" if "upage x" "x \<in> fst ` set (tlb ?s)" for x
    using shot_keys [OF that(1), of va "tlb s"] that(2) by (simp add: evicted_def shoot_eq)
  moreover have "kblock ?s p n" if "kblock s p n" "\<forall>q. p \<le> q \<longrightarrow> q < p + n \<longrightarrow> q \<notin> {c} \<and> kernel_page (ent s q)" for p n
    using that by (intro kfree) auto
  ultimately show ?thesis using same E rs by (simp add: vm_keeps_def)
qed

lemma tlb_shoot_ok:
  assumes "tlb_ok s" "upage va"
  shows "length (tlb (vm_tlbshootdown va s)) = 64 \<and> distinct (map fst (tlb (vm_tlbshootdown va s))) \<and>
    (\<forall>i < 64. tlb (vm_tlbshootdown va s) ! i = (TLBHI_INVALID i, TLBLO_INVALID) \<or>
      (tlb (vm_tlbshootdown va s) ! i = tlb s ! i \<and> fst (tlb s ! i) \<noteq> va))"
proof -
  note t = tlb_okD [OF assms(1)]
  have up: "fst (tlb s ! i) AND TLBHI_VPAGE = fst (tlb s ! i) \<or> fst (tlb s ! i) = TLBHI_INVALID i" if "i < 64" for i
    using t(4,5) [OF that] upage_and by metis
  have inv: "TLBHI_INVALID i AND TLBHI_VPAGE = TLBHI_INVALID i" if "i < 64" for i
    using frame_bits [of "TLBHI_INVALID i"] that by (simp add: TLBHI_INVALID_def TLBHI_VPAGE_def PAGE_FRAME_def PAGE_SIZE_def)
  have exact: "fst (tlb s ! i) AND TLBHI_VPAGE = fst (tlb s ! i)" if "i < 64" for i
    using up [OF that] inv [OF that] by metis
  have va: "va AND TLBHI_VPAGE = va" by (rule upage_and) (rule assms(2))
  show ?thesis
  proof (cases "tlb_probe va s")
    case None
    then have "\<forall>i < 64. fst (tlb s ! i) \<noteq> va"
      using exact t(1) unfolding tlb_probe_def find_None_iff by auto
    then show ?thesis using None va t(1,3) by (simp add: vm_tlbshootdown_def)
  next
    case (Some k)
    then have k: "k < 64" "fst (tlb s ! k) = va"
      using exact t(1) unfolding tlb_probe_def find_Some_iff by auto
    have others: "fst (tlb s ! i) \<noteq> va" if "i < 64" "i \<noteq> k" for i
      using t(1,3) k that by (auto simp: distinct_conv_nth)
    have ninv: "fst (tlb s ! i) \<noteq> TLBHI_INVALID k" if "i < 64" "i \<noteq> k" for i
      using t(4,5) [OF that(1)] that(2) invalid_not_upage [of k]
      by (cases "snd (tlb s ! i) AND TLBLO_VALID = 0") (auto simp: TLBHI_INVALID_def)
    have "distinct (map fst ((tlb s)[k := (TLBHI_INVALID k, TLBLO_INVALID)]))"
      using t(1,3) k(1) ninv by (auto simp: distinct_conv_nth nth_list_update dest: ninv [OF _ not_sym])
    then show ?thesis using Some va t(1) others k by (auto simp: vm_tlbshootdown_def tlb_write_def nth_list_update)
  qed
qed

lemma evicted_tlb_ok:
  assumes inv: "vm_inv s" and c: "resident s a va c" and t: "tlb_ok s"
  shows "tlb_ok (evicted c a va i b d s)"
proof -
  obtain e where va: "upage va" and e: "pte_of s a va = Some e" using c unfolding resident_def by blast
  let ?f = "\<lambda>e. e\<lparr>swap_offset := int i * int PAGE_SIZE, in_mem := False, dirty := False, ppn := 0\<rparr>"
  let ?s1 = "as_pte_store a ?f va (s\<lparr>swap_bitmap := b, dev := d\<rparr>)"
  have tl: "tlb ?s1 = tlb s" by simp
  have pt: "pte_of ?s1 x y = pte_of s x y" if "upage y" "y \<noteq> va" for x y
    using pte_of_store [of "s\<lparr>swap_bitmap := b, dev := d\<rparr>" a va y] vm_invD(5) [OF inv] va that by simp
  have sh: "tlb (evicted c a va i b d s) = tlb (vm_tlbshootdown va s)"
    unfolding evicted_def by (simp add: vm_tlbshootdown_def tlb_probe_def tlb_write_def split: option.split)
  note S = tlb_shoot_ok [OF t va]
  have "if snd (tlb (vm_tlbshootdown va s) ! j) AND TLBLO_VALID = 0 then fst (tlb (vm_tlbshootdown va s) ! j) = TLBHI_INVALID j
     else \<exists>x e. curas s = Some x \<and> upage (fst (tlb (vm_tlbshootdown va s) ! j)) \<and>
       pte_of ?s1 x (fst (tlb (vm_tlbshootdown va s) ! j)) = Some e \<and> valid e \<and> in_mem e \<and>
       snd (tlb (vm_tlbshootdown va s) ! j) = tlblo e" if j: "j < 64" for j
  proof (cases "tlb (vm_tlbshootdown va s) ! j = (TLBHI_INVALID j, TLBLO_INVALID)")
    case True
    then show ?thesis by (simp add: TLBLO_INVALID_def)
  next
    case False
    then have eq: "tlb (vm_tlbshootdown va s) ! j = tlb s ! j" "fst (tlb s ! j) \<noteq> va" using S j by blast+
    show ?thesis unfolding eq(1) using tlb_okD(4,5) [OF t j] pt eq(2)
      by (cases "snd (tlb s ! j) AND TLBLO_VALID = 0") auto
  qed
  note entry = this
  have pe: "pte_of (evicted c a va i b d s) = pte_of ?s1" by (simp add: evicted_def)
  have cu: "curas (evicted c a va i b d s) = curas s" by (simp add: evicted_def)
  show ?thesis
  proof (rule tlb_okI, unfold sh pe cu)
    show "tlb_next_victim (evicted c a va i b d s) < 64" using tlb_okD(2) [OF t] by (simp add: evicted_def)
  qed (use S entry in blast)+
qed

text \<open>A candidate is marked busy and the lock of its owner is taken.\<close>

definition claim :: "nat \<Rightarrow> nat \<Rightarrow> 'd vm \<Rightarrow> 'd vm" where
  "claim c a s = as_update a (\<lambda>as. as\<lparr>as_held := True\<rparr>) (s\<lparr>entries := (entries s)[c := (ent s c)\<lparr>busy := True\<rparr>]\<rparr>)"

lemma claim_frame [simp]:
  "swap_bitmap (claim c a s) = swap_bitmap s" "dev (claim c a s) = dev s" "frames (claim c a s) = frames s"
  "swap_slots (claim c a s) = swap_slots s" "tlb (claim c a s) = tlb s"
  "(claim c a s)\<lparr>swap_bitmap := b\<rparr> = claim c a (s\<lparr>swap_bitmap := b\<rparr>)"
  "(claim c a s)\<lparr>dev := d\<rparr> = claim c a (s\<lparr>dev := d\<rparr>)"
  by (simp_all add: claim_def as_update_def)

lemma held_same: "\<not> as_held as \<Longrightarrow> as\<lparr>as_held := False\<rparr> = as"
  by (cases as) simp

lemma busy_same: "\<not> busy e \<Longrightarrow> e\<lparr>busy := False\<rparr> = e"
  by (cases e) simp

lemma abort_claim:
  assumes "spaces s a = Some as" "\<not> as_held as" "c < length (entries s)" "\<not> busy (ent s c)" "\<not> cm_lock s"
  shows "evict_abort c a (claim c a s) = Some s"
proof -
  have "(entries s)[c := (ent s c)\<lparr>busy := False\<rparr>] = entries s" unfolding busy_same [OF assms(4)] by simp
  moreover have "(spaces s)(a \<mapsto> as\<lparr>as_held := False\<rparr>) = spaces s" unfolding held_same [OF assms(2)] using assms(1) by auto
  moreover have "s\<lparr>cm_lock := False\<rparr> = s" using assms(5) by simp
  ultimately show ?thesis using assms(1-3,5)
    by (simp add: evict_abort_def claim_def as_update_def as_lock_release_def cm_acquire_def cm_release_def set_busy_def)
qed

lemma map_range_1: "c < length es \<Longrightarrow> map_range c 1 f es = es[c := f c (es ! c)]"
  by (simp add: map_range_Suc)

lemma finish_claim:
  assumes "spaces s a = Some as" "\<not> as_held as" "c < length (entries s)" "\<not> cm_lock s" "first_page s \<le> c" "c < last_page s"
    "0 < cm_page_count s" "cm_page_count s < 2 ^ 32"
  shows "do { s \<leftarrow> as_lock_release a (vm_tlbshootdown va (as_pte_store a f va (claim c a s)));
       s \<leftarrow> cm_acquire s; s \<leftarrow> free_ppage c s; cm_release s } =
     Some (free_state c 1 (vm_tlbshootdown va (as_pte_store a f va s)))"
proof -
  have fe: "freed_entry (e\<lparr>busy := True\<rparr>) = freed_entry e" for e by (simp add: freed_entry_def)
  have h: "as\<lparr>as_pt := x, as_held := False\<rparr> = as\<lparr>as_pt := x\<rparr>" for x using assms(2) by (cases as) simp
  have "do { s \<leftarrow> as_lock_release a (vm_tlbshootdown va (as_pte_store a f va (claim c a s)));
       s \<leftarrow> cm_acquire s; s \<leftarrow> free_ppage c s; cm_release s } =
     Some (s\<lparr>tlb := shot va (tlb s), spaces := (spaces s)(a \<mapsto> as\<lparr>as_pt := pte_store f va (as_pt as)\<rparr>),
       entries := (entries s)[c := freed_entry (ent s c)], cm_page_count := cm_page_count s - 1, cm_lock := False\<rparr>)"
    using assms usub32_le [of 1 "cm_page_count s"]
    by (simp add: shoot_eq claim_def as_update_def as_pte_store_def as_lock_release_def cm_acquire_def cm_release_def
        free_ppage_def fe h)
  moreover have "s\<lparr>tlb := shot va (tlb s), spaces := (spaces s)(a \<mapsto> as\<lparr>as_pt := pte_store f va (as_pt as)\<rparr>),
       entries := (entries s)[c := freed_entry (ent s c)], cm_page_count := cm_page_count s - 1, cm_lock := False\<rparr> =
     free_state c 1 (vm_tlbshootdown va (as_pte_store a f va s))"
    using assms by (intro vm.equality) (simp_all add: shoot_eq as_pte_store_def as_update_def map_range_Suc)
  ultimately show ?thesis by simp
qed

lemma evict_page_ok:
  assumes inv: "vm_inv s" and c: "c < last_page s" "used (ent s c)" "\<not> kernel_page (ent s c)"
    and a: "owner (ent s c) = Some a" "spaces s a = Some as" "\<not> as_held as"
  shows "\<exists>r s'. evict_page D c a (cm_vaddr (ent s c)) (claim c a s) = Some (r, s') \<and> vm_inv s' \<and> vm_keeps slot {} s s' \<and>
    (tlb_ok s \<longrightarrow> tlb_ok s') \<and>
    (case r of Inl _ \<Rightarrow> entries s' = entries s | Inr p \<Rightarrow> p = c \<and> entries s' = (entries s)[c := freed_entry (ent s c)])"
proof -
  note v = vm_invD [OF inv]
  let ?va = "cm_vaddr (ent s c)"
  have len: "length (entries s) = last_page s" using cm_wfD(1) [OF v(1)] .
  have nb: "\<not> busy (ent s c)" and res: "resident s a ?va c" using v(6) [OF c] a(1) by auto
  have pp: "pp_num (ent s c) = c" using cm_wfD(6) [OF v(1) c(1,2)] .
  have cl: "c < 131072" using c(1) cm_wfD(4) [OF v(1)] by simp
  have bp: "entries (claim c a x) ! c = (ent x c)\<lparr>busy := True\<rparr>" if "entries x = entries s" for x
    using that len c(1) by (simp add: claim_def as_update_def)
  have ec: "length (entries (claim c a x)) = length (entries x)" for x by (simp add: claim_def as_update_def)
  have kb: "kblock s c 1" using v(7) [OF res] .
  have cnt: "0 < cm_page_count s" "cm_page_count s < 2 ^ 32"
    using cm_wfD(1,4,5) [OF v(1)] countP_le_length [of used "entries s"] countP_pos [of c "entries s" used] c by simp_all
  from v(3) show ?thesis
  proof (cases rule: bm.alloc_cases)
    case full
    have "evict_page D c a ?va (claim c a s) = Some (Inl ENOSPC, s)"
      using full(1) abort_claim [OF a(2,3) _ nb v(2)] c(1) len
      by (simp add: evict_page_def swap_alloc_slot_def)
    then show ?thesis using inv by auto
  next
    case (ok i b)
    let ?off = "int i * int PAGE_SIZE"
    obtain r d where w: "vop_write D (frames s c) ?off (dev s) = Some (r, d)" using write_returns by blast
    let ?s1 = "s\<lparr>swap_bitmap := b, dev := d\<rparr>"
    have rd: "swap_write_page D (PPAGE_TO_PADDR c) ?off (claim c a (s\<lparr>swap_bitmap := b\<rparr>)) =
        Some (case r of Inl e \<Rightarrow> Inl e | Inr n \<Rightarrow> if n \<noteq> 0 then Inl EIO else Inr (), claim c a ?s1)"
      using w kv_of_page(3) [OF cl] by (auto simp: swap_write_page_def Let_def split: sum.split)
    have ab: "evict_abort c a (claim c a ?s1) = Some ?s1"
      using a(2,3) c(1) len nb v(2) by (intro abort_claim) simp_all
    show ?thesis
    proof (cases "r = Inr 0")
      case True
      have "evict_page D c a ?va (claim c a s) = Some (Inr c, evicted c a ?va i b d s)"
        using ok(1) rd True bp [of "s\<lparr>swap_bitmap := b\<rparr>"] ec c(1) len pp cm_wfD(2) [OF v(1)] kb
          finish_claim [of ?s1 a as c ?va "\<lambda>e. e\<lparr>swap_offset := ?off, in_mem := False, dirty := False, ppn := 0\<rparr>"]
          a(2,3) v(2) cnt
        by (simp add: evict_page_def swap_alloc_slot_def evicted_def kblock_def bind_eq_Some_conv)
      moreover have "vm_inv (evicted c a ?va i b d s) \<and> vm_keeps slot {c} s (evicted c a ?va i b d s)"
        using w True by (intro evicted_keeps [OF inv res ok(3,5,6,7)]) simp
      moreover from this have "vm_keeps slot {} s (evicted c a ?va i b d s)"
        by (rule conjE) (erule vm_keeps_drop, simp add: c)
      moreover have "entries (evicted c a ?va i b d s) = (entries s)[c := freed_entry (ent s c)]"
        using len c(1) by (simp add: evicted_def map_range_Suc)
      ultimately show ?thesis using evicted_tlb_ok [OF inv res] by auto
    next
      case False
      then obtain e where e: "(case r of Inl e \<Rightarrow> Inl e | Inr n \<Rightarrow> if n \<noteq> 0 then Inl EIO else Inr ()) = (Inl e :: errno + unit)"
        by (cases r) auto
      obtain b' where b': "bitmap_unmark b i = Some b'" "bitmap_ok b'" "bm_nbits b' = bm_nbits b" "bm_marked b' = bm_marked b - {i}"
        using bm.free_used [OF ok(5), of i] ok(7) by auto
      let ?s2 = "s\<lparr>swap_bitmap := b', dev := d\<rparr>"
      have "swap_free_slot ?off ?s1 = Some ?s2"
        using ok(2) b'(1) v(4) by (simp add: swap_free_slot_def SWAP_OFFSET_NONE_def PAGE_SIZE_def)
      then have "evict_page D c a ?va (claim c a s) = Some (Inl e, ?s2)"
        using ok(1) rd e ab bp [of "s\<lparr>swap_bitmap := b\<rparr>"] ec c(1) len pp
        by (simp add: evict_page_def swap_alloc_slot_def)
      moreover have mk: "bm_marked b' = bm_marked (swap_bitmap s)" using b'(4) ok(3,7) by auto
      have "vm_inv ?s2"
        using inv b'(2,3) ok(6) mk cm_wf_cong [of ?s2 s] resident_cong [of ?s2 s] unfolding vm_inv_def by simp
      moreover have "view slot ?s2 x y = view slot s x y" if "upage y" for x y
      proof (cases "pte_of s x y")
        case (Some f)
        have "slot d (nat (swap_offset f div int PAGE_SIZE)) = slot (dev s) (nat (swap_offset f div int PAGE_SIZE))"
          if f: "valid f" "\<not> in_mem f"
        proof -
          obtain k where k: "swap_offset f = int k * int PAGE_SIZE" "k \<in> bm_marked (swap_bitmap s)"
            using v(9) [OF \<open>upage y\<close> Some f] by blast
          then have "k \<noteq> i" using ok(3) by auto
          from write_other [OF w this] show ?thesis using k by (simp add: PAGE_SIZE_def)
        qed
        then show ?thesis using Some by (auto simp: view_def)
      qed (simp add: view_def)
      then have "vm_keeps slot {} s ?s2" using resident_cong(1) [of ?s2 s] cm_wf_cong(2) [of ?s2 s] by (simp add: vm_keeps_def)
      moreover have "tlb_ok ?s2" if "tlb_ok s" using that by (rule tlb_ok_cong [rotated 4]) auto
      ultimately show ?thesis by auto
    qed
  qed
qed

text \<open>
  What an eviction does: nothing, or one user page less.  It does not return when it comes upon a page
  of an address space the caller has locked.
\<close>

definition evict_result :: "'d vm \<Rightarrow> ((errno + nat) \<times> 'd vm) option \<Rightarrow> bool" where
  "evict_result s res \<longleftrightarrow>
     (case res of
        None \<Rightarrow> \<exists>a as. spaces s a = Some as \<and> as_held as
      | Some (r, s') \<Rightarrow> vm_inv s' \<and> vm_keeps slot {} s s' \<and> (tlb_ok s \<longrightarrow> tlb_ok s') \<and>
          (case r of
             Inl _ \<Rightarrow> entries s' = entries s
           | Inr c \<Rightarrow> c < last_page s \<and> used (ent s c) \<and> \<not> kernel_page (ent s c) \<and>
               entries s' = (entries s)[c := freed_entry (ent s c)]))"

lemma evict_result_mono:
  assumes "evict_result s1 res" "vm_keeps slot {} s s1" "tlb_ok s \<longrightarrow> tlb_ok s1" "entries s1 = entries s" "last_page s1 = last_page s"
    "spaces s1 = spaces s"
  shows "evict_result s res"
proof (cases res)
  case None
  then show ?thesis using assms by (simp add: evict_result_def)
next
  case (Some x)
  obtain r s' where x: "x = (r, s')" by (cases x)
  have "vm_keeps slot {} s1 s'" using assms(1) Some x by (simp add: evict_result_def)
  from vm_keeps_trans [OF assms(2) this] show ?thesis using assms Some x by (cases r) (simp_all add: evict_result_def)
qed

lemma evict_loop_ok:
  assumes inv: "vm_inv s" and tot: "tot = last_page s - first_page s" "is \<noteq> [] \<Longrightarrow> 0 < tot"
  shows "evict_result s (evict_loop D tot is (s\<lparr>cm_lock := True\<rparr>))"
  using tot(2)
proof (induction "is")
  case Nil
  have "s\<lparr>cm_lock := False\<rparr> = s" using vm_invD(2) [OF inv] by simp
  then show ?case using inv by (simp add: cm_release_def evict_result_def)
next
  case (Cons i "is")
  note v = vm_invD [OF inv]
  let ?c = "first_page s + (cm_evict_index s + i) mod tot"
  have "(cm_evict_index s + i) mod tot < tot" using Cons.prems by simp
  then have c: "?c < last_page s" using tot(1) cm_wfD(3) [OF v(1)] by linarith
  have len: "length (entries s) = last_page s" using cm_wfD(1) [OF v(1)] .
  show ?case
  proof (cases "evict_skip (ent s ?c)")
    case True
    then show ?thesis using Cons c len by simp
  next
    case False
    then obtain a where u: "used (ent s ?c)" "\<not> kernel_page (ent s ?c)" "owner (ent s ?c) = Some a"
      by (auto simp: evict_skip_def)
    have nb: "\<not> busy (ent s ?c)" and res: "resident s a (cm_vaddr (ent s ?c)) ?c" using v(6) [OF c u(1,2)] u(3) by auto
    obtain as e where as: "spaces s a = Some as" "pagetable_lookup (as_pt as) (cm_vaddr (ent s ?c)) = Some (Some e)"
      "valid e" "in_mem e" "ppn e = ?c" using res by (auto simp: resident_def pte_of_def bind_eq_Some_conv)
    have pp: "pp_num (ent s ?c) = ?c" using cm_wfD(6) [OF v(1) c u(1)] .
    let ?k = "(?c - first_page s + 1) mod tot"
    let ?s1 = "s\<lparr>cm_evict_index := ?k\<rparr>"
    have inv1: "vm_inv ?s1" using inv vm_inv_cong [of ?s1 s] by simp
    show ?thesis
    proof (cases "as_held as")
      case True
      then have "evict_loop D tot (i # is) (s\<lparr>cm_lock := True\<rparr>) = None"
        using c len False u as by (simp add: set_busy_def cm_release_def as_lock_acquire_def Let_def)
      then show ?thesis using as True by (auto simp: evict_result_def)
    next
      case free: False
      let ?s2 = "s\<lparr>cm_lock := True, entries := (entries s)[?c := (ent s ?c)\<lparr>busy := True\<rparr>], cm_evict_index := ?k, cm_lock := False\<rparr>"
      have st: "as_update a (\<lambda>as. as\<lparr>as_held := True\<rparr>) ?s2 = claim ?c a ?s1"
        using v(2) by (intro vm.equality) (simp_all add: claim_def as_update_def)
      have sp: "spaces (claim ?c a ?s1) a = Some (as\<lparr>as_held := True\<rparr>)"
        using as(1) by (simp add: claim_def as_update_def)
      have la: "as_lock_acquire a ?s2 = Some (claim ?c a ?s1)" using as(1) free st by (simp add: as_lock_acquire_def)
      have rl: "cm_release (s\<lparr>cm_lock := True, entries := (entries s)[?c := (ent s ?c)\<lparr>busy := True\<rparr>], cm_evict_index := ?k\<rparr>) = Some ?s2"
        by (simp add: cm_release_def)
      have sb: "set_busy ?c True (s\<lparr>cm_lock := True\<rparr>) = Some (s\<lparr>cm_lock := True, entries := (entries s)[?c := (ent s ?c)\<lparr>busy := True\<rparr>]\<rparr>)"
        using c len by (simp add: set_busy_def)
      have "evict_loop D tot (i # is) (s\<lparr>cm_lock := True\<rparr>) = evict_page D ?c a (cm_vaddr (ent s ?c)) (claim ?c a ?s1)"
        using c len False u(3) as(2-5) pp sb rl la sp by (simp add: Let_def)
      moreover have "evict_result ?s1 (evict_page D ?c a (cm_vaddr (ent s ?c)) (claim ?c a ?s1))"
      proof -
        have c1: "?c < last_page ?s1" "used (ent ?s1 ?c)" "\<not> kernel_page (ent ?s1 ?c)" "owner (ent ?s1 ?c) = Some a"
          "spaces ?s1 a = Some as" using c u as(1) by simp_all
        from evict_page_ok [OF inv1 c1 free] obtain r s' where x: "evict_page D ?c a (cm_vaddr (ent ?s1 ?c)) (claim ?c a ?s1) = Some (r, s')"
          "vm_inv s'" "vm_keeps slot {} ?s1 s'" "tlb_ok ?s1 \<longrightarrow> tlb_ok s'"
          "case r of Inl _ \<Rightarrow> entries s' = entries ?s1 | Inr p \<Rightarrow> p = ?c \<and> entries s' = (entries ?s1)[?c := freed_entry (ent ?s1 ?c)]"
          by blast
        show ?thesis
        proof (cases r)
          case (Inl e)
          then show ?thesis using x by (simp add: evict_result_def)
        next
          case (Inr p)
          then show ?thesis using x c u by (simp add: evict_result_def)
        qed
      qed
      moreover have "vm_keeps slot {} s ?s1"
        using resident_cong(1) [of ?s1 s] cm_wf_cong(2) [of ?s1 s] by (simp add: vm_keeps_def view_def split: option.split)
      moreover have "tlb_ok ?s1" if "tlb_ok s" using that by (rule tlb_ok_cong [rotated 4]) auto
      ultimately show ?thesis using evict_result_mono [of ?s1 "evict_page D ?c a (cm_vaddr (ent s ?c)) (claim ?c a ?s1)" s] by simp
    qed
  qed
qed

lemma evict_one_ok: "vm_inv s \<Longrightarrow> evict_result s (evict_one D s)"
  using evict_loop_ok [of s "last_page s - first_page s" "[0..<last_page s - first_page s]"] vm_invD(2) [of s]
  by (simp add: evict_one_def cm_acquire_def Let_def)

section \<open>Allocation\<close>

text \<open>The pages handed out belonged to nobody in the kernel and back no user page.\<close>

definition fresh_block :: "'d vm \<Rightarrow> 'd vm \<Rightarrow> nat \<Rightarrow> nat \<Rightarrow> bool" where
  "fresh_block s s' st n \<longleftrightarrow> kblock s' st n \<and>
     (\<forall>p. st \<le> p \<longrightarrow> p < st + n \<longrightarrow> kernel_page (ent s' p) \<and> \<not> busy (ent s' p) \<and> \<not> (used (ent s p) \<and> kernel_page (ent s p)) \<and>
        (\<forall>a va. \<not> resident s' a va p))"

definition alloc_result :: "nat \<Rightarrow> 'd vm \<Rightarrow> (nat \<times> 'd vm) option \<Rightarrow> bool" where
  "alloc_result n s res \<longleftrightarrow>
     (case res of
        None \<Rightarrow> \<exists>a as. spaces s a = Some as \<and> as_held as
      | Some (kv, s') \<Rightarrow> vm_inv s' \<and> vm_keeps slot {} s s' \<and> (tlb_ok s \<longrightarrow> tlb_ok s') \<and>
          (kv = 0 \<or> (\<exists>st. kv = MIPS_KSEG0 + st * PAGE_SIZE \<and> fresh_block s s' st n)))"

lemma held_kept:
  assumes "vm_keeps slot X s s'" "spaces s' a = Some as" "as_held as"
  shows "\<exists>a as. spaces s a = Some as \<and> as_held as"
proof -
  have "rel_option as_same (spaces s' a) (spaces s a)" using assms(1) unfolding vm_keeps_def by blast
  then show ?thesis using assms(2,3) by (cases "spaces s a") (auto simp: as_same_def)
qed

lemma alloc_try_result:
  assumes inv: "vm_inv s" "0 < n" and r: "alloc_try n s = Some (r, s')"
  shows "case r of None \<Rightarrow> s' = s | Some kv \<Rightarrow> alloc_result n s (Some (kv, s'))"
proof -
  note v = vm_invD [OF inv(1)]
  from v(1,2) inv(2) show ?thesis
  proof (cases rule: alloc_try_cases)
    case (found st)
    note k = alloc_state_keeps [OF inv(1,2) found(2,3,4)]
    have s': "r = Some (MIPS_KSEG0 + st * PAGE_SIZE)" "s' = alloc_state st n s" using r found(1) by simp_all
    have "kblock s' st n" using alloc_state_wf [OF v(1) inv(2) found(2,3,4)] s' by simp
    moreover have "kernel_page (ent s' p)" "\<not> busy (ent s' p)" "\<not> resident s' a va p" if "st \<le> p" "p < st + n" for p a va
    proof -
      show "kernel_page (ent s' p)" "\<not> busy (ent s' p)"
        using that found(3) cm_wfD(1) [OF v(1)] s' by (simp_all add: alloc_entry_def kernel_entry_def)
      have "\<not> resident s a va p" using v(7) [of a va p] found(4) that by (auto simp: kblock_def)
      then show "\<not> resident s' a va p" using resident_cong(1) [of s' s] s' by simp
    qed
    ultimately have "fresh_block s s' st n" using found(4) by (simp add: fresh_block_def)
    moreover have "tlb_ok s'" if "tlb_ok s" using that by (rule tlb_ok_cong [rotated 4]) (auto simp: s')
    ultimately show ?thesis using k s' by (auto simp: alloc_result_def)
  next
    case none
    then show ?thesis using r by simp
  qed
qed

lemma alloc_result_mono:
  assumes e: "vm_keeps slot {} s s2" "tlb_ok s \<longrightarrow> tlb_ok s2" and r: "alloc_result n s2 res"
  shows "alloc_result n s res"
proof (cases res)
  case None
  then show ?thesis using r held_kept [OF e(1)] by (auto simp: alloc_result_def)
next
  case (Some y)
  obtain kv s3 where y: "y = (kv, s3)" by (cases y)
  have a: "vm_inv s3" "vm_keeps slot {} s2 s3" "tlb_ok s2 \<longrightarrow> tlb_ok s3"
    "kv = 0 \<or> (\<exists>st. kv = MIPS_KSEG0 + st * PAGE_SIZE \<and> fresh_block s2 s3 st n)"
    using r Some y by (simp_all add: alloc_result_def)
  have k: "vm_keeps slot {} s s3" using vm_keeps_trans [OF e(1) a(2)] by simp
  have "fresh_block s s3 st n" if fb: "fresh_block s2 s3 st n" for st
  proof -
    have "used (ent s2 p) \<and> kernel_page (ent s2 p)" if "used (ent s p)" "kernel_page (ent s p)" "p < last_page s" for p
      using e(1) that unfolding vm_keeps_def by auto
    moreover have "last_page s3 = last_page s" using k unfolding vm_keeps_def by blast
    moreover have "st + n \<le> last_page s3" using fb by (simp add: fresh_block_def kblock_def)
    ultimately have "\<not> (used (ent s p) \<and> kernel_page (ent s p))" if "st \<le> p" "p < st + n" for p
      using fb that unfolding fresh_block_def by (metis less_le_trans)
    then show ?thesis using fb unfolding fresh_block_def by blast
  qed
  then show ?thesis using Some y a k e(2) by (auto simp: alloc_result_def)
qed

lemma alloc_kpages_ok:
  assumes "vm_inv s" "0 < n"
  shows "alloc_result n s (alloc_kpages D n s)"
  using assms(1)
proof (induction "countP (\<lambda>e. used e \<and> \<not> kernel_page e) (entries s)" arbitrary: s rule: less_induct)
  case less
  note v = vm_invD [OF less.prems]
  obtain r s1 where t: "alloc_try n s = Some (r, s1)"
    using alloc_try_cases [OF v(1,2) assms(2)] by metis
  show ?case
  proof (cases r)
    case (Some kv)
    then have "alloc_kpages D n s = Some (kv, s1)" using t by (subst alloc_kpages.simps) simp
    then show ?thesis using alloc_try_result [OF less.prems assms(2) t] Some by simp
  next
    case None
    then have s1: "s1 = s" using alloc_try_result [OF less.prems assms(2) t] by simp
    note ev = evict_one_ok [OF less.prems]
    show ?thesis
    proof (cases "evict_one D s")
      case N: None
      then have "alloc_kpages D n s = None" using t None s1 by (subst alloc_kpages.simps) simp
      then show ?thesis using ev N by (simp add: alloc_result_def evict_result_def)
    next
      case (Some x)
      obtain q s2 where x: "x = (q, s2)" by (cases x)
      have e: "vm_inv s2" "vm_keeps slot {} s s2" "tlb_ok s \<longrightarrow> tlb_ok s2"
        using ev Some x by (simp_all add: evict_result_def)
      show ?thesis
      proof (cases q)
        case (Inl y)
        then have "alloc_kpages D n s = Some (0, s2)" using t None s1 Some x by (subst alloc_kpages.simps) simp
        then show ?thesis using e by (simp add: alloc_result_def)
      next
        case (Inr c)
        then have c: "c < last_page s" "used (ent s c)" "\<not> kernel_page (ent s c)" "entries s2 = (entries s)[c := freed_entry (ent s c)]"
          using ev Some x by (simp_all add: evict_result_def)
        have rec: "alloc_kpages D n s = alloc_kpages D n s2"
          using t None s1 Some x Inr by (subst (1) alloc_kpages.simps) simp
        have "countP (\<lambda>e. used e \<and> \<not> kernel_page e) (entries s2) < countP (\<lambda>e. used e \<and> \<not> kernel_page e) (entries s)"
          using countP_update [of c "entries s" "\<lambda>e. used e \<and> \<not> kernel_page e" "freed_entry (ent s c)"] c cm_wfD(1) [OF v(1)] by simp
        from less.hyps [OF this e(1)] have IH: "alloc_result n s2 (alloc_kpages D n s2)" .
        show ?thesis unfolding rec by (rule alloc_result_mono [OF e(2,3) IH])
      qed
    qed
  qed
qed

lemma alloc_user_page_ok:
  assumes "vm_inv s"
  shows "alloc_result 1 s (alloc_user_page D s)"
proof -
  note A = alloc_kpages_ok [OF assms, of 1]
  show ?thesis
  proof (cases "alloc_kpages D 1 s")
    case None
    then show ?thesis using A by (simp add: alloc_user_page_def)
  next
    case (Some x)
    obtain kv s1 where x: "x = (kv, s1)" by (cases x)
    show ?thesis
    proof (cases "kv = 0")
      case False
      then show ?thesis using A Some x by (simp add: alloc_user_page_def)
    next
      case True
      have a: "vm_inv s1" "vm_keeps slot {} s s1" "tlb_ok s \<longrightarrow> tlb_ok s1" using A Some x by (simp_all add: alloc_result_def)
      note E = evict_one_ok [OF a(1)]
      let ?res = "do { (ev, s) \<leftarrow> evict_one D s1; case ev of Inl _ \<Rightarrow> Some (0, s) | Inr _ \<Rightarrow> alloc_kpages D 1 s }"
      have "alloc_result 1 s1 ?res"
      proof (cases "evict_one D s1")
        case None
        then show ?thesis using E by (simp add: alloc_result_def evict_result_def)
      next
        case (Some y)
        obtain ev s2 where y: "y = (ev, s2)" by (cases y)
        have b: "vm_inv s2" "vm_keeps slot {} s1 s2" "tlb_ok s1 \<longrightarrow> tlb_ok s2" using E Some y by (simp_all add: evict_result_def)
        show ?thesis
        proof (cases ev)
          case (Inl e)
          then show ?thesis using Some y b by (simp add: alloc_result_def)
        next
          case (Inr c)
          then show ?thesis using Some y alloc_result_mono [OF b(2,3) alloc_kpages_ok [OF b(1), of 1]] by simp
        qed
      qed
      from alloc_result_mono [OF a(2,3) this] show ?thesis using Some x True by (simp add: alloc_user_page_def)
    qed
  qed
qed

end

end
