(* ===== verification/Kern_Vm_Fault.thy ===== *)
theory Kern_Vm_Fault
  imports Kern_Vm_Inv
begin

text \<open>
  Page faults: a fault gives the page it is about a frame with the right contents and a TLB entry with
  the right permissions, and leaves every other page of every address space alone.
\<close>

section \<open>Mapping a page\<close>

lemma view_eq:
  "pte_of s' b va = pte_of s b va \<Longrightarrow> frames s' = frames s \<Longrightarrow> dev s' = dev s \<Longrightarrow> view slot s' b va = view slot s b va"
  by (simp add: view_def split: option.split)

text \<open>What a fault on the page \<open>pg\<close> of \<open>a\<close> leaves alone.\<close>

definition fault_keeps :: "('d \<Rightarrow> nat \<Rightarrow> page) \<Rightarrow> nat \<Rightarrow> nat \<Rightarrow> 'd vm \<Rightarrow> 'd vm \<Rightarrow> bool" where
  "fault_keeps slot a pg s s' \<longleftrightarrow>
     (\<forall>b va. upage va \<longrightarrow> (b, va) \<noteq> (a, pg) \<longrightarrow> view slot s' b va = view slot s b va) \<and>
     first_page s' = first_page s \<and> last_page s' = last_page s \<and> curas s' = curas s \<and>
     (\<forall>p < last_page s. used (ent s p) \<longrightarrow> kernel_page (ent s p) \<longrightarrow>
        ent s' p = ent s p \<and> frames s' p = frames s p) \<and>
     (\<forall>b. rel_option as_same (spaces s' b) (spaces s b)) \<and>
     (\<forall>va. upage va \<longrightarrow> va \<noteq> pg \<longrightarrow> va \<in> fst ` set (tlb s') \<longrightarrow> va \<in> fst ` set (tlb s))"

lemma keeps_fault: "vm_keeps slot {} s s' \<Longrightarrow> fault_keeps slot a pg s s'"
  by (simp add: vm_keeps_def fault_keeps_def)

lemma rel_as_trans: "rel_option as_same x y \<Longrightarrow> rel_option as_same y z \<Longrightarrow> rel_option as_same x z"
  by (cases x; cases y; cases z) (simp_all add: as_same_def)

lemma fault_keeps_trans:
  assumes 1: "fault_keeps slot a pg s s'" and 2: "fault_keeps slot a pg s' s''"
  shows "fault_keeps slot a pg s s''"
proof -
  have "rel_option as_same (spaces s'' b) (spaces s b)" for b
  proof (rule rel_as_trans)
    show "rel_option as_same (spaces s'' b) (spaces s' b)" using 2 by (simp add: fault_keeps_def)
    show "rel_option as_same (spaces s' b) (spaces s b)" using 1 by (simp add: fault_keeps_def)
  qed
  moreover have "ent s'' p = ent s p \<and> frames s'' p = frames s p" if "p < last_page s" "used (ent s p)" "kernel_page (ent s p)" for p
  proof -
    have "ent s' p = ent s p" "frames s' p = frames s p" "last_page s' = last_page s" using 1 that by (simp_all add: fault_keeps_def)
    then show ?thesis using 2 that by (simp add: fault_keeps_def)
  qed
  ultimately show ?thesis using 1 2 unfolding fault_keeps_def by simp
qed

text \<open>A free frame becomes the home of the page, which was nowhere or in a slot that is given up.\<close>

definition mapped :: "nat \<Rightarrow> nat \<Rightarrow> nat \<Rightarrow> (pte \<Rightarrow> pte) \<Rightarrow> bitmap \<Rightarrow> 'd vm \<Rightarrow> 'd vm" where
  "mapped st a pg f b s =
     (as_pte_store a f pg (s\<lparr>swap_bitmap := b\<rparr>))\<lparr>entries :=
        (entries s)[st := (ent s st)\<lparr>kernel_page := False, owner := Some a, cm_vaddr := pg\<rparr>]\<rparr>"

lemma mapped_frame [simp]:
  "cm_page_count (mapped st a pg f b s) = cm_page_count s" "first_page (mapped st a pg f b s) = first_page s"
  "last_page (mapped st a pg f b s) = last_page s" "cm_lock (mapped st a pg f b s) = cm_lock s"
  "swap_bitmap (mapped st a pg f b s) = b" "swap_slots (mapped st a pg f b s) = swap_slots s"
  "frames (mapped st a pg f b s) = frames s" "dev (mapped st a pg f b s) = dev s" "tlb (mapped st a pg f b s) = tlb s"
  "tlb_next_victim (mapped st a pg f b s) = tlb_next_victim s" "curas (mapped st a pg f b s) = curas s"
  by (simp_all add: mapped_def as_pte_store_def as_update_def)

lemma mapped_pte:
  assumes "vm_inv s" "upage pg" "upage va"
  shows "pte_of (mapped st a pg f b s) c va = (if c = a \<and> va = pg then map_option f (pte_of s a pg) else pte_of s c va)"
  using pte_of_store [of "s\<lparr>swap_bitmap := b\<rparr>" a pg va f c] vm_invD(5) [OF assms(1)] assms(2,3)
  by (simp add: mapped_def)

lemma mapped_spaces: "rel_option as_same (spaces (mapped st a pg f b s) c) (spaces s c)"
  by (cases "spaces s c") (auto simp: mapped_def as_pte_store_def as_update_def as_same_def)

lemma mapped_inv:
  assumes inv: "vm_inv s" and up: "upage pg" and st: "kblock s st 1" "\<not> busy (ent s st)" "\<And>c va. \<not> resident s c va st"
    and e: "pte_of s a pg = Some e" "\<not> (valid e \<and> in_mem e)"
    and f: "valid (f e)" "in_mem (f e)" "ppn (f e) = st"
    and b: "bitmap_ok b" "bm_nbits b = swap_slots s"
      "\<forall>j \<in> bm_marked (swap_bitmap s) - bm_marked b. swapped s a pg j"
  shows "vm_inv (mapped st a pg f b s)"
proof -
  note v = vm_invD [OF inv]
  let ?s = "mapped st a pg f b s"
  note pt = mapped_pte [OF inv up, where st = st and a = a and f = f and b = b]
  have sl: "st < last_page s" using st(1) by (simp add: kblock_def)
  have E: "ent ?s p = (if p = st then (ent s st)\<lparr>kernel_page := False, owner := Some a, cm_vaddr := pg\<rparr> else ent s p)"
    if "p < last_page s" for p
    using that cm_wfD(1) [OF v(1)] sl by (simp add: mapped_def nth_list_update)
  have U: "used (ent ?s p) = used (ent s p)" "pp_num (ent ?s p) = pp_num (ent s p)" "kmalloc_end (ent ?s p) = kmalloc_end (ent s p)"
    if "p < last_page s" for p using E [OF that] by simp_all
  have cnt: "countP used (entries ?s) = countP used (entries s)"
    using countP_update [of st "entries s" used "(ent s st)\<lparr>kernel_page := False, owner := Some a, cm_vaddr := pg\<rparr>"]
      sl cm_wfD(1) [OF v(1)] by (simp add: mapped_def split: if_splits)
  have wf: "cm_wf ?s"
  proof -
    have "length (entries ?s) = length (entries s)" by (simp add: mapped_def)
    then show ?thesis using cm_wfD [OF v(1)] U unfolding cm_wf_def mapped_frame cnt by simp
  qed
  have rs: "resident ?s c va p \<longleftrightarrow> (if c = a \<and> va = pg then p = st else resident s c va p)" for c va p
    using pt [of va c] e f up by (cases "upage va"; cases "c = a \<and> va = pg") (auto simp: resident_def)
  have sw: "swapped ?s c va j \<longleftrightarrow> \<not> (c = a \<and> va = pg) \<and> swapped s c va j" for c va j
    using pt [of va c] e f up by (cases "upage va"; cases "c = a \<and> va = pg") (auto simp: swapped_def)
  have kb: "kblock ?s p 1" if "kblock s p 1" for p
  proof -
    have "p < last_page s" "p - 1 < last_page s" using that by (auto simp: kblock_def)
    then show ?thesis using that U [of "p - 1"] U [of p] unfolding kblock_def by (auto simp: less_Suc_eq_le)
  qed
  have ptw: "pt_wf (as_pt as)" if "spaces ?s x = Some as" for x as
    using that v(5) by (auto simp: mapped_def as_pte_store_def as_update_def pt_wf_store split: if_splits)
  have us: "\<not> busy (ent ?s p) \<and> (\<exists>x. owner (ent ?s p) = Some x \<and> resident ?s x (cm_vaddr (ent ?s p)) p)"
    if pu: "p < last_page s" "used (ent ?s p)" "\<not> kernel_page (ent ?s p)" for p
  proof (cases "p = st")
    case False
    then obtain x where x: "\<not> busy (ent s p)" "owner (ent s p) = Some x" "resident s x (cm_vaddr (ent s p)) p"
      using v(6) [of p] pu E by auto
    have "\<not> (x = a \<and> cm_vaddr (ent s p) = pg)" using x(3) e by (auto simp: resident_def)
    then show ?thesis using x E pu(1) False rs by simp
  qed (use st(2) E sl rs in simp)
  have kbs: "kblock ?s p 1" if "resident ?s x y p" for x y p
    using that kb st(1) v(7) unfolding rs by (auto split: if_splits)
  have rsi: "x = x' \<and> y = y'" if "resident ?s x y p" "resident ?s x' y' p" for x y x' y' p
    using that v(8) st(3) unfolding rs by (auto split: if_splits)
  have swm: "\<exists>k \<in> bm_marked b. swap_offset x = int k * int PAGE_SIZE"
    if x: "upage y" "pte_of ?s z y = Some x" "valid x" "\<not> in_mem x" for x y z
  proof -
    have o: "pte_of s z y = Some x" "\<not> (z = a \<and> y = pg)" using x pt [of y z] e f by (auto split: if_splits)
    obtain k where k: "k \<in> bm_marked (swap_bitmap s)" "swap_offset x = int k * int PAGE_SIZE"
      using v(9) [OF x(1) o(1) x(3,4)] by blast
    then have "swapped s z y k" using x o by (simp add: swapped_def)
    then have "k \<in> bm_marked b" using b(3) k(1) v(10) [of z y k a pg] o(2) by blast
    then show ?thesis using k by blast
  qed
  have swi: "x = x' \<and> y = y'" if "swapped ?s x y j" "swapped ?s x' y' j" for x y x' y' j
    using that v(10) unfolding sw by blast
  show ?thesis unfolding vm_inv_def mapped_frame
    using wf v(2,4) b(1,2) ptw us kbs rsi swm swi by (intro conjI; simp)
qed

section \<open>A page in hand\<close>

lemma perms_same:
  assumes "as_same x y"
  shows "get_region_permissions x va = get_region_permissions y va" "is_valid_address x va = is_valid_address y va"
proof -
  have e: "region_list x = region_list y" "heap_start x = heap_start y" "heap_end x = heap_end y" "stack_base x = stack_base y"
    using assms by (auto simp: as_same_def)
  show "get_region_permissions x va = get_region_permissions y va" "is_valid_address x va = is_valid_address y va"
    unfolding get_region_permissions_def is_valid_address_def e by (rule refl)+
qed

text \<open>A page that has been allocated and is not yet anybody's.\<close>

definition spare :: "'d vm \<Rightarrow> nat \<Rightarrow> bool" where
  "spare s st \<longleftrightarrow> kblock s st 1 \<and> kernel_page (ent s st) \<and> \<not> busy (ent s st) \<and> (\<forall>a va. \<not> resident s a va st)"

lemma spareD:
  assumes "spare s st"
  shows "kblock s st 1" "kernel_page (ent s st)" "\<not> busy (ent s st)" "\<not> resident s a va st" "st < last_page s" "used (ent s st)"
    "first_page s \<le> st"
  using assms by (auto simp: spare_def kblock_def)

lemma spare_keeps:
  assumes sp: "spare s st" and k: "vm_keeps slot {} s s'"
  shows "spare s' st"
proof -
  have "ent s' st = ent s st" using spareD [OF sp] by (intro vm_keepsD(5) [OF k]) auto
  moreover have "kblock s' st 1"
    using spareD [OF sp] by (intro vm_keepsD(7) [OF k]) (auto simp: less_Suc_eq_le)
  ultimately show ?thesis using spareD [OF sp] vm_keepsD(8) [OF k] unfolding spare_def by metis
qed

lemma spare_cong:
  "entries s' = entries s \<Longrightarrow> first_page s' = first_page s \<Longrightarrow> last_page s' = last_page s \<Longrightarrow> spaces s' = spaces s \<Longrightarrow>
   spare s' st = spare s st"
  using resident_cong(1) [OF pte_of_cong, of s' s] by (simp add: spare_def kblock_def)

lemma spare_addr:
  assumes "vm_inv s" "spare s st"
  shows "PADDR_TO_PPAGE (KVADDR_TO_PADDR (MIPS_KSEG0 + st * PAGE_SIZE)) = st" "KVADDR_TO_PADDR (MIPS_KSEG0 + st * PAGE_SIZE) \<noteq> 0"
proof -
  have "st < 131072" "0 < st"
    using spareD(5,7) [OF assms(2)] cm_wfD(2,4) [OF vm_invD(1) [OF assms(1)]] by simp_all
  then show pp: "PADDR_TO_PPAGE (KVADDR_TO_PADDR (MIPS_KSEG0 + st * PAGE_SIZE)) = st"
    using kv_of_page(2) [of st] by simp
  have "PADDR_TO_PPAGE 0 = 0" by (simp add: PADDR_TO_PPAGE_def)
  then show "KVADDR_TO_PADDR (MIPS_KSEG0 + st * PAGE_SIZE) \<noteq> 0" using pp \<open>0 < st\<close> by (metis less_irrefl)
qed

lemma spare_free:
  assumes "vm_inv s" "spare s st"
  shows "free_kpages (MIPS_KSEG0 + st * PAGE_SIZE) s = Some (free_state st 1 s)" "vm_inv (free_state st 1 s)"
    "vm_keeps slot {st} s (free_state st 1 s)" "tlb_ok s \<longrightarrow> tlb_ok (free_state st 1 s)"
proof -
  note k = free_state_keeps [OF assms(1) spareD(1) [OF assms(2)]] and sp = spareD(4) [OF assms(2)]
  show "free_kpages (MIPS_KSEG0 + st * PAGE_SIZE) s = Some (free_state st 1 s)"
    using free_kpages_ok(1) [OF vm_invD(1) [OF assms(1)] spareD(1) [OF assms(2)]] .
  show "vm_inv (free_state st 1 s)" using sp by (intro k(1)) (simp add: le_antisym less_Suc_eq_le)
  have "{st..<st + 1} = {st}" by auto
  moreover have "vm_keeps slot {st..<st + 1} s (free_state st 1 s)" using sp by (intro k(2)) (simp add: le_antisym less_Suc_eq_le)
  ultimately show "vm_keeps slot {st} s (free_state st 1 s)" by simp
  show "tlb_ok s \<longrightarrow> tlb_ok (free_state st 1 s)" by (intro impI, rule tlb_ok_cong [rotated 4]) auto
qed

text \<open>Filling it does not show.\<close>

lemma spare_fill:
  assumes "vm_inv s" "spare s st" "slot d = slot (dev s)"
  shows "vm_inv (s\<lparr>dev := d, frames := (frames s)(st := x)\<rparr>)" "vm_keeps slot {st} s (s\<lparr>dev := d, frames := (frames s)(st := x)\<rparr>)"
    "tlb_ok s \<longrightarrow> tlb_ok (s\<lparr>dev := d, frames := (frames s)(st := x)\<rparr>)"
    "spare (s\<lparr>dev := d, frames := (frames s)(st := x)\<rparr>) st"
proof -
  let ?s = "s\<lparr>dev := d, frames := (frames s)(st := x)\<rparr>"
  show "vm_inv ?s" using assms(1) vm_inv_cong [of ?s s] by simp
  have "view slot ?s a va = view slot s a va" if "upage va" for a va
  proof (cases "pte_of s a va")
    case (Some e)
    then show ?thesis using spareD(4) [OF assms(2), of a va] that assms(3) by (auto simp: view_def resident_def)
  qed (simp add: view_def)
  then show "vm_keeps slot {st} s ?s"
    using resident_cong(1) [of ?s s] cm_wf_cong(2) [of ?s s] by (simp add: vm_keeps_def)
  show "tlb_ok s \<longrightarrow> tlb_ok ?s" by (intro impI, rule tlb_ok_cong [rotated 4]) auto
  show "spare ?s st" using assms(2) spare_cong [of ?s s] by simp
qed

lemma spare_drop:
  assumes "vm_keeps slot {} s0 s" "vm_keeps slot {st} s s'" "\<not> (used (ent s0 st) \<and> kernel_page (ent s0 st))"
  shows "vm_keeps slot {} s0 s'"
  using vm_keeps_trans [OF assms(1,2)] assms(3) by (auto intro: vm_keeps_drop)

text \<open>It is given to a page of a user.\<close>

lemma spare_map:
  assumes inv: "vm_inv s" and sp: "spare s st" and up: "upage pg"
    and e: "pte_of s a pg = Some e" "\<not> (valid e \<and> in_mem e)"
    and f: "valid (f e)" "in_mem (f e)" "ppn (f e) = st" "readonly (f e) = ro"
    and b: "bitmap_ok b" "bm_nbits b = swap_slots s"
      "\<forall>j \<in> bm_marked (swap_bitmap s) - bm_marked b. swapped s a pg j"
  defines "s' \<equiv> mapped st a pg f b s"
  shows "vm_inv s'" "view slot s' a pg = Some (frames s st, ro)" "resident s' a pg st" "tlb_ok s \<longrightarrow> tlb_ok s'"
    "\<And>s0. vm_keeps slot {} s0 s \<Longrightarrow> \<not> (used (ent s0 st) \<and> kernel_page (ent s0 st)) \<Longrightarrow> fault_keeps slot a pg s0 s'"
proof -
  note pt = mapped_pte [OF inv up, where st = st and a = a and f = f and b = b]
  show inv': "vm_inv s'" unfolding s'_def
    by (rule mapped_inv [where f = f, OF inv up spareD(1,3,4) [OF sp] e f(1-3) b])
  show v: "view slot s' a pg = Some (frames s st, ro)" and "resident s' a pg st"
    using pt [OF up, of a] e(1) f up by (simp_all add: s'_def view_def resident_def)
  show "tlb_ok s \<longrightarrow> tlb_ok s'" using pt e by (intro impI, intro tlb_ok_cong [of s' s]) (auto simp: s'_def)
  show "fault_keeps slot a pg s0 s'" if k: "vm_keeps slot {} s0 s" and fresh: "\<not> (used (ent s0 st) \<and> kernel_page (ent s0 st))" for s0
  proof -
    note K = vm_keepsD [OF k]
    have "view slot s' c va = view slot s0 c va" if va: "upage va" "(c, va) \<noteq> (a, pg)" for c va
    proof -
      have "pte_of s' c va = pte_of s c va" using pt [OF va(1), of c] va(2) by (auto simp: s'_def)
      then have "view slot s' c va = view slot s c va" by (rule view_eq) (simp_all add: s'_def)
      then show ?thesis using K(1) [OF va(1)] by simp
    qed
    moreover have "ent s' p = ent s0 p \<and> frames s' p = frames s0 p"
      if p: "p < last_page s0" "used (ent s0 p)" "kernel_page (ent s0 p)" for p
    proof -
      have "p \<noteq> st" using fresh p by blast
      then have "ent s' p = ent s p" by (simp add: s'_def mapped_def)
      then show ?thesis using K(5,10) [of p] p by (simp add: s'_def)
    qed
    moreover have "rel_option as_same (spaces s' c) (spaces s0 c)" for c
      using rel_as_trans [OF mapped_spaces K(6)] by (simp add: s'_def)
    ultimately show ?thesis using K(2,3,4,9) unfolding fault_keeps_def by (simp add: s'_def)
  qed
qed

lemma set_user_page_mapped:
  assumes "vm_inv s" "spare s st" "upage pg"
  shows "cm_set_user_page st a pg (as_pte_store a f pg (s\<lparr>swap_bitmap := b\<rparr>)) = Some (mapped st a pg f b s)"
proof -
  have "pg AND PAGE_FRAME = pg" using upage_and [OF assms(3)] by (simp add: TLBHI_VPAGE_def PAGE_FRAME_def)
  moreover have "st < length (entries s)" using spareD(5) [OF assms(2)] cm_wfD(1) [OF vm_invD(1) [OF assms(1)]] by simp
  moreover have "\<not> cm_lock s" using vm_invD(2) [OF assms(1)] .
  ultimately show ?thesis
    by (simp add: cm_set_user_page_def cm_acquire_def cm_release_def as_pte_store_def as_update_def mapped_def Let_def)
qed

lemma store_twice:
  assumes "vm_inv s" "upage va"
  shows "as_pte_store a g va ((as_pte_store a f va s)\<lparr>swap_bitmap := b\<rparr>) = as_pte_store a (\<lambda>e. g (f e)) va (s\<lparr>swap_bitmap := b\<rparr>)"
proof -
  have tw: "pte_store g va (pte_store f va (as_pt as)) = pte_store (\<lambda>e. g (f e)) va (as_pt as)" if "spaces s a = Some as" for as
  proof -
    have "pt_wf (as_pt as)" using vm_invD(5) [OF assms(1) that] .
    then have w: "length (l2_entries (as_pt as)) = L1_SIZE"
      "\<And>l2. l2_entries (as_pt as) ! GET_L1_INDEX va = Some l2 \<Longrightarrow> length (l2_ptes l2) = L2_SIZE"
      using upage_index(1) [OF assms(2)] by (auto simp: pt_wf_def)
    then show ?thesis using upage_index [OF assms(2)] by (auto simp: pte_store_def split: option.split)
  qed
  then show ?thesis
    by (cases "spaces s a") (simp_all add: as_pte_store_def as_update_def)
qed

section \<open>A new page\<close>

context swap_device
begin

text \<open>A second-level table is added where no page of the address space is.\<close>

lemma new_table_ok:
  assumes inv: "vm_inv s" and none: "\<And>va. upage va \<Longrightarrow> GET_L1_INDEX va = i \<Longrightarrow> view slot s a va = None" and i: "i < L1_SIZE"
    and s'_def: "s' = as_update a (\<lambda>as. as\<lparr>as_pt := (as_pt as)\<lparr>l2_entries :=
     (l2_entries (as_pt as))[i := Some \<lparr>l2_addr = kv, l2_ptes = replicate L2_SIZE zero_pte\<rparr>]\<rparr>\<rparr>) s"
  shows "vm_inv s'" "vm_keeps slot {} s s'" "tlb_ok s \<longrightarrow> tlb_ok s'"
    "spaces s a = Some as \<Longrightarrow> upage va \<Longrightarrow> GET_L1_INDEX va = i \<Longrightarrow> pte_of s' a va = Some zero_pte"
proof -
  note v = vm_invD [OF inv]
  have pt: "pte_of s' b va = (if b = a \<and> GET_L1_INDEX va = i \<and> spaces s a \<noteq> None then Some zero_pte else pte_of s b va)"
    if "upage va" for b va
  proof (cases "spaces s b")
    case (Some as)
    have w: "pt_wf (as_pt as)" using v(5) [OF Some] .
    then have w': "pt_wf ((as_pt as)\<lparr>l2_entries := (l2_entries (as_pt as))[i := Some \<lparr>l2_addr = kv, l2_ptes = replicate L2_SIZE zero_pte\<rparr>]\<rparr>)"
      using i by (auto simp: pt_wf_def nth_list_update)
    have "length (l2_entries (as_pt as)) = L1_SIZE" using w by (simp add: pt_wf_def)
    then show ?thesis using Some lookup_eq [OF w that] lookup_eq [OF w' that] upage_index [OF that] i
      by (auto simp: pte_of_def s'_def as_update_def nth_list_update)
  qed (auto simp: pte_of_def s'_def as_update_def)
  have inval: "\<not> valid e" if "upage va" "GET_L1_INDEX va = i" "pte_of s a va = Some e" for va e
    using none [OF that(1,2)] that(3) by (auto simp: view_def split: if_splits)
  have z: "\<not> valid zero_pte" by (simp add: zero_pte_def)
  have val: "(pte_of s' b va = Some e \<and> valid e) = (pte_of s b va = Some e \<and> valid e)" if "upage va" for b va e
    using pt [OF that, of b] inval [OF that] z by (auto split: if_splits)
  have rs: "resident s' = resident s" "swapped s' = swapped s"
    using val by (intro ext; unfold resident_def swapped_def; blast)+
  have same: "entries s' = entries s" "cm_page_count s' = cm_page_count s" "first_page s' = first_page s" "last_page s' = last_page s"
    "cm_lock s' = cm_lock s" "swap_bitmap s' = swap_bitmap s" "swap_slots s' = swap_slots s" "frames s' = frames s" "dev s' = dev s"
    "tlb s' = tlb s" "tlb_next_victim s' = tlb_next_victim s" "curas s' = curas s"
    by (simp_all add: s'_def as_update_def)
  note cong = cm_wf_cong [of s' s, OF same(1)]
  have ptw: "pt_wf (as_pt as)" if "spaces s' x = Some as" for x as
    using that v(5) i by (auto simp: s'_def as_update_def pt_wf_def nth_list_update split: if_splits)
  have "\<exists>k\<in>bm_marked (swap_bitmap s). swap_offset e = int k * int PAGE_SIZE"
    if "upage va" "pte_of s' b va = Some e" "valid e" "\<not> in_mem e" for b va e
    using val [OF that(1), of b e] that v(9) by blast
  then show "vm_inv s'" unfolding vm_inv_def same rs
    using v(1-4,6-8,10) ptw cong same by (intro conjI; simp)
  have "view slot s' b va = view slot s b va" if "upage va" for b va
  proof (cases "b = a \<and> GET_L1_INDEX va = i \<and> spaces s a \<noteq> None")
    case True
    then show ?thesis using pt [OF that, of b] none [OF that] z by (simp add: view_def)
  next
    case False
    then have "pte_of s' b va = pte_of s b va" using pt [OF that, of b] by (simp only: if_False)
    then show ?thesis by (rule view_eq) (simp_all add: same)
  qed
  moreover have "rel_option as_same (spaces s' b) (spaces s b)" for b
    by (cases "spaces s b") (auto simp: s'_def as_update_def as_same_def)
  ultimately show "vm_keeps slot {} s s'" using same cong rs by (simp add: vm_keeps_def)
  show "tlb_ok s \<longrightarrow> tlb_ok s'"
    using val by (intro impI, intro tlb_ok_cong [of s' s]) (auto simp: same)
  show "spaces s a = Some as \<Longrightarrow> upage va \<Longrightarrow> GET_L1_INDEX va = i \<Longrightarrow> pte_of s' a va = Some zero_pte"
    using pt by simp
qed

lemma addl2_ok:
  assumes inv: "vm_inv s" and up: "upage pg" and as: "spaces s a = Some as"
    and r: "pagetable_addl2 D a (GET_L1_INDEX pg) s = Some (r, s')"
  shows "vm_inv s'" "vm_keeps slot {} s s'" "tlb_ok s \<longrightarrow> tlb_ok s'" "r = Inr () \<Longrightarrow> \<exists>e. pte_of s' a pg = Some e"
proof -
  have w: "pt_wf (as_pt as)" using vm_invD(5) [OF inv as] .
  note ix = upage_index [OF up]
  have len: "length (l2_entries (as_pt as)) = L1_SIZE" using w by (simp add: pt_wf_def)
  have "vm_inv s' \<and> vm_keeps slot {} s s' \<and> (tlb_ok s \<longrightarrow> tlb_ok s') \<and> (r = Inr () \<longrightarrow> (\<exists>e. pte_of s' a pg = Some e))"
  proof (cases "l2_entries (as_pt as) ! GET_L1_INDEX pg")
    case (Some l2)
    then have "s' = s" using r as ix len by (simp add: pagetable_addl2_def)
    then show ?thesis using inv Some lookup_eq [OF w up] as by (simp add: pte_of_def)
  next
    case None
    from r as ix len None obtain kv s1 where A: "alloc_kpages D KPAGES_L2_PTABLE s = Some (kv, s1)"
      and r': "(if kv = 0 then Some (Inl ENOMEM, s1)
         else Some (Inr (), as_update a (\<lambda>as. as\<lparr>as_pt := (as_pt as)\<lparr>l2_entries :=
           (l2_entries (as_pt as))[GET_L1_INDEX pg := Some \<lparr>l2_addr = kv, l2_ptes = replicate L2_SIZE zero_pte\<rparr>]\<rparr>\<rparr>) s1)) = Some (r, s')"
      by (auto simp: pagetable_addl2_def split: bind_splits)
    have a: "vm_inv s1" "vm_keeps slot {} s s1" "tlb_ok s \<longrightarrow> tlb_ok s1"
      using alloc_kpages_ok [OF inv, of KPAGES_L2_PTABLE] A by (simp_all add: alloc_result_def KPAGES_L2_PTABLE_def)
    have "pte_of s a va = None" if "upage va" "GET_L1_INDEX va = GET_L1_INDEX pg" for va
      using lookup_eq [OF w that(1)] that(2) None as by (simp add: pte_of_def)
    then have none: "view slot s1 a va = None" if "upage va" "GET_L1_INDEX va = GET_L1_INDEX pg" for va
      using vm_keepsD(1) [OF a(2) that(1), of a] that by (simp add: view_def)
    obtain as1 where as1: "spaces s1 a = Some as1" using vm_keepsD(6) [OF a(2), of a] as by (cases "spaces s1 a") auto
    show ?thesis
    proof (cases "kv = 0")
      case True
      then show ?thesis using r' a by auto
    next
      case False
      then have s': "s' = as_update a (\<lambda>as. as\<lparr>as_pt := (as_pt as)\<lparr>l2_entries :=
           (l2_entries (as_pt as))[GET_L1_INDEX pg := Some \<lparr>l2_addr = kv, l2_ptes = replicate L2_SIZE zero_pte\<rparr>]\<rparr>\<rparr>) s1"
        using r' by simp
      show ?thesis using new_table_ok [OF a(1) none ix(1) s'] a vm_keeps_trans [OF a(2), of "{}" s'] as1 up by auto
    qed
  qed
  then show "vm_inv s'" "vm_keeps slot {} s s'" "tlb_ok s \<longrightarrow> tlb_ok s'" "r = Inr () \<Longrightarrow> \<exists>e. pte_of s' a pg = Some e" by auto
qed

text \<open>The page \<^verbatim>\<open>alloc_user_page\<close> returns.\<close>

lemma user_page_spare:
  assumes "vm_inv s" "alloc_user_page D s = Some (kv, s1)" "kv \<noteq> 0"
  obtains st where "kv = MIPS_KSEG0 + st * PAGE_SIZE" "vm_inv s1" "vm_keeps slot {} s s1" "tlb_ok s \<longrightarrow> tlb_ok s1" "spare s1 st"
    "\<not> (used (ent s st) \<and> kernel_page (ent s st))"
  using alloc_user_page_ok [OF assms(1)] assms(2,3)
  by (auto simp: alloc_result_def fresh_block_def spare_def less_Suc_eq_le)

text \<open>Giving it back.\<close>

lemma spare_undo:
  assumes "vm_inv s" "spare s st" "vm_keeps slot {} s0 s" "\<not> (used (ent s0 st) \<and> kernel_page (ent s0 st))"
  shows "vm_keeps slot {} s0 (free_state st 1 s)"
  by (rule spare_drop [OF assms(3) spare_free(3) [OF assms(1,2)] assms(4)])

definition fault_result :: "nat \<Rightarrow> nat \<Rightarrow> (page \<times> bool) \<Rightarrow> 'd vm \<Rightarrow> (errno + unit) \<Rightarrow> 'd vm \<Rightarrow> bool" where
  "fault_result a pg x s r s' \<longleftrightarrow> vm_inv s' \<and> (tlb_ok s \<longrightarrow> tlb_ok s') \<and>
     (case r of
        Inl _ \<Rightarrow> vm_keeps slot {} s s'
      | Inr _ \<Rightarrow> fault_keeps slot a pg s s' \<and> view slot s' a pg = Some x \<and> (\<exists>p. resident s' a pg p) \<and>
          (pg \<in> fst ` set (tlb s') \<longrightarrow> pg \<in> fst ` set (tlb s)))"

lemma fault_new_page_ok:
  assumes inv: "vm_inv s" and up: "upage pg" and as: "spaces s a = Some as" and none: "view slot s a pg = None"
    and r: "fault_new_page D a pg s = Some (r, s')"
  shows "case get_region_permissions as pg of
      Inl _ \<Rightarrow> (\<exists>e. r = Inl e) \<and> vm_inv s' \<and> (tlb_ok s \<longrightarrow> tlb_ok s') \<and> vm_keeps slot {} s s'
    | Inr (rd, wr, ex) \<Rightarrow> fault_result a pg (\<lambda>_. 0, \<not> wr) s r s'"
proof -
  from r obtain kv s1 where A: "alloc_user_page D s = Some (kv, s1)" by (auto simp: fault_new_page_def split: bind_splits)
  show ?thesis
  proof (cases "kv = 0")
    case True
    then have "r = Inl ENOMEM" "s' = s1" using r A by (simp_all add: fault_new_page_def)
    then show ?thesis using alloc_user_page_ok [OF inv] A
      by (auto simp: alloc_result_def fault_result_def split: sum.split)
  next
    case False
    from user_page_spare [OF inv A False] obtain st where st: "kv = MIPS_KSEG0 + st * PAGE_SIZE" "vm_inv s1" "vm_keeps slot {} s s1"
      "tlb_ok s \<longrightarrow> tlb_ok s1" "spare s1 st" "\<not> (used (ent s st) \<and> kernel_page (ent s st))" by blast
    let ?s2 = "s1\<lparr>frames := (frames s1)(st := (\<lambda>_. 0))\<rparr>"
    note F = spare_fill [where x = "\<lambda>_. 0" and slot = slot, OF st(2,5) refl, simplified]
    have k2: "vm_keeps slot {} s ?s2" using spare_drop [OF st(3) F(2) st(6)] .
    have t2: "tlb_ok s \<longrightarrow> tlb_ok ?s2" using st(4) F(3) by blast
    note ad = spare_addr [OF F(1,4), folded st(1)] and fr = spare_free(1) [OF F(1,4), folded st(1)]
    obtain as1 where as1: "spaces s1 a = Some as1" "as_same as1 as" using vm_keepsD(6) [OF st(3), of a] as by (cases "spaces s1 a") auto
    note pm = perms_same(1) [OF as1(2), of pg]
    show ?thesis
    proof (cases "get_region_permissions as pg")
      case (Inl e)
      then have "r = Inl EFAULT" "s' = free_state st 1 ?s2"
        using r A False as1(1) pm ad fr by (simp_all add: fault_new_page_def Let_def)
      then show ?thesis using Inl spare_free [OF F(1,4)] spare_undo [OF F(1,4) k2 st(6)] t2 by simp
    next
      case (Inr q)
      obtain rd wr ex where q: "q = (rd, wr, ex)" by (cases q)
      obtain r1 s3 where I: "pagetable_addl2 D a (GET_L1_INDEX pg) ?s2 = Some (r1, s3)"
        using r A False as1(1) pm ad Inr q by (auto simp: fault_new_page_def pagetable_insert_def Let_def split: bind_splits)
      have as2: "spaces ?s2 a = Some as1" using as1(1) by simp
      note L = addl2_ok [OF F(1) up as2 I]
      have k3: "vm_keeps slot {} s s3" using vm_keeps_trans [OF k2 L(2)] by simp
      have t3: "tlb_ok s \<longrightarrow> tlb_ok s3" using t2 L(3) by blast
      have sp: "spare s3 st" using spare_keeps [OF F(4) L(2)] .
      show ?thesis
      proof (cases r1)
        case (Inl e)
        then have "r = Inl e" "s' = s3"
          using r A False as1(1) pm ad Inr q I by (simp_all add: fault_new_page_def pagetable_insert_def Let_def)
        then show ?thesis using Inr q L k3 t3 by (simp add: fault_result_def)
      next
        case ok: (Inr u)
        let ?f = "\<lambda>_. \<lparr>valid = True, in_mem = True, readonly = \<not> wr, dirty = False, swap_offset = SWAP_OFFSET_NONE, ppn = st\<rparr>"
        let ?b = "swap_bitmap s3" and ?s4 = "as_pte_store a ?f pg s3"
        obtain e where e: "pte_of s3 a pg = Some e" using L(4) ok by auto
        have nv: "\<not> valid e" using vm_keepsD(1) [OF k3 up, of a] none e by (auto simp: view_def)
        have bs: "s3\<lparr>swap_bitmap := ?b\<rparr> = s3" by simp
        note S = set_user_page_mapped [OF L(1) sp up, of a ?f ?b, unfolded bs]
        have b: "bitmap_ok ?b" "bm_nbits ?b = swap_slots s3" using vm_invD(3,4) [OF L(1)] by simp_all
        obtain as4 where as4: "spaces ?s4 a = Some as4" "pagetable_lookup (as_pt as4) pg = Some (Some (?f e))"
        proof -
          have "pte_of ?s4 a pg = Some (?f e)"
            using pte_of_store [of s3 a pg pg ?f a] vm_invD(5) [OF L(1)] up e by simp
          then show thesis using that by (auto simp: pte_of_def bind_eq_Some_conv)
        qed
        have "r = Inr ()" "s' = mapped st a pg ?f ?b s3"
          using r A False as1(1) pm ad Inr q I ok S as4 by (simp_all add: fault_new_page_def pagetable_insert_def Let_def)
        moreover have "frames s3 st = (\<lambda>_. 0)"
          using vm_keepsD(10) [OF L(2), of st] spareD [OF F(4)] by simp
        moreover have e2: "\<not> (valid e \<and> in_mem e)" "valid (?f e)" "in_mem (?f e)" "ppn (?f e) = st"
          "\<forall>j \<in> bm_marked (swap_bitmap s3) - bm_marked ?b. swapped s3 a pg j" using nv by simp_all
        note M = spare_map [where f = ?f, OF L(1) sp up e e2(1-4) refl b e2(5)]
        have "pg \<in> fst ` set (tlb s3) \<longrightarrow> pg \<in> fst ` set (tlb s)" using vm_keepsD(9) [OF k3 up] by blast
        ultimately show ?thesis
          using M(1-4) M(5) [OF k3 st(6)] t3 Inr q by (auto simp: fault_result_def simp del: image_iff)
      qed
    qed
  qed
qed

text \<open>A page comes back from the swap device.\<close>

lemma fault_swap_in_ok:
  assumes inv: "vm_inv s" and up: "upage pg" and as: "spaces s a = Some as"
    and v: "view slot s a pg = Some x" "\<And>p. \<not> resident s a pg p"
    and r: "fault_swap_in D a pg s = Some (r, s')"
  shows "fault_result a pg x s r s'"
proof -
  from r obtain kv s1 where A: "alloc_user_page D s = Some (kv, s1)" by (auto simp: fault_swap_in_def split: bind_splits)
  show ?thesis
  proof (cases "kv = 0")
    case True
    then have "r = Inl ENOMEM" "s' = s1" using r A by (simp_all add: fault_swap_in_def)
    then show ?thesis using alloc_user_page_ok [OF inv] A by (auto simp: alloc_result_def fault_result_def)
  next
    case False
    from user_page_spare [OF inv A False] obtain st where st: "kv = MIPS_KSEG0 + st * PAGE_SIZE" "vm_inv s1" "vm_keeps slot {} s s1"
      "tlb_ok s \<longrightarrow> tlb_ok s1" "spare s1 st" "\<not> (used (ent s st) \<and> kernel_page (ent s st))" by blast
    note ad = spare_addr [OF st(2,5), folded st(1)]
    have v1: "view slot s1 a pg = Some x" using vm_keepsD(1) [OF st(3) up, of a] v(1) by simp
    then obtain e where e: "pte_of s1 a pg = Some e" "valid e" by (auto simp: view_def split: option.splits if_splits)
    have nm: "\<not> in_mem e" using vm_keepsD(8) [OF st(3), of a pg "ppn e"] v(2) e up by (auto simp: resident_def)
    obtain i where i: "i \<in> bm_marked (swap_bitmap s1)" "swap_offset e = int i * int PAGE_SIZE"
      using vm_invD(9) [OF st(2) up e nm] by blast
    have x: "x = (slot (dev s1) i, readonly e)" using v1 e nm i by (simp add: view_def PAGE_SIZE_def)
    obtain as1 where as1: "spaces s1 a = Some as1" "pagetable_lookup (as_pt as1) pg = Some (Some e)"
      using e(1) by (auto simp: pte_of_def bind_eq_Some_conv)
    obtain rr pg' d where R: "vop_read D (frames s1 st) (int i * int PAGE_SIZE) (dev s1) = Some (rr, pg', d)" using read_returns by blast
    let ?s2 = "s1\<lparr>dev := d, frames := (frames s1)(st := pg')\<rparr>"
    note F = spare_fill [where x = pg', OF st(2,5) read_keeps [OF R]] and U = spare_free(1) [OF spare_fill(1,4) [OF st(2,5) read_keeps [OF R]], folded st(1)]
    have k2: "vm_keeps slot {} s ?s2" using spare_drop [OF st(3) F(2) st(6)] .
    have t2: "tlb_ok s \<longrightarrow> tlb_ok ?s2" using st(4) F(3) by blast
    have so: "swap_offset e \<noteq> SWAP_OFFSET_NONE" using i(2) by (simp add: SWAP_OFFSET_NONE_def PAGE_SIZE_def)
    have sr: "swap_read_page D (KVADDR_TO_PADDR kv) (swap_offset e) s1 =
        Some (case rr of Inl e \<Rightarrow> Inl e | Inr n \<Rightarrow> if n \<noteq> 0 then Inl EIO else Inr (), ?s2)"
      using R ad i(2) by (auto simp: swap_read_page_def Let_def split: sum.split)
    show ?thesis
    proof (cases "rr = Inr 0")
      case True
      then have "pg' = slot (dev s1) i" using read_ok R by simp
      obtain b where b: "bitmap_unmark (swap_bitmap s1) i = Some b" "bitmap_ok b" "bm_nbits b = bm_nbits (swap_bitmap s1)"
        "bm_marked b = bm_marked (swap_bitmap s1) - {i}"
        using bm.free_used [OF vm_invD(3) [OF st(2)] i(1)] by auto
      have "i < swap_slots s1" using i(1) vm_invD(4) [OF st(2)] by (simp add: bm_marked_def)
      let ?f = "\<lambda>e. e\<lparr>ppn := st, in_mem := True, dirty := False\<rparr>" and ?g = "\<lambda>e. e\<lparr>swap_offset := SWAP_OFFSET_NONE\<rparr>"
      let ?h = "\<lambda>e. ?g (?f e)"
      have fs: "swap_free_slot (swap_offset e) (as_pte_store a ?f pg ?s2) = Some ((as_pte_store a ?f pg ?s2)\<lparr>swap_bitmap := b\<rparr>)"
        using so i(2) b(1) \<open>i < swap_slots s1\<close>
        by (simp add: swap_free_slot_def as_pte_store_def as_update_def PAGE_SIZE_def Let_def)
      note S = set_user_page_mapped [OF F(1,4) up, of a ?h b] and tw = store_twice [OF F(1) up, where g = ?g and f = ?f and b = b and a = a]
      have "r = Inr ()" "s' = mapped st a pg ?h b ?s2"
        using r A False as1 so sr True ad(1) fs S tw by (simp_all add: fault_swap_in_def Let_def)
      have "swapped ?s2 a pg i" using e nm i up by (simp add: swapped_def)
      then have bj: "\<forall>j \<in> bm_marked (swap_bitmap ?s2) - bm_marked b. swapped ?s2 a pg j" using b(4) by auto
      have e2: "pte_of ?s2 a pg = Some e" "\<not> (valid e \<and> in_mem e)" "valid (?h e)" "in_mem (?h e)" "ppn (?h e) = st"
        "bm_nbits b = swap_slots ?s2"
        using e nm b(3) vm_invD(4) [OF st(2)] by simp_all
      note M = spare_map [where f = ?h, OF F(1,4) up e2(1-5) refl b(2) e2(6) bj]
      show ?thesis unfolding fault_result_def \<open>r = Inr ()\<close> \<open>s' = mapped st a pg ?h b ?s2\<close>
        using M(1-4) M(5) [OF k2 st(6)] t2 x vm_keepsD(9) [OF k2 up] \<open>pg' = slot (dev s1) i\<close> by auto
    next
      case err: False
      then obtain e' where "r = Inl e'" "s' = free_state st 1 ?s2"
        using r A False as1 so sr ad(1) U by (cases rr) (auto simp: fault_swap_in_def Let_def)
      then show ?thesis using spare_free [OF F(1,4)] spare_undo [OF F(1,4) k2 st(6)] t2 by (simp add: fault_result_def)
    qed
  qed
qed

end

section \<open>The TLB entry\<close>

lemma tlblo_dirty: "tlblo e AND TLBLO_DIRTY = 0 \<longleftrightarrow> readonly e"
proof -
  have b: "bit (2 ^ m :: nat) n = (n = m)" for m n by (auto simp: bit_exp_iff)
  have "TLBLO_DIRTY = 2 ^ 10" "TLBLO_VALID = 2 ^ 9" by (simp_all add: TLBLO_DIRTY_def TLBLO_VALID_def)
  then have d: "bit TLBLO_DIRTY n = (n = 10)" and v: "bit TLBLO_VALID n = (n = 9)" for n
    using b [of 10 n] b [of 9 n] by metis+
  have p: "\<not> bit TLBLO_PPAGE 10" by (simp add: TLBLO_PPAGE_def bit_iff_odd)
  have "bit (tlblo e) 10 = (\<not> readonly e)" by (simp add: tlblo_def Let_def bit_simps d v p)
  moreover have "tlblo e AND TLBLO_DIRTY = 0 \<longleftrightarrow> \<not> bit (tlblo e) 10"
  proof -
    have "bit (tlblo e AND TLBLO_DIRTY) n = (n = 10 \<and> bit (tlblo e) 10)" for n by (auto simp: bit_simps d)
    then show ?thesis by (metis bit_0_eq bit_eqI bot_apply bot_bool_def)
  qed
  ultimately show ?thesis by simp
qed

lemma tlb_insert_ok:
  assumes ok: "tlb_ok s" and up: "upage pg" and a: "curas s = Some a"
    and e: "pte_of s a pg = Some e" "valid e" "in_mem e" and new: "pg \<notin> fst ` set (tlb s)"
  shows "tlb_ok (tlb_insert_entry pg (tlblo e) s)" "(pg, tlblo e) \<in> set (tlb (tlb_insert_entry pg (tlblo e) s))"
    "\<exists>i v. tlb_insert_entry pg (tlblo e) s = s\<lparr>tlb := (tlb s)[i := (pg, tlblo e)], tlb_next_victim := v\<rparr>"
proof -
  note t = tlb_okD [OF ok]
  obtain i v where i: "i < 64" "v < 64"
    and eq: "tlb_insert_entry pg (tlblo e) s = s\<lparr>tlb := (tlb s)[i := (pg, tlblo e)], tlb_next_victim := v\<rparr>"
  proof (cases "find (\<lambda>i. snd (tlb s ! i) AND TLBLO_VALID = 0) [0..<NUM_TLB]")
    case None
    then show thesis using that [of "tlb_next_victim s" "(tlb_next_victim s + 1) mod NUM_TLB"] t(2)
      by (simp add: tlb_insert_entry_def tlb_write_def NUM_TLB_def)
  next
    case (Some i)
    then have "i < 64" by (auto simp: find_Some_iff NUM_TLB_def)
    then show thesis using that [of i "tlb_next_victim s"] Some t(2)
      by (simp add: tlb_insert_entry_def tlb_write_def)
  qed
  have ne: "fst (tlb s ! j) \<noteq> pg" if "j < 64" for j using new t(1) that by (metis image_eqI nth_mem)
  let ?s = "s\<lparr>tlb := (tlb s)[i := (pg, tlblo e)], tlb_next_victim := v\<rparr>"
  have "tlb_ok ?s"
  proof (rule tlb_okI)
    show "length (tlb ?s) = 64" "tlb_next_victim ?s < 64" using t(1) i by simp_all
    have "pg \<notin> set (map fst (tlb s))" using new by simp
    then have "distinct ((map fst (tlb s))[i := pg])" by (intro distinct_list_update t(3)) auto
    then show "distinct (map fst (tlb ?s))" by (simp add: map_update)
    fix j :: nat
    assume j: "j < 64"
    show "if snd (tlb ?s ! j) AND TLBLO_VALID = 0 then fst (tlb ?s ! j) = TLBHI_INVALID j
       else \<exists>a e. curas ?s = Some a \<and> upage (fst (tlb ?s ! j)) \<and> pte_of ?s a (fst (tlb ?s ! j)) = Some e \<and>
              valid e \<and> in_mem e \<and> snd (tlb ?s ! j) = tlblo e"
    proof (cases "j = i")
      case True
      then show ?thesis using i t(1) tlblo_valid [of e] a e up by simp
    next
      case False
      then show ?thesis using t(4,5) [OF j] by simp
    qed
  qed
  then show "tlb_ok (tlb_insert_entry pg (tlblo e) s)" using eq by simp
  show "(pg, tlblo e) \<in> set (tlb (tlb_insert_entry pg (tlblo e) s))" using eq i t(1) by (simp add: set_update_memI)
  show "\<exists>i v. tlb_insert_entry pg (tlblo e) s = s\<lparr>tlb := (tlb s)[i := (pg, tlblo e)], tlb_next_victim := v\<rparr>" using eq by blast
qed

section \<open>The whole fault\<close>

text \<open>Locking an address space and marking a page dirty change nothing that counts.\<close>

definition pte_like :: "pte \<Rightarrow> pte \<Rightarrow> bool" where
  "pte_like x y \<longleftrightarrow> valid x = valid y \<and> in_mem x = in_mem y \<and> readonly x = readonly y \<and> ppn x = ppn y \<and> swap_offset x = swap_offset y"

lemma pte_like_refl [simp]: "rel_option pte_like x x"
  by (cases x) (simp_all add: pte_like_def)

lemma tlblo_like: "pte_like x y \<Longrightarrow> tlblo x = tlblo y"
  by (simp add: pte_like_def tlblo_def)

definition vm_like :: "'d vm \<Rightarrow> 'd vm \<Rightarrow> bool" where
  "vm_like s' s \<longleftrightarrow>
     (\<forall>b va. upage va \<longrightarrow> rel_option pte_like (pte_of s' b va) (pte_of s b va)) \<and> (\<forall>b as. spaces s' b = Some as \<longrightarrow> pt_wf (as_pt as)) \<and>
     entries s' = entries s \<and> cm_page_count s' = cm_page_count s \<and> first_page s' = first_page s \<and> last_page s' = last_page s \<and>
     cm_lock s' = cm_lock s \<and> swap_bitmap s' = swap_bitmap s \<and> swap_slots s' = swap_slots s \<and> frames s' = frames s \<and> dev s' = dev s \<and>
     tlb s' = tlb s \<and> tlb_next_victim s' = tlb_next_victim s \<and> curas s' = curas s"

lemma vm_like:
  assumes "vm_inv s" "vm_like s' s"
  shows "vm_inv s'" "resident s' = resident s" "upage va \<Longrightarrow> view slot s' a va = view slot s a va" "tlb_ok s \<Longrightarrow> tlb_ok s'"
proof -
  note v = vm_invD [OF assms(1)]
  have pe: "upage va \<Longrightarrow> rel_option pte_like (pte_of s' b va) (pte_of s b va)" for b va using assms(2) by (simp add: vm_like_def)
  have same: "entries s' = entries s" "cm_page_count s' = cm_page_count s" "first_page s' = first_page s" "last_page s' = last_page s"
    "cm_lock s' = cm_lock s" "swap_bitmap s' = swap_bitmap s" "swap_slots s' = swap_slots s" "frames s' = frames s" "dev s' = dev s"
    "tlb s' = tlb s" "tlb_next_victim s' = tlb_next_victim s" "curas s' = curas s"
    using assms(2) by (simp_all add: vm_like_def)
  have to: "\<exists>x. pte_of s' b va = Some x \<and> pte_like x y" if "upage va" "pte_of s b va = Some y" for b va y
    using pe [OF that(1), of b] that(2) by (cases "pte_of s' b va") auto
  have fro: "\<exists>y. pte_of s b va = Some y \<and> pte_like x y" if "upage va" "pte_of s' b va = Some x" for b va x
    using pe [OF that(1), of b] that(2) by (cases "pte_of s b va") auto
  have rs: "resident s' b va p = resident s b va p" "swapped s' b va i = swapped s b va i" for b va p i
    using pe [of va b]
    by (cases "pte_of s b va"; cases "pte_of s' b va"; cases "upage va"; force simp: resident_def swapped_def pte_like_def)+
  then show r: "resident s' = resident s" by (intro ext)
  have w: "swapped s' = swapped s" using rs by (intro ext)
  have "\<exists>i\<in>bm_marked (swap_bitmap s). swap_offset e = int i * int PAGE_SIZE"
    if e: "upage va" "pte_of s' b va = Some e" "valid e" "\<not> in_mem e" for b va e
  proof -
    obtain y where y: "pte_of s b va = Some y" "pte_like e y" using fro [OF e(1,2)] by blast
    then show ?thesis using v(9) [OF e(1) y(1)] e(3,4) by (simp add: pte_like_def)
  qed
  moreover have "pt_wf (as_pt as)" if "spaces s' b = Some as" for b as using that assms(2) by (simp add: vm_like_def)
  ultimately show "vm_inv s'" unfolding vm_inv_def same r w
    using v(1-4,6-8,10) cm_wf_cong [of s' s] same by (intro conjI; simp)
  show "view slot s' a va = view slot s a va" if "upage va"
    using pe [OF that, of a] by (cases "pte_of s a va"; cases "pte_of s' a va") (auto simp: view_def pte_like_def same)
  show "tlb_ok s'" if "tlb_ok s"
  proof (rule tlb_ok_cong [of s' s, OF same(10-12) _ that])
    show "\<exists>e'. pte_of s' b va = Some e' \<and> valid e' \<and> in_mem e' \<and> tlblo e' = tlblo e"
      if e: "upage va" "pte_of s b va = Some e" "valid e" "in_mem e" for b va e
    proof -
      obtain x where x: "pte_of s' b va = Some x" "pte_like x e" using to [OF e(1,2)] by blast
      then show ?thesis using tlblo_like [OF x(2)] e(3,4) by (simp add: pte_like_def)
    qed
  qed
qed

lemma lock_like: "vm_inv s \<Longrightarrow> vm_like (as_update a (\<lambda>as. as\<lparr>as_held := h\<rparr>) s) s"
  using vm_invD(5) [of s]
  by (auto simp: vm_like_def pte_of_update) (auto simp: as_update_def split: if_splits)

lemma dirty_like:
  assumes "vm_inv s" "upage pg"
  shows "vm_like (as_pte_store a (\<lambda>e. e\<lparr>dirty := d\<rparr>) pg s) s"
proof -
  note w = vm_invD(5) [OF assms(1)]
  have "rel_option pte_like (pte_of (as_pte_store a (\<lambda>e. e\<lparr>dirty := d\<rparr>) pg s) b va) (pte_of s b va)" if "upage va" for b va
    using pte_of_store [of s a pg va "\<lambda>e. e\<lparr>dirty := d\<rparr>" b] w assms(2) that
    by (cases "pte_of s a pg") (auto simp: pte_like_def)
  then show ?thesis using w
    by (auto simp: vm_like_def) (auto simp: as_pte_store_def as_update_def pt_wf_store split: if_splits)
qed

abbreviation as_hold :: "nat \<Rightarrow> bool \<Rightarrow> 'd vm \<Rightarrow> 'd vm" where
  "as_hold a h \<equiv> as_update a (\<lambda>as. as\<lparr>as_held := h\<rparr>)"

lemma hold_frame [simp]:
  "entries (as_hold a h s) = entries s" "first_page (as_hold a h s) = first_page s" "last_page (as_hold a h s) = last_page s"
  "frames (as_hold a h s) = frames s" "tlb (as_hold a h s) = tlb s" "curas (as_hold a h s) = curas s"
  "spaces (as_hold a h s) b = (if b = a then map_option (\<lambda>as. as\<lparr>as_held := h\<rparr>) (spaces s a) else spaces s b)"
  by (simp_all add: as_update_def)

lemma unlock_keeps:
  assumes inv: "vm_inv s" "vm_inv s4" and as: "spaces s a = Some as" "\<not> as_held as" and k: "fault_keeps slot a pg (as_hold a True s) s4"
  shows "as_lock_release a s4 = Some (as_hold a False s4)" "fault_keeps slot a pg s (as_hold a False s4)"
proof -
  have sp: "rel_option as_same (spaces s4 b) (spaces (as_hold a True s) b)" for b using k unfolding fault_keeps_def by blast
  obtain as4 where as4: "spaces s4 a = Some as4" "as_held as4" "as_same (as4\<lparr>as_held := False\<rparr>) as"
    using sp [of a] as by (cases "spaces s4 a") (auto simp: as_same_def)
  then show "as_lock_release a s4 = Some (as_hold a False s4)" by (simp add: as_lock_release_def)
  have "rel_option as_same (spaces (as_hold a False s4) b) (spaces s b)" for b
    using sp [of b] as4 as by (cases "b = a") simp_all
  moreover have "view slot (as_hold a False s4) b va = view slot s b va" if "upage va" "(b, va) \<noteq> (a, pg)" for b va
    using k that vm_like(3) [OF inv(1) lock_like [OF inv(1)], where va = va and slot = slot]
      vm_like(3) [OF inv(2) lock_like [OF inv(2)], where va = va and slot = slot]
    unfolding fault_keeps_def by auto
  ultimately show "fault_keeps slot a pg s (as_hold a False s4)"
    using k unfolding fault_keeps_def by simp
qed

lemma fault_page:
  assumes "fa < MIPS_KSEG0"
  shows "upage (fa AND PAGE_FRAME)" "fa AND TLBHI_VPAGE = fa AND PAGE_FRAME"
proof -
  have "fa < 2 ^ 32" using assms by (simp add: MIPS_KSEG0_def)
  then have "fa AND PAGE_FRAME = fa div PAGE_SIZE * PAGE_SIZE" by (rule frame_bits)
  moreover have "fa div PAGE_SIZE * PAGE_SIZE < MIPS_KSEG0" using assms by (rule le_less_trans [rotated]) simp
  ultimately show "upage (fa AND PAGE_FRAME)" using assms by (simp add: upage_def)
  show "fa AND TLBHI_VPAGE = fa AND PAGE_FRAME" by (simp add: TLBHI_VPAGE_def PAGE_FRAME_def)
qed

text \<open>When the machine raises a fault: it has no entry for the page, or one that does not permit writing.\<close>

definition tlb_faults :: "faulttype \<Rightarrow> nat \<Rightarrow> 'd vm \<Rightarrow> bool" where
  "tlb_faults ft pg s \<longleftrightarrow>
     (if ft = VM_FAULT_READONLY
      then \<exists>lo. (pg, lo) \<in> set (tlb s) \<and> lo AND TLBLO_VALID \<noteq> 0 \<and> lo AND TLBLO_DIRTY = 0
      else pg \<notin> fst ` set (tlb s))"

lemma vm_fault_readonly:
  assumes inv: "vm_inv s" "tlb_ok s" and as: "curas s = Some a" "spaces s a = Some as" "\<not> as_held as"
    and fa: "fa < MIPS_KSEG0" and flt: "tlb_faults VM_FAULT_READONLY (fa AND PAGE_FRAME) s"
  shows "vm_fault D VM_FAULT_READONLY fa s = Some (Inl EFAULT, s)"
proof -
  let ?pg = "fa AND PAGE_FRAME" and ?as = "as\<lparr>as_held := True\<rparr>"
  note up = fault_page(1) [OF fa]
  obtain i where i: "i < 64" "fst (tlb s ! i) = ?pg" "snd (tlb s ! i) AND TLBLO_VALID \<noteq> 0" "snd (tlb s ! i) AND TLBLO_DIRTY = 0"
    using flt tlb_okD(1) [OF inv(2)] by (auto simp: tlb_faults_def in_set_conv_nth)
  obtain e where e: "pte_of s a ?pg = Some e" "valid e" "in_mem e" "readonly e"
    using tlb_okD(5) [OF inv(2) i(1,3)] i(2,4) as(1) tlblo_dirty by auto
  then have lk: "pagetable_lookup (as_pt as) ?pg = Some (Some e)" using as(2) by (auto simp: pte_of_def bind_eq_Some_conv)
  have un: "as_hold a False (as_hold a True s) = s"
    using as(2,3) by (intro vm.equality) (auto simp: as_update_def)
  have acq: "as_lock_acquire a s = Some (as_hold a True s)" using as by (simp add: as_lock_acquire_def)
  have rel: "as_lock_release a (as_hold a True s) = Some s" using as un by (simp add: as_lock_release_def)
  show ?thesis using as acq rel lk e by (simp add: vm_fault_def fault_tlb_def Let_def)
qed

context swap_device
begin

text \<open>What has become of the page of a fault that succeeds.\<close>

definition served :: "addrspace \<Rightarrow> nat \<Rightarrow> nat \<Rightarrow> 'd vm \<Rightarrow> 'd vm \<Rightarrow> bool" where
  "served as a pg s s' \<longleftrightarrow>
     (\<exists>x. view slot s' a pg = Some x \<and>
        (case view slot s a pg of
           Some y \<Rightarrow> x = y
         | None \<Rightarrow> \<exists>rd wr ex. get_region_permissions as pg = Inr (rd, wr, ex) \<and> x = (\<lambda>_. 0, \<not> wr))) \<and>
     (\<exists>e. pte_of s' a pg = Some e \<and> valid e \<and> in_mem e \<and> (pg, tlblo e) \<in> set (tlb s'))"

lemma fault_page_in:
  assumes inv: "vm_inv s" "tlb_ok s" and up: "upage pg" and as: "spaces s a = Some as"
    and lk: "pagetable_lookup (as_pt as) pg = Some entry"
    and r: "(case entry of None \<Rightarrow> fault_new_page D a pg s
       | Some e \<Rightarrow> if \<not> valid e then fault_new_page D a pg s else if \<not> in_mem e then fault_swap_in D a pg s else Some (Inr (), s)) = Some (r, s')"
  shows "vm_inv s' \<and> tlb_ok s' \<and>
    (case r of
       Inl _ \<Rightarrow> vm_keeps slot {} s s'
     | Inr _ \<Rightarrow> fault_keeps slot a pg s s' \<and> (pg \<in> fst ` set (tlb s') \<longrightarrow> pg \<in> fst ` set (tlb s)) \<and> (\<exists>p. resident s' a pg p) \<and>
         (\<exists>x. view slot s' a pg = Some x \<and>
           (case view slot s a pg of
              Some y \<Rightarrow> x = y
            | None \<Rightarrow> \<exists>rd wr ex. get_region_permissions as pg = Inr (rd, wr, ex) \<and> x = (\<lambda>_. 0, \<not> wr))))"
proof -
  have pt: "pte_of s a pg = entry" using as lk by (simp add: pte_of_def)
  show ?thesis
  proof (cases "view slot s a pg")
    case None
    then have n: "fault_new_page D a pg s = Some (r, s')" using r pt by (auto simp: view_def split: option.splits if_splits)
    show ?thesis
    proof (cases "get_region_permissions as pg")
      case (Inl e)
      then show ?thesis using fault_new_page_ok [OF inv(1) up as None n] inv(2) by auto
    next
      case (Inr q)
      obtain rd wr ex where "q = (rd, wr, ex)" by (cases q)
      then have "fault_result a pg (\<lambda>_. 0, \<not> wr) s r s'" using fault_new_page_ok [OF inv(1) up as None n] Inr by simp
      then show ?thesis using inv(2) None Inr \<open>q = (rd, wr, ex)\<close> by (cases r) (simp_all add: fault_result_def)
    qed
  next
    case (Some y)
    then obtain e where e: "entry = Some e" "valid e" using pt by (auto simp: view_def split: option.splits if_splits)
    show ?thesis
    proof (cases "in_mem e")
      case True
      then have "r = Inr ()" "s' = s" using r e by simp_all
      moreover have "resident s a pg (ppn e)" using e True pt up by (simp add: resident_def)
      ultimately show ?thesis using inv Some keeps_fault [OF vm_keeps_refl] by auto
    next
      case False
      then have "fault_swap_in D a pg s = Some (r, s')" using r e by simp
      moreover have "\<not> resident s a pg p" for p using False e pt by (simp add: resident_def)
      ultimately have "fault_result a pg y s r s'" by (rule fault_swap_in_ok [OF inv(1) up as Some, rotated])
      then show ?thesis using inv(2) Some by (cases r) (simp_all add: fault_result_def)
    qed
  qed
qed

lemma fault_tlb_ok:
  assumes inv: "vm_inv s" "tlb_ok s" and up: "upage (fa AND PAGE_FRAME)" and cur: "curas s = Some a"
    and res: "resident s a (fa AND PAGE_FRAME) p" and new: "fa AND PAGE_FRAME \<notin> fst ` set (tlb s)" and ft: "ft \<noteq> VM_FAULT_READONLY"
  shows "\<exists>s'. fault_tlb ft a (fa AND PAGE_FRAME) fa s = Some (Inr (), s') \<and> vm_inv s' \<and> tlb_ok s' \<and>
     fault_keeps slot a (fa AND PAGE_FRAME) s s' \<and> view slot s' a (fa AND PAGE_FRAME) = view slot s a (fa AND PAGE_FRAME) \<and>
     (\<exists>e. pte_of s' a (fa AND PAGE_FRAME) = Some e \<and> valid e \<and> in_mem e \<and> (fa AND PAGE_FRAME, tlblo e) \<in> set (tlb s'))"
proof -
  let ?pg = "fa AND PAGE_FRAME"
  let ?s1 = "if ft = VM_FAULT_WRITE then as_pte_store a (\<lambda>e. e\<lparr>dirty := True\<rparr>) ?pg s else s"
  obtain e where e: "pte_of s a ?pg = Some e" "valid e" "in_mem e" using res by (auto simp: resident_def)
  then obtain as where as: "spaces s a = Some as" "pagetable_lookup (as_pt as) ?pg = Some (Some e)"
    by (auto simp: pte_of_def bind_eq_Some_conv)
  have like: "vm_like ?s1 s" using dirty_like [OF inv(1) up] vm_invD(5) [OF inv(1)] by (auto simp: vm_like_def)
  note L = vm_like [OF inv(1) like]
  obtain e1 where e1: "pte_of ?s1 a ?pg = Some e1" "valid e1" "in_mem e1" "tlblo e1 = tlblo e"
  proof -
    have "rel_option pte_like (pte_of ?s1 a ?pg) (pte_of s a ?pg)" using like up unfolding vm_like_def by blast
    then obtain x where x: "pte_of ?s1 a ?pg = Some x" "pte_like x e" using e(1) by (cases "pte_of ?s1 a ?pg") auto
    show thesis by (rule that [OF x(1)]) (use x(2) tlblo_like [OF x(2)] e in \<open>simp_all add: pte_like_def\<close>)
  qed
  have s1: "tlb ?s1 = tlb s" "curas ?s1 = curas s" using like by (simp_all add: vm_like_def)
  note I = tlb_insert_ok [OF L(4) [OF inv(2)] up _ e1(1-3), unfolded s1, OF cur new]
  obtain i v where iv: "tlb_insert_entry ?pg (tlblo e1) ?s1 = ?s1\<lparr>tlb := (tlb s)[i := (?pg, tlblo e1)], tlb_next_victim := v\<rparr>"
    using I(3) s1 by auto
  let ?s2 = "tlb_insert_entry ?pg (tlblo e1) ?s1"
  have "fault_tlb ft a ?pg fa s = Some (Inr (), ?s2)"
    using as ft e1(4) by (simp add: fault_tlb_def Let_def tlblo_def TLBHI_VPAGE_def PAGE_FRAME_def)
  moreover have "vm_inv ?s2" using L(1) iv vm_inv_cong [of ?s2 ?s1] by simp
  moreover have vw: "view slot ?s2 b va = view slot s b va" if "upage va" for b va
    using L(3) [OF that, of slot b] view_eq [of ?s2 b va ?s1 slot] iv by simp
  moreover have "fault_keeps slot a ?pg s ?s2"
  proof -
    have "rel_option as_same (spaces ?s2 b) (spaces s b)" for b
      using iv by (cases "spaces s b") (auto simp: as_pte_store_def as_update_def as_same_def)
    moreover have "va \<in> fst ` set (tlb s)" if "va \<noteq> ?pg" "va \<in> fst ` set (tlb ?s2)" for va
      using that iv set_update_subset_insert [of "tlb s" i "(?pg, tlblo e1)"] by auto
    moreover have "first_page ?s2 = first_page s" "last_page ?s2 = last_page s" "curas ?s2 = curas s" "entries ?s2 = entries s" "frames ?s2 = frames s"
      using iv like by (simp_all add: vm_like_def)
    ultimately show ?thesis unfolding fault_keeps_def using vw by simp
  qed
  moreover have "\<exists>e. pte_of ?s2 a ?pg = Some e \<and> valid e \<and> in_mem e \<and> (?pg, tlblo e) \<in> set (tlb ?s2)"
    using I(2) e1 iv by auto
  ultimately show ?thesis using I(1) up by blast
qed

lemma vm_fault_ok:
  assumes inv: "vm_inv s" "tlb_ok s" and cur: "curas s = Some a" and as: "spaces s a = Some as" and fa: "fa < MIPS_KSEG0"
    and flt: "tlb_faults ft (fa AND PAGE_FRAME) s" and r: "vm_fault D ft fa s = Some (r, s')"
  shows "vm_inv s' \<and> tlb_ok s' \<and> fault_keeps slot a (fa AND PAGE_FRAME) s s' \<and>
    (case r of
       Inl _ \<Rightarrow> view slot s' a (fa AND PAGE_FRAME) = view slot s a (fa AND PAGE_FRAME)
     | Inr _ \<Rightarrow> is_valid_address as fa \<and> served as a (fa AND PAGE_FRAME) s s')"
proof -
  let ?pg = "fa AND PAGE_FRAME" and ?as = "as\<lparr>as_held := True\<rparr>" and ?s1 = "as_hold a True s"
  note up = fault_page(1) [OF fa]
  have held: "\<not> as_held as" using r cur as by (auto simp: vm_fault_def as_lock_acquire_def)
  have same: "as_same as as" by simp
  show ?thesis
  proof (cases "ft = VM_FAULT_READONLY")
    case True
    then have "r = Inl EFAULT" "s' = s" using vm_fault_readonly [OF inv cur as held fa, of D] flt r by simp_all
    then show ?thesis using inv keeps_fault [OF vm_keeps_refl] by simp
  next
    case ft: False
    note L = vm_like [OF inv(1) lock_like [OF inv(1)]]
    have i1: "vm_inv ?s1" and t1: "tlb_ok ?s1" using L(1) L(4) [OF inv(2)] by blast+
    have v1: "view slot ?s1 b va = view slot s b va" if "upage va" for b va using L(3) [OF that] .
    have acq: "as_lock_acquire a s = Some ?s1" using as held by (simp add: as_lock_acquire_def)
    have sp1: "spaces ?s1 a = Some ?as" using as by simp
    have pm: "get_region_permissions ?as = get_region_permissions as" "is_valid_address ?as = is_valid_address as"
      by (intro ext, simp add: get_region_permissions_def is_valid_address_def split: option.split)+
    have fin: ?thesis if s4: "s' = as_hold a False s4" "vm_inv s4" "tlb_ok s4" "fault_keeps slot a ?pg ?s1 s4"
      and x: "case r of Inl _ \<Rightarrow> view slot s4 a ?pg = view slot s a ?pg | Inr _ \<Rightarrow> is_valid_address as fa \<and> served as a ?pg s s4" for s4
    proof -
      have v: "view slot s' a ?pg = view slot s4 a ?pg" using s4(1) vm_like(3) [OF s4(2) lock_like [OF s4(2)] up] by simp
      moreover have "pte_of s' a ?pg = pte_of s4 a ?pg" using s4(1) by (simp add: pte_of_update)
      ultimately have "case r of Inl _ \<Rightarrow> view slot s' a ?pg = view slot s a ?pg | Inr _ \<Rightarrow> is_valid_address as fa \<and> served as a ?pg s s'"
        using x s4(1) by (cases r) (simp_all add: served_def)
      moreover have "vm_inv s'" "tlb_ok s'" using s4(1-3) vm_like(1,4) [OF s4(2) lock_like [OF s4(2)]] by simp_all
      moreover have "fault_keeps slot a ?pg s s'" using unlock_keeps(2) [OF inv(1) s4(2) as held s4(4)] s4(1) by simp
      ultimately show ?thesis by blast
    qed
    show ?thesis
    proof (cases "is_valid_address as fa")
      case False
      have "as_lock_release a ?s1 = Some (as_hold a False ?s1)" using as by (simp add: as_lock_release_def)
      then have "r = Inl EFAULT" "s' = as_hold a False ?s1" using r cur acq as pm False by (simp_all add: vm_fault_def)
      then show ?thesis using i1 t1 v1 [OF up] by (intro fin [of ?s1]) (simp_all add: keeps_fault)
    next
      case va: True
      have w: "pt_wf (as_pt as)" using vm_invD(5) [OF inv(1) as] .
      obtain entry where lk: "pagetable_lookup (as_pt ?as) ?pg = Some entry" using lookup_eq [OF w up] by simp
      let ?C = "case entry of None \<Rightarrow> fault_new_page D a ?pg ?s1
         | Some e \<Rightarrow> if \<not> valid e then fault_new_page D a ?pg ?s1 else if \<not> in_mem e then fault_swap_in D a ?pg ?s1 else Some (Inr (), ?s1)"
      obtain r2 s2 where C: "?C = Some (r2, s2)"
        using r cur acq as pm va lk by (cases ?C) (auto simp: vm_fault_def Let_def)
      note P = fault_page_in [OF i1 t1 up sp1 lk C, unfolded v1 [OF up] pm]
      have rest: "(do { (r, s) \<leftarrow> (case r2 of Inl e \<Rightarrow> Some (Inl e, s2) | Inr _ \<Rightarrow> fault_tlb ft a ?pg fa s2);
             s \<leftarrow> as_lock_release a s; Some (r, s) }) = Some (r, s')"
        using r cur acq as pm va lk C by (simp add: vm_fault_def Let_def)
      show ?thesis
      proof (cases r2)
        case (Inl e)
        have k: "fault_keeps slot a ?pg ?s1 s2" "view slot s2 a ?pg = view slot s a ?pg"
          using P Inl keeps_fault vm_keepsD(1) [of slot "{}" ?s1 s2, OF _ up] v1 [OF up] by auto
        have "r = Inl e" "s' = as_hold a False s2"
          using rest Inl unlock_keeps(1) [OF inv(1) _ as held k(1)] P by simp_all
        then show ?thesis using P k by (intro fin [of s2]) simp_all
      next
        case (Inr u)
        have k: "fault_keeps slot a ?pg ?s1 s2" using P Inr by simp
        then have cur2: "curas s2 = Some a" using cur by (simp add: fault_keeps_def)
        have new: "?pg \<notin> fst ` set (tlb s2)" using P Inr flt ft by (auto simp: tlb_faults_def)
        obtain p where res: "resident s2 a ?pg p" using P Inr by auto
        have i2: "vm_inv s2" "tlb_ok s2" using P by blast+
        obtain s3 where s3: "fault_tlb ft a ?pg fa s2 = Some (Inr (), s3)" "vm_inv s3" "tlb_ok s3" "fault_keeps slot a ?pg s2 s3"
          "view slot s3 a ?pg = view slot s2 a ?pg" "\<exists>e. pte_of s3 a ?pg = Some e \<and> valid e \<and> in_mem e \<and> (?pg, tlblo e) \<in> set (tlb s3)"
          using fault_tlb_ok [OF i2 up cur2 res new ft] by blast
        have k3: "fault_keeps slot a ?pg ?s1 s3" using fault_keeps_trans [OF k s3(4)] .
        have "r = Inr ()" "s' = as_hold a False s3"
          using rest Inr s3(1) unlock_keeps(1) [OF inv(1) s3(2) as held k3] by simp_all
        moreover have "served as a ?pg s s3" using P Inr s3(5,6) by (simp add: served_def)
        ultimately show ?thesis using s3(2,3) k3 va by (intro fin [of s3]) simp_all
      qed
    qed
  qed
qed

end

section \<open>When a fault returns\<close>

lemma alloc_kpages_free:
  assumes "vm_inv s" "first_page s \<le> p" "p < last_page s" "\<not> used (ent s p)"
  shows "\<exists>kv s'. alloc_kpages D 1 s = Some (kv, s') \<and> kv \<noteq> 0 \<and> spaces s' = spaces s"
proof -
  note v = vm_invD(1,2) [OF assms(1)]
  have "(0::nat) < 1" by simp
  with v show ?thesis
  proof (cases rule: alloc_try_cases)
    case (found st)
    then show ?thesis by (subst alloc_kpages.simps) (simp add: MIPS_KSEG0_def)
  next
    case none
    then show ?thesis using assms(2-4) by auto
  qed
qed

lemma alloc_user_page_free:
  assumes "vm_inv s" "first_page s \<le> p" "p < last_page s" "\<not> used (ent s p)"
  shows "\<exists>kv s'. alloc_user_page D s = Some (kv, s') \<and> kv \<noteq> 0 \<and> spaces s' = spaces s"
  using alloc_kpages_free [OF assms, of D] by (auto simp: alloc_user_page_def)

context swap_device
begin

lemma fault_new_page_returns:
  assumes inv: "vm_inv s" and p: "first_page s \<le> p" "p < last_page s" "\<not> used (ent s p)"
    and up: "upage pg" and as: "spaces s a = Some as" and e: "pte_of s a pg = Some e" "\<not> valid e"
    and pm: "get_region_permissions as pg = Inr q"
  shows "\<exists>s'. fault_new_page D a pg s = Some (Inr (), s')"
proof -
  obtain rd wr ex where q: "q = (rd, wr, ex)" by (cases q)
  obtain kv s1 where A: "alloc_user_page D s = Some (kv, s1)" "kv \<noteq> 0" "spaces s1 = spaces s" using alloc_user_page_free [OF inv p] by blast
  from user_page_spare [OF inv A(1,2)] obtain st where st: "kv = MIPS_KSEG0 + st * PAGE_SIZE" "vm_inv s1" "spare s1 st" by blast
  let ?s2 = "s1\<lparr>frames := (frames s1)(st := (\<lambda>_. 0))\<rparr>"
  let ?f = "\<lambda>_. \<lparr>valid = True, in_mem = True, readonly = \<not> wr, dirty = False, swap_offset = SWAP_OFFSET_NONE, ppn = st\<rparr>"
  note F = spare_fill [where x = "\<lambda>_. 0" and slot = slot, OF st(2,3) refl, simplified]
  note ad = spare_addr [OF st(2,3), folded st(1)]
  have w: "pt_wf (as_pt as)" using vm_invD(5) [OF inv as] .
  have "pte_of ?s2 a pg = Some e" using e A(3) pte_of_cong [of s1 s] by simp
  then have e4: "pte_of (as_pte_store a ?f pg ?s2) a pg = Some (?f e)"
    using pte_of_store [of ?s2 a pg pg ?f a] vm_invD(5) [OF F(1)] up by simp
  then obtain as4 where as4: "spaces (as_pte_store a ?f pg ?s2) a = Some as4" "pagetable_lookup (as_pt as4) pg = Some (Some (?f e))"
    by (auto simp: pte_of_def bind_eq_Some_conv)
  obtain l2 where l2: "l2_entries (as_pt as) ! GET_L1_INDEX pg = Some l2"
    using e(1) as lookup_eq [OF w up] by (auto simp: pte_of_def)
  have "pagetable_addl2 D a (GET_L1_INDEX pg) ?s2 = Some (Inr (), ?s2)"
    using as A(3) l2 w upage_index(1) [OF up] by (simp add: pagetable_addl2_def pt_wf_def)
  moreover have "?s2\<lparr>swap_bitmap := swap_bitmap ?s2\<rparr> = ?s2" by simp
  then have "cm_set_user_page st a pg (as_pte_store a ?f pg ?s2) = Some (mapped st a pg ?f (swap_bitmap ?s2) ?s2)"
    using set_user_page_mapped [OF F(1,4) up, of a ?f "swap_bitmap ?s2"] by simp
  ultimately show ?thesis using A ad as as4 pm q
    by (simp add: fault_new_page_def pagetable_insert_def Let_def)
qed

lemma fault_swap_in_returns:
  assumes inv: "vm_inv s" and p: "first_page s \<le> p" "p < last_page s" "\<not> used (ent s p)"
    and up: "upage pg" and as: "spaces s a = Some as" and e: "pte_of s a pg = Some e" "valid e" "\<not> in_mem e"
  shows "\<exists>r s'. fault_swap_in D a pg s = Some (r, s')"
proof -
  obtain kv s1 where A: "alloc_user_page D s = Some (kv, s1)" "kv \<noteq> 0" "spaces s1 = spaces s" using alloc_user_page_free [OF inv p] by blast
  from user_page_spare [OF inv A(1,2)] obtain st where st: "kv = MIPS_KSEG0 + st * PAGE_SIZE" "vm_inv s1" "spare s1 st" by blast
  note ad = spare_addr [OF st(2,3), folded st(1)]
  have e1: "pte_of s1 a pg = Some e" using e A(3) pte_of_cong [of s1 s] by simp
  obtain i where i: "i \<in> bm_marked (swap_bitmap s1)" "swap_offset e = int i * int PAGE_SIZE"
    using vm_invD(9) [OF st(2) up e1 e(2,3)] by blast
  obtain rr pg' d where R: "vop_read D (frames s1 st) (int i * int PAGE_SIZE) (dev s1) = Some (rr, pg', d)" using read_returns by blast
  let ?s2 = "s1\<lparr>dev := d, frames := (frames s1)(st := pg')\<rparr>"
  note F = spare_fill [where x = pg', OF st(2,3) read_keeps [OF R]]
  have so: "swap_offset e \<noteq> SWAP_OFFSET_NONE" using i(2) by (simp add: SWAP_OFFSET_NONE_def PAGE_SIZE_def)
  have sr: "swap_read_page D (KVADDR_TO_PADDR kv) (swap_offset e) s1 =
      Some (case rr of Inl e \<Rightarrow> Inl e | Inr n \<Rightarrow> if n \<noteq> 0 then Inl EIO else Inr (), ?s2)"
    using R ad i(2) by (auto simp: swap_read_page_def Let_def split: sum.split)
  have lk: "pagetable_lookup (as_pt as) pg = Some (Some e)" using as e(1) by (auto simp: pte_of_def bind_eq_Some_conv)
  show ?thesis
  proof (cases "rr = Inr 0")
    case True
    obtain b where b: "bitmap_unmark (swap_bitmap s1) i = Some b"
      using bm.free_used [OF vm_invD(3) [OF st(2)] i(1)] by auto
    have "i < swap_slots s1" using i(1) vm_invD(4) [OF st(2)] by (simp add: bm_marked_def)
    let ?f = "\<lambda>e. e\<lparr>ppn := st, in_mem := True, dirty := False\<rparr>" and ?g = "\<lambda>e. e\<lparr>swap_offset := SWAP_OFFSET_NONE\<rparr>"
    have "swap_free_slot (swap_offset e) (as_pte_store a ?f pg ?s2) = Some ((as_pte_store a ?f pg ?s2)\<lparr>swap_bitmap := b\<rparr>)"
      using so i(2) b \<open>i < swap_slots s1\<close>
      by (simp add: swap_free_slot_def as_pte_store_def as_update_def PAGE_SIZE_def Let_def)
    then show ?thesis
      using A as lk so sr True ad(1) set_user_page_mapped [OF F(1,4) up, of a "\<lambda>e. ?g (?f e)" b]
        store_twice [OF F(1) up, where g = ?g and f = ?f and b = b and a = a]
      by (simp add: fault_swap_in_def Let_def)
  next
    case False
    then show ?thesis using A as lk so sr spare_free(1) [OF F(1,4), folded st(1)]
      by (cases rr) (auto simp: fault_swap_in_def Let_def)
  qed
qed

lemma vm_fault_returns:
  assumes inv: "vm_inv s" "tlb_ok s" and cur: "curas s = Some a" and as: "spaces s a = Some as" "\<not> as_held as" and fa: "fa < MIPS_KSEG0"
    and flt: "tlb_faults ft (fa AND PAGE_FRAME) s" "ft \<noteq> VM_FAULT_READONLY"
    and va: "is_valid_address as fa" and pm: "get_region_permissions as (fa AND PAGE_FRAME) = Inr q"
    and p: "first_page s \<le> p" "p < last_page s" "\<not> used (ent s p)" and e: "pte_of s a (fa AND PAGE_FRAME) = Some e"
  shows "\<exists>r s'. vm_fault D ft fa s = Some (r, s') \<and> ((valid e \<longrightarrow> in_mem e) \<longrightarrow> r = Inr ())"
proof -
  let ?pg = "fa AND PAGE_FRAME" and ?as = "as\<lparr>as_held := True\<rparr>" and ?s1 = "as_hold a True s"
  note up = fault_page(1) [OF fa]
  note L = vm_like [OF inv(1) lock_like [OF inv(1)]]
  have i1: "vm_inv ?s1" and t1: "tlb_ok ?s1" using L(1) L(4) [OF inv(2)] by blast+
  have acq: "as_lock_acquire a s = Some ?s1" using as by (simp add: as_lock_acquire_def)
  have sp1: "spaces ?s1 a = Some ?as" using as by simp
  have pm1: "get_region_permissions ?as = get_region_permissions as" "is_valid_address ?as = is_valid_address as"
    by (intro ext, simp add: get_region_permissions_def is_valid_address_def split: option.split)+
  have lk: "pagetable_lookup (as_pt as) ?pg = Some (Some e)" using as e by (auto simp: pte_of_def bind_eq_Some_conv)
  then have lk1: "pagetable_lookup (as_pt ?as) ?pg = Some (Some e)" by simp
  have e1: "pte_of ?s1 a ?pg = Some e" using e by (simp add: pte_of_update)
  have p1: "first_page ?s1 \<le> p" "p < last_page ?s1" "\<not> used (ent ?s1 p)" using p by simp_all
  let ?C = "if \<not> valid e then fault_new_page D a ?pg ?s1 else if \<not> in_mem e then fault_swap_in D a ?pg ?s1 else Some (Inr (), ?s1)"
  obtain r2 s2 where C: "?C = Some (r2, s2)" and r2: "(valid e \<longrightarrow> in_mem e) \<longrightarrow> r2 = Inr ()"
    using fault_new_page_returns [OF i1 p1 up sp1 e1, of q] fault_swap_in_returns [OF i1 p1 up sp1 e1] pm pm1
    by (cases "valid e"; cases "in_mem e") auto
  have C': "(case Some e of None \<Rightarrow> fault_new_page D a ?pg ?s1
         | Some e \<Rightarrow> if \<not> valid e then fault_new_page D a ?pg ?s1 else if \<not> in_mem e then fault_swap_in D a ?pg ?s1 else Some (Inr (), ?s1))
      = Some (r2, s2)" using C by simp
  note P = fault_page_in [OF i1 t1 up sp1 lk1 C']
  have F: "vm_fault D ft fa s = do { (r, s) \<leftarrow> (case r2 of Inl e \<Rightarrow> Some (Inl e, s2) | Inr _ \<Rightarrow> fault_tlb ft a ?pg fa s2);
       s \<leftarrow> as_lock_release a s; Some (r, s) }"
    using cur acq as pm1 va lk C by (simp add: vm_fault_def Let_def)
  show ?thesis
  proof (cases r2)
    case (Inl x)
    then have k: "fault_keeps slot a ?pg ?s1 s2" using P keeps_fault by auto
    then show ?thesis using F Inl P unlock_keeps(1) [OF inv(1) _ as k] r2 by auto
  next
    case (Inr u)
    have k: "fault_keeps slot a ?pg ?s1 s2" using P Inr by simp
    then have cur2: "curas s2 = Some a" using cur by (simp add: fault_keeps_def)
    have new: "?pg \<notin> fst ` set (tlb s2)" using P Inr flt by (auto simp: tlb_faults_def)
    obtain p where res: "resident s2 a ?pg p" using P Inr by auto
    have i2: "vm_inv s2" "tlb_ok s2" using P by blast+
    obtain s3 where s3: "fault_tlb ft a ?pg fa s2 = Some (Inr (), s3)" "vm_inv s3" "fault_keeps slot a ?pg s2 s3"
      using fault_tlb_ok [OF i2 up cur2 res new flt(2)] by blast
    have k3: "fault_keeps slot a ?pg ?s1 s3" using fault_keeps_trans [OF k s3(3)] .
    show ?thesis using F Inr s3(1) unlock_keeps(1) [OF inv(1) s3(2) as k3] by simp
  qed
qed

end

section \<open>Running out of memory alone\<close>

text \<open>
  A fault holds the lock of its address space while it looks for a page to evict, and evicting a page
  takes the lock of the page's owner.
\<close>

lemma evict_loop_self:
  assumes wf: "length (entries s) = last_page s" and pos: "0 < tot" "first_page s + tot = last_page s" and held: "spaces s a = Some as" "as_held as"
    and own: "\<forall>p. first_page s \<le> p \<longrightarrow> p < last_page s \<longrightarrow> used (ent s p) \<and> (\<not> kernel_page (ent s p) \<longrightarrow> \<not> busy (ent s p) \<and> owner (ent s p) = Some a)"
    and i: "\<exists>i \<in> set is. \<not> kernel_page (ent s (first_page s + (cm_evict_index s + i) mod tot))"
  shows "evict_loop D tot is s = None"
  using i
proof (induction "is")
  case (Cons i "is")
  let ?c = "first_page s + (cm_evict_index s + i) mod tot"
  have c: "first_page s \<le> ?c" "?c < last_page s" using pos mod_less_divisor [OF pos(1), of "cm_evict_index s + i"] by linarith+
  have o: "used (ent s ?c) \<and> (\<not> kernel_page (ent s ?c) \<longrightarrow> \<not> busy (ent s ?c) \<and> owner (ent s ?c) = Some a)"
    using own c by blast
  show ?case
  proof (cases "kernel_page (ent s ?c)")
    case True
    then show ?thesis using Cons c wf by (simp add: evict_skip_def Let_def)
  next
    case False
    then have "\<not> evict_skip (ent s ?c)" using o by (simp add: evict_skip_def)
    then show ?thesis using c wf False o held
      by (simp add: Let_def set_busy_def cm_release_def as_lock_acquire_def bind_eq_None_conv)
  qed
qed simp

lemma alloc_self_stuck:
  assumes inv: "vm_inv s" and held: "spaces s a = Some as" "as_held as"
    and own: "\<forall>p. first_page s \<le> p \<longrightarrow> p < last_page s \<longrightarrow> used (ent s p) \<and> (\<not> kernel_page (ent s p) \<longrightarrow> owner (ent s p) = Some a)"
    and ex: "first_page s \<le> p" "p < last_page s" "\<not> kernel_page (ent s p)"
  shows "alloc_user_page D s = None"
proof -
  note v = vm_invD [OF inv]
  note w = cm_wfD [OF v(1)]
  let ?tot = "last_page s - first_page s" and ?s = "s\<lparr>cm_lock := True\<rparr>"
  have pos: "0 < ?tot" "first_page s + ?tot = last_page s" using ex w(3) by simp_all
  define i where "i = (p - first_page s + (?tot - cm_evict_index s mod ?tot)) mod ?tot"
  have "(cm_evict_index s + i) mod ?tot = p - first_page s"
  proof -
    have m: "cm_evict_index s mod ?tot < ?tot" using pos by simp
    have "(cm_evict_index s + i) mod ?tot = (cm_evict_index s mod ?tot + (p - first_page s + (?tot - cm_evict_index s mod ?tot))) mod ?tot"
      unfolding i_def by (simp add: mod_simps)
    also have "\<dots> = (p - first_page s + ?tot) mod ?tot" using m by (intro arg_cong [where f = "\<lambda>x. x mod ?tot"]) linarith
    also have "\<dots> = p - first_page s" using ex by (simp only: mod_add_self2) simp
    finally show ?thesis .
  qed
  moreover have "i \<in> set [0..<?tot]" using pos by (simp add: i_def)
  ultimately have cand: "\<exists>i \<in> set [0..<?tot]. \<not> kernel_page (ent ?s (first_page ?s + (cm_evict_index ?s + i) mod ?tot))"
    using ex by (intro bexI [of _ i]) simp_all
  have "evict_loop D ?tot [0..<?tot] ?s = None"
    using own v(6) by (intro evict_loop_self [OF _ _ _ _ _ _ cand, of a as]) (use w(1) pos held in auto)
  then have ev: "evict_one D s = None" using v(2) by (simp add: evict_one_def cm_acquire_def Let_def)
  have "(0::nat) < 1" by simp
  with v(1,2) show ?thesis
  proof (cases rule: alloc_try_cases)
    case (found st)
    then show ?thesis using own by auto
  next
    case none
    then have "alloc_kpages D 1 s = None" using ev by (subst alloc_kpages.simps) simp
    then show ?thesis by (simp add: alloc_user_page_def)
  qed
qed

lemma vm_fault_self_stuck:
  assumes inv: "vm_inv s" and cur: "curas s = Some a" and as: "spaces s a = Some as" and fa: "fa < MIPS_KSEG0"
    and va: "is_valid_address as fa" and out: "\<And>p. \<not> resident s a (fa AND PAGE_FRAME) p"
    and own: "\<forall>p. first_page s \<le> p \<longrightarrow> p < last_page s \<longrightarrow> used (ent s p) \<and> (\<not> kernel_page (ent s p) \<longrightarrow> owner (ent s p) = Some a)"
    and ex: "first_page s \<le> p" "p < last_page s" "\<not> kernel_page (ent s p)"
  shows "vm_fault D ft fa s = None"
proof (cases "as_held as")
  case True
  then show ?thesis using cur as by (simp add: vm_fault_def as_lock_acquire_def)
next
  case False
  let ?pg = "fa AND PAGE_FRAME" and ?as = "as\<lparr>as_held := True\<rparr>" and ?s1 = "as_hold a True s"
  note up = fault_page(1) [OF fa]
  have i1: "vm_inv ?s1" using vm_like(1) [OF inv lock_like [OF inv]] .
  have "alloc_user_page D ?s1 = None"
    by (rule alloc_self_stuck [OF i1, of a ?as p]) (use as own ex in simp_all)
  then have st: "fault_new_page D a ?pg ?s1 = None" "fault_swap_in D a ?pg ?s1 = None"
    by (simp_all add: fault_new_page_def fault_swap_in_def)
  have acq: "as_lock_acquire a s = Some ?s1" using as False by (simp add: as_lock_acquire_def)
  obtain entry where lk: "pagetable_lookup (as_pt as) ?pg = Some entry" using lookup_eq [OF vm_invD(5) [OF inv as] up] by simp
  have "\<not> (valid e \<and> in_mem e)" if "entry = Some e" for e
    using out [of "ppn e"] that lk as up by (auto simp: resident_def pte_of_def)
  moreover have "is_valid_address ?as fa" using va by (simp add: is_valid_address_def)
  ultimately show ?thesis using cur acq as lk st by (cases entry) (auto simp: vm_fault_def Let_def)
qed

end
