(* ===== verification/Kern_Lhd.thy ===== *)
theory Kern_Lhd
  imports Kern_Uio Kern_Vm_Fault
begin

text \<open>
  The disk driver (\<^verbatim>\<open>kern/dev/lamebus/lhd.c\<close>) under the device vnode (\<^verbatim>\<open>kern/vfs/device.c\<close>), and that
  it is the device the swap code relies on.  The card itself is hardware: every operation ends as the
  card's own script says, with success or an error.
\<close>

section \<open>The card\<close>

definition LHD_IDLE :: nat where "LHD_IDLE = 0"
definition LHD_WORKING :: nat where "LHD_WORKING = 1"
definition LHD_OK :: nat where "LHD_OK = 4"
definition LHD_INVSECT :: nat where "LHD_INVSECT = 12"
definition LHD_MEDIA :: nat where "LHD_MEDIA = 20"
definition LHD_ISWRITE :: nat where "LHD_ISWRITE = 2"
definition LHD_STATEMASK :: nat where "LHD_STATEMASK = 0x1d"
definition LHD_SECTSIZE :: nat where "LHD_SECTSIZE = 512"

type_synonym sector = "9 word \<Rightarrow> 8 word"

datatype card_end = End_ok | End_invsect | End_media sector

record disk =
  d_sectors :: "nat \<Rightarrow> sector"
  d_script :: "nat \<Rightarrow> card_end"
  d_ops_done :: nat
  d_blocks :: nat
  lh_buf :: sector

record lhd_softc = disk +
  lh_reg_sect :: nat
  lh_reg_stat :: nat
  lh_clear :: nat
  lh_done :: nat
  lh_result :: "errno + unit"

text \<open>
  The operation in the status register: a write that fails may leave anything in the sector, a read
  that fails anything in the buffer.
\<close>

definition card_run :: "lhd_softc \<Rightarrow> lhd_softc" where
  "card_run lh =
     (let w = lh_reg_stat lh AND LHD_ISWRITE;
          sect = lh_reg_sect lh;
          lh' = lh\<lparr>d_ops_done := d_ops_done lh + 1\<rparr>
      in case d_script lh (d_ops_done lh) of
           End_ok \<Rightarrow>
             (if w \<noteq> 0 then lh'\<lparr>d_sectors := (d_sectors lh)(sect := lh_buf lh), lh_reg_stat := LHD_OK OR w\<rparr>
              else lh'\<lparr>lh_buf := d_sectors lh sect, lh_reg_stat := LHD_OK OR w\<rparr>)
         | End_invsect \<Rightarrow> lh'\<lparr>lh_reg_stat := LHD_INVSECT OR w\<rparr>
         | End_media junk \<Rightarrow>
             (if w \<noteq> 0 then lh'\<lparr>d_sectors := (d_sectors lh)(sect := junk), lh_reg_stat := LHD_MEDIA OR w\<rparr>
              else lh'\<lparr>lh_buf := junk, lh_reg_stat := LHD_MEDIA OR w\<rparr>))"

section \<open>The driver\<close>

definition lhd_code_to_errno :: "nat \<Rightarrow> errno + unit" where
  "lhd_code_to_errno code =
     (let c = code AND LHD_STATEMASK
      in if c = LHD_OK then Inr () else if c = LHD_INVSECT then Inl EINVAL else if c = LHD_MEDIA then Inl EIO else Inl EAGAIN)"

definition lhd_iodone :: "errno + unit \<Rightarrow> lhd_softc \<Rightarrow> lhd_softc" where
  "lhd_iodone err lh = lh\<lparr>lh_result := err, lh_done := lh_done lh + 1\<rparr>"

definition lhd_irq :: "lhd_softc \<Rightarrow> lhd_softc" where
  "lhd_irq lh =
     (let val = lh_reg_stat lh;
          c = val AND LHD_STATEMASK
      in if c = LHD_OK \<or> c = LHD_INVSECT \<or> c = LHD_MEDIA
         then lhd_iodone (lhd_code_to_errno val) (lh\<lparr>lh_reg_stat := 0\<rparr>)
         else lh)"

text \<open>Waiting on a semaphore whose count is zero, with nobody left to raise it, does not return.\<close>

definition P_clear :: "lhd_softc \<Rightarrow> lhd_softc option" where
  "P_clear lh = do { kassert (0 < lh_clear lh); Some (lh\<lparr>lh_clear := lh_clear lh - 1\<rparr>) }"

definition V_clear :: "lhd_softc \<Rightarrow> lhd_softc" where
  "V_clear lh = lh\<lparr>lh_clear := lh_clear lh + 1\<rparr>"

definition P_done :: "lhd_softc \<Rightarrow> lhd_softc option" where
  "P_done lh = do { kassert (0 < lh_done lh); Some (lh\<lparr>lh_done := lh_done lh - 1\<rparr>) }"

definition buf_bytes :: "sector \<Rightarrow> 8 word list" where
  "buf_bytes b = map (\<lambda>i. b (word_of_nat i)) [0..<LHD_SECTSIZE]"

definition buf_store :: "8 word list \<Rightarrow> sector \<Rightarrow> sector" where
  "buf_store bs b = (\<lambda>j. if unat j < length bs then bs ! unat j else b j)"

text \<open>One sector of the loop of \<^verbatim>\<open>lhd_io\<close>.\<close>

definition lhd_sector ::
    "nat option \<Rightarrow> nat \<Rightarrow> nat \<Rightarrow> uio \<Rightarrow> kumem \<Rightarrow> lhd_softc \<Rightarrow> ((errno + unit) \<times> uio \<times> kumem \<times> lhd_softc) option" where
  "lhd_sector cur sect statval uio m lh =
     do { lh \<leftarrow> P_clear lh;
          (r, uio, m, lh) \<leftarrow>
            (if uio_dir uio = UIO_WRITE
             then do { (r, bs, uio, m) \<leftarrow> uiomove cur [] LHD_SECTSIZE uio m; Some (r, uio, m, lh\<lparr>lh_buf := buf_store bs (lh_buf lh)\<rparr>) }
             else Some (Inr (), uio, m, lh));
          case r of
            Inl e \<Rightarrow> Some (Inl e, uio, m, V_clear lh)
          | Inr _ \<Rightarrow>
              do { let lh = lh\<lparr>lh_reg_sect := sect\<rparr>;
                   let lh = card_run (lh\<lparr>lh_reg_stat := statval\<rparr>);
                   let lh = lhd_irq lh;
                   lh \<leftarrow> P_done lh;
                   (r, uio, m) \<leftarrow>
                     (if lh_result lh = Inr () \<and> uio_dir uio = UIO_READ
                      then do { (r, bs, uio, m) \<leftarrow> uiomove cur (buf_bytes (lh_buf lh)) LHD_SECTSIZE uio m; Some (r, uio, m) }
                      else Some (lh_result lh, uio, m));
                   Some (r, uio, m, V_clear lh) } }"

primrec lhd_loop ::
    "nat option \<Rightarrow> nat \<Rightarrow> nat \<Rightarrow> nat list \<Rightarrow> uio \<Rightarrow> kumem \<Rightarrow> lhd_softc \<Rightarrow> ((errno + unit) \<times> uio \<times> kumem \<times> lhd_softc) option" where
  "lhd_loop cur sector statval [] uio m lh = Some (Inr (), uio, m, lh)"
| "lhd_loop cur sector statval (i # is) uio m lh =
     do { (r, uio, m, lh) \<leftarrow> lhd_sector cur (u32 (sector + i)) statval uio m lh;
          case r of
            Inl e \<Rightarrow> Some (Inl e, uio, m, lh)
          | Inr _ \<Rightarrow> lhd_loop cur sector statval is uio m lh }"

text \<open>Division of a signed offset rounds towards zero.\<close>

definition cdiv :: "int \<Rightarrow> int \<Rightarrow> int" where "cdiv x y = sgn x * (\<bar>x\<bar> div y)"
definition cmod :: "int \<Rightarrow> int \<Rightarrow> int" where "cmod x y = sgn x * (\<bar>x\<bar> mod y)"
definition to_u32 :: "int \<Rightarrow> nat" where "to_u32 x = nat (x mod 2 ^ 32)"

definition lhd_io :: "nat option \<Rightarrow> uio \<Rightarrow> kumem \<Rightarrow> lhd_softc \<Rightarrow> ((errno + unit) \<times> uio \<times> kumem \<times> lhd_softc) option" where
  "lhd_io cur uio m lh =
     (let sector = to_u32 (cdiv (uio_offset uio) (int LHD_SECTSIZE));
          sectoff = to_u32 (cmod (uio_offset uio) (int LHD_SECTSIZE));
          len = uio_resid uio div LHD_SECTSIZE;
          lenoff = uio_resid uio mod LHD_SECTSIZE
      in if sectoff \<noteq> 0 \<or> lenoff \<noteq> 0 then Some (Inl EINVAL, uio, m, lh)
         else if u32 (sector + len) > d_blocks lh then Some (Inl EINVAL, uio, m, lh)
         else let statval = (if uio_dir uio = UIO_WRITE then LHD_WORKING OR LHD_ISWRITE else LHD_WORKING)
              in lhd_loop cur sector statval [0..<len] uio m lh)"

section \<open>The device vnode\<close>

definition dev_tryseek :: "nat \<Rightarrow> nat \<Rightarrow> int \<Rightarrow> errno + unit" where
  "dev_tryseek blocks blocksize pos =
     (if blocks > 0
      then if cmod pos (int blocksize) \<noteq> 0 then Inl EINVAL
           else if cdiv pos (int blocksize) \<ge> int blocks then Inl EINVAL
           else Inr ()
      else Inr ())"

definition dev_read :: "nat option \<Rightarrow> uio \<Rightarrow> kumem \<Rightarrow> lhd_softc \<Rightarrow> ((errno + unit) \<times> uio \<times> kumem \<times> lhd_softc) option" where
  "dev_read cur uio m lh =
     (case dev_tryseek (d_blocks lh) LHD_SECTSIZE (uio_offset uio) of
        Inl e \<Rightarrow> Some (Inl e, uio, m, lh)
      | Inr _ \<Rightarrow> do { kassert (uio_dir uio = UIO_READ); lhd_io cur uio m lh })"

definition dev_write :: "nat option \<Rightarrow> uio \<Rightarrow> kumem \<Rightarrow> lhd_softc \<Rightarrow> ((errno + unit) \<times> uio \<times> kumem \<times> lhd_softc) option" where
  "dev_write cur uio m lh =
     (case dev_tryseek (d_blocks lh) LHD_SECTSIZE (uio_offset uio) of
        Inl e \<Rightarrow> Some (Inl e, uio, m, lh)
      | Inr _ \<Rightarrow> do { kassert (uio_dir uio = UIO_WRITE); lhd_io cur uio m lh })"

text \<open>
  The disk as the swap code uses it: a page in kernel memory is written or read with a uio of its own.
  Between two calls the driver is idle, as \<^verbatim>\<open>config_lhd\<close> leaves it.  A disk without sectors would count
  as a character device; \<^verbatim>\<open>swap_bootstrap\<close> does not accept it.
\<close>

definition lhd_idle :: "disk \<Rightarrow> lhd_softc" where
  "lhd_idle d = disk.extend d (lhd_softc.fields 0 0 1 0 (Inr ()))"

definition page_mem :: "nat \<Rightarrow> page \<Rightarrow> kumem" where
  "page_mem kaddr pg =
     \<lparr>km_user = \<lparr>um_val = (\<lambda>_. 0), um_load = (\<lambda>_. False), um_store = (\<lambda>_. False)\<rparr>,
      km_kern = (\<lambda>x. pg (word_of_nat (x - kaddr)))\<rparr>"

definition mem_page :: "nat \<Rightarrow> kumem \<Rightarrow> page" where
  "mem_page kaddr m = (\<lambda>j. km_kern m (kaddr + unat j))"

typedef swap_disk = "{d :: disk. 0 < d_blocks d \<and> d_blocks d < 2 ^ 32}"
proof
  show "\<lparr>d_sectors = (\<lambda>_ _. 0), d_script = (\<lambda>_. End_ok), d_ops_done = 0, d_blocks = 1, lh_buf = (\<lambda>_. 0)\<rparr> \<in> {d. 0 < d_blocks d \<and> d_blocks d < 2 ^ 32}"
    by simp
qed

definition lhd_swapdev :: "swap_disk swapdev" where
  "lhd_swapdev =
     \<lparr>vop_write = (\<lambda>pg off d.
        do { (r, uio, m, lh) \<leftarrow> dev_write None (uio_kinit MIPS_KSEG0 PAGE_SIZE off UIO_WRITE) (page_mem MIPS_KSEG0 pg) (lhd_idle (Rep_swap_disk d));
             Some (case r of Inl e \<Rightarrow> Inl e | Inr _ \<Rightarrow> Inr (uio_resid uio), Abs_swap_disk (disk.truncate lh)) }),
      vop_read = (\<lambda>pg off d.
        do { (r, uio, m, lh) \<leftarrow> dev_read None (uio_kinit MIPS_KSEG0 PAGE_SIZE off UIO_READ) (page_mem MIPS_KSEG0 pg) (lhd_idle (Rep_swap_disk d));
             Some (case r of Inl e \<Rightarrow> Inl e | Inr _ \<Rightarrow> Inr (uio_resid uio), mem_page MIPS_KSEG0 m, Abs_swap_disk (disk.truncate lh)) })\<rparr>"

section \<open>One sector\<close>

definition idle :: "lhd_softc \<Rightarrow> bool" where
  "idle lh \<longleftrightarrow> lh_clear lh = 1 \<and> lh_done lh = 0"

text \<open>The uio of a page after \<open>i\<close> sectors.\<close>

definition page_uio :: "nat \<Rightarrow> int \<Rightarrow> uio_rw \<Rightarrow> nat \<Rightarrow> uio" where
  "page_uio b off rw i =
     \<lparr>uio_iov = [\<lparr>iov_base = b + 512 * i, iov_len = 4096 - 512 * i\<rparr>], uio_offset = off + 512 * int i, uio_resid = 4096 - 512 * i,
      uio_segflg = UIO_SYSSPACE, uio_dir = rw, uio_space = None\<rparr>"

lemma page_uio_step:
  assumes "i < 8"
  shows "uiomove cur ptr 512 (page_uio b off UIO_WRITE i) m =
      Some (Inr (), map (km_kern m) [b + 512 * i..<b + 512 * i + 512], page_uio b off UIO_WRITE (Suc i), m)"
    "uiomove cur ptr 512 (page_uio b off UIO_READ i) m =
      Some (Inr (), [], page_uio b off UIO_READ (Suc i), m\<lparr>km_kern := kern_write (km_kern m) (b + 512 * i) (take 512 ptr)\<rparr>)"
proof -
  have ok: "uio_ok (page_uio b off rw i)" for rw by (simp add: uio_ok_def page_uio_def iov_total_def)
  have k: "min 512 (uio_resid (page_uio b off rw i)) = 512" for rw using assms by (simp add: page_uio_def)
  have adv: "uio_advance 512 (page_uio b off rw i) = page_uio b off rw (Suc i)" for rw
    by (simp add: uio_advance_def page_uio_def)
  have iov: "uio_iov (page_uio b off rw i) = [\<lparr>iov_base = b + 512 * i, iov_len = 4096 - 512 * i\<rparr>]" for rw by (simp add: page_uio_def)
  note S = uiomove_loop_single [OF ok iov, where n = 512, unfolded k adv]
  show "uiomove cur ptr 512 (page_uio b off UIO_WRITE i) m =
      Some (Inr (), map (km_kern m) [b + 512 * i..<b + 512 * i + 512], page_uio b off UIO_WRITE (Suc i), m)"
    unfolding uiomove_def S by (simp add: uio_xfer_def page_uio_def)
  show "uiomove cur ptr 512 (page_uio b off UIO_READ i) m =
      Some (Inr (), [], page_uio b off UIO_READ (Suc i), m\<lparr>km_kern := kern_write (km_kern m) (b + 512 * i) (take 512 ptr)\<rparr>)"
    unfolding uiomove_def S by (simp add: uio_xfer_def page_uio_def)
qed

lemmas lhd_codes = LHD_OK_def LHD_INVSECT_def LHD_MEDIA_def LHD_ISWRITE_def LHD_STATEMASK_def LHD_WORKING_def LHD_SECTSIZE_def

lemma unat_9: "unat (j :: 9 word) < 512"
  using unsigned_less [of j] by simp

lemma sector_write:
  assumes "i < 8" "idle lh"
  shows "\<exists>r x lh'. lhd_sector cur sect (LHD_WORKING OR LHD_ISWRITE) (page_uio b off UIO_WRITE i) m lh = Some (r, page_uio b off UIO_WRITE (Suc i), m, lh') \<and>
     idle lh' \<and> d_blocks lh' = d_blocks lh \<and> d_sectors lh' = (d_sectors lh)(sect := x) \<and> (r = Inr () \<longrightarrow> x = (\<lambda>j. km_kern m (b + 512 * i + unat j)))"
proof -
  let ?buf = "buf_store (map (km_kern m) [b + 512 * i..<b + 512 * i + 512]) (lh_buf lh)"
  have buf: "?buf = (\<lambda>j. km_kern m (b + 512 * i + unat j))"
    using unat_9 by (intro ext) (simp add: buf_store_def)
  have d: "uio_dir (page_uio b off UIO_WRITE k) = UIO_WRITE" for k by (simp add: page_uio_def)
  show ?thesis
    using assms page_uio_step(1) [OF assms(1), of cur "[]" b off m] buf
    by (cases "d_script lh (d_ops_done lh)")
      (auto simp: lhd_sector_def P_clear_def V_clear_def P_done_def idle_def d card_run_def lhd_irq_def lhd_iodone_def
        lhd_code_to_errno_def lhd_codes Let_def intro: exI [of _ "d_sectors lh sect"])
qed

lemma sector_read:
  assumes "i < 8" "idle lh"
  shows "\<exists>r u m' lh'. lhd_sector cur sect LHD_WORKING (page_uio b off UIO_READ i) m lh = Some (r, u, m', lh') \<and>
     idle lh' \<and> d_blocks lh' = d_blocks lh \<and> d_sectors lh' = d_sectors lh \<and> (r = Inr () \<longrightarrow> u = page_uio b off UIO_READ (Suc i) \<and>
       m' = m\<lparr>km_kern := kern_write (km_kern m) (b + 512 * i) (buf_bytes (d_sectors lh sect))\<rparr>)"
proof -
  have d: "uio_dir (page_uio b off UIO_READ k) = UIO_READ" for k by (simp add: page_uio_def)
  have len: "take 512 (buf_bytes x) = buf_bytes x" for x by (simp add: buf_bytes_def LHD_SECTSIZE_def)
  show ?thesis
    using assms page_uio_step(2) [OF assms(1), of cur _ b off m]
    by (cases "d_script lh (d_ops_done lh)")
      (auto simp: lhd_sector_def P_clear_def V_clear_def P_done_def idle_def d card_run_def lhd_irq_def lhd_iodone_def
        lhd_code_to_errno_def lhd_codes Let_def len)
qed

section \<open>A page\<close>

lemma loop_write:
  assumes "i \<le> 8" "idle lh" "sector + 8 \<le> 2 ^ 32"
  shows "\<exists>r u lh'. lhd_loop cur sector (LHD_WORKING OR LHD_ISWRITE) [i..<8] (page_uio b off UIO_WRITE i) m lh = Some (r, u, m, lh') \<and>
     d_blocks lh' = d_blocks lh \<and> (\<forall>t. t < sector + i \<or> sector + 8 \<le> t \<longrightarrow> d_sectors lh' t = d_sectors lh t) \<and>
     (r = Inr () \<longrightarrow> u = page_uio b off UIO_WRITE 8 \<and>
       (\<forall>k. i \<le> k \<longrightarrow> k < 8 \<longrightarrow> d_sectors lh' (sector + k) = (\<lambda>j. km_kern m (b + 512 * k + unat j))))"
  using assms(1,2)
proof (induction "8 - i" arbitrary: i lh)
  case 0
  then show ?case by simp
next
  case (Suc n)
  then have i: "i < 8" "n = 8 - Suc i" "Suc i \<le> 8" by auto
  from sector_write [OF i(1) Suc.prems(2), of cur "sector + i" b off m] obtain r x lh1 where
    S: "lhd_sector cur (sector + i) (LHD_WORKING OR LHD_ISWRITE) (page_uio b off UIO_WRITE i) m lh = Some (r, page_uio b off UIO_WRITE (Suc i), m, lh1)"
      "idle lh1" "d_blocks lh1 = d_blocks lh" "d_sectors lh1 = (d_sectors lh)(sector + i := x)" "r = Inr () \<longrightarrow> x = (\<lambda>j. km_kern m (b + 512 * i + unat j))" by blast
  have u: "u32 (sector + i) = sector + i" using assms(3) i(1) by simp
  have upt: "[i..<8] = i # [Suc i..<8]" using i(1) by (simp add: upt_conv_Cons)
  show ?case
  proof (cases r)
    case (Inl e)
    then show ?thesis using S u i(1) by (auto simp: upt)
  next
    case (Inr y)
    from Suc.hyps(1) [OF i(2,3) S(2)] obtain r' u' lh2 where
      L: "lhd_loop cur sector (LHD_WORKING OR LHD_ISWRITE) [Suc i..<8] (page_uio b off UIO_WRITE (Suc i)) m lh1 = Some (r', u', m, lh2)"
        "d_blocks lh2 = d_blocks lh1"
        "\<forall>t. t < sector + Suc i \<or> sector + 8 \<le> t \<longrightarrow> d_sectors lh2 t = d_sectors lh1 t"
        "r' = Inr () \<longrightarrow> u' = page_uio b off UIO_WRITE 8 \<and>
          (\<forall>k. Suc i \<le> k \<longrightarrow> k < 8 \<longrightarrow> d_sectors lh2 (sector + k) = (\<lambda>j. km_kern m (b + 512 * k + unat j)))" by blast
    have "d_sectors lh2 t = d_sectors lh t" if "t < sector + i \<or> sector + 8 \<le> t" for t
      using that L(3) S(4) i(1) by auto
    moreover have "d_sectors lh2 (sector + k) = (\<lambda>j. km_kern m (b + 512 * k + unat j))" if "r' = Inr ()" "i \<le> k" "k < 8" for k
      using that L(3,4) S(4,5) Inr by (cases "k = i") auto
    ultimately show ?thesis using S(1,3) L(1,2,4) Inr u by (simp add: upt)
  qed
qed

lemma buf_bytes_nth [simp]: "buf_bytes s ! unat j = s j" "length (buf_bytes s) = 512"
  using unat_9 [of j] by (simp_all add: buf_bytes_def LHD_SECTSIZE_def)

lemma loop_read:
  assumes "i \<le> 8" "idle lh" "sector + 8 \<le> 2 ^ 32"
  shows "\<exists>r u m' lh'. lhd_loop cur sector LHD_WORKING [i..<8] (page_uio b off UIO_READ i) m lh = Some (r, u, m', lh') \<and>
     d_blocks lh' = d_blocks lh \<and> d_sectors lh' = d_sectors lh \<and>
     (r = Inr () \<longrightarrow> u = page_uio b off UIO_READ 8 \<and> (\<forall>x < b + 512 * i. km_kern m' x = km_kern m x) \<and>
       (\<forall>k j. i \<le> k \<longrightarrow> k < 8 \<longrightarrow> km_kern m' (b + 512 * k + unat j) = d_sectors lh (sector + k) j))"
  using assms(1,2)
proof (induction "8 - i" arbitrary: i lh m)
  case 0
  then show ?case by simp
next
  case (Suc n)
  then have i: "i < 8" "n = 8 - Suc i" "Suc i \<le> 8" by auto
  from sector_read [OF i(1) Suc.prems(2), of cur "sector + i" b off m] obtain r u m1 lh1 where
    S: "lhd_sector cur (sector + i) LHD_WORKING (page_uio b off UIO_READ i) m lh = Some (r, u, m1, lh1)"
      "idle lh1" "d_blocks lh1 = d_blocks lh" "d_sectors lh1 = d_sectors lh"
      "r = Inr () \<longrightarrow> u = page_uio b off UIO_READ (Suc i) \<and>
        m1 = m\<lparr>km_kern := kern_write (km_kern m) (b + 512 * i) (buf_bytes (d_sectors lh (sector + i)))\<rparr>" by blast
  have u: "u32 (sector + i) = sector + i" using assms(3) i(1) by simp
  have upt: "[i..<8] = i # [Suc i..<8]" using i(1) by (simp add: upt_conv_Cons)
  show ?case
  proof (cases r)
    case (Inl e)
    then show ?thesis using S u by (auto simp: upt)
  next
    case (Inr y)
    from Suc.hyps(1) [OF i(2,3) S(2), of m1] obtain r' u' m2 lh2 where
      L: "lhd_loop cur sector LHD_WORKING [Suc i..<8] (page_uio b off UIO_READ (Suc i)) m1 lh1 = Some (r', u', m2, lh2)"
        "d_blocks lh2 = d_blocks lh1" "d_sectors lh2 = d_sectors lh1"
        "r' = Inr () \<longrightarrow> u' = page_uio b off UIO_READ 8 \<and> (\<forall>x < b + 512 * Suc i. km_kern m2 x = km_kern m1 x) \<and>
          (\<forall>k j. Suc i \<le> k \<longrightarrow> k < 8 \<longrightarrow> km_kern m2 (b + 512 * k + unat j) = d_sectors lh1 (sector + k) j)" by blast
    have m1: "km_kern m1 x = (if b + 512 * i \<le> x \<and> x < b + 512 * i + 512 then buf_bytes (d_sectors lh (sector + i)) ! (x - (b + 512 * i)) else km_kern m x)" for x
      using S(5) Inr by (simp add: kern_write_def)
    have "km_kern m2 (b + 512 * k + unat j) = d_sectors lh (sector + k) j" if "r' = Inr ()" "i \<le> k" "k < 8" for k and j :: "9 word"
    proof (cases "k = i")
      case True
      then show ?thesis using L(4) that(1) m1 [of "b + 512 * i + unat j"] unat_9 [of j] by simp
    next
      case False
      then show ?thesis using that L(4) S(4) by simp
    qed
    moreover have "km_kern m2 x = km_kern m x" if "r' = Inr ()" "x < b + 512 * i" for x
      using that L(4) m1 [of x] by simp
    ultimately show ?thesis using S(1,3,4,5) L Inr u by (simp add: upt)
  qed
qed

section \<open>The swap device\<close>

lemma cdiv_nat [simp]: "cdiv (int n) (int m) = int (n div m)" "cmod (int n) (int m) = int (n mod m)"
  by (cases "n = 0"; simp add: cdiv_def cmod_def zdiv_int zmod_int)+

lemma to_u32_small [simp]: "n < 2 ^ 32 \<Longrightarrow> to_u32 (int n) = n"
  by (simp add: to_u32_def)

lemma idle_lhd_idle [simp]: "idle (lhd_idle d)"
  by (simp add: idle_def lhd_idle_def disk.defs lhd_softc.defs)

lemma lhd_idle_frame [simp]: "d_sectors (lhd_idle d) = d_sectors d" "d_blocks (lhd_idle d) = d_blocks d"
  by (simp_all add: lhd_idle_def disk.defs lhd_softc.defs)

lemma truncate_frame [simp]: "d_sectors (disk.truncate lh) = d_sectors lh" "d_blocks (disk.truncate lh) = d_blocks lh"
  by (simp_all add: disk.defs)

lemma kinit_page_uio: "uio_kinit b PAGE_SIZE off rw = page_uio b off rw 0"
  by (simp add: uio_kinit_def page_uio_def PAGE_SIZE_def)

text \<open>What \<^verbatim>\<open>lhd_io\<close> does for a page that lies on the disk.\<close>

lemma lhd_io_page:
  assumes "off = int i * int PAGE_SIZE" "dev_tryseek (d_blocks lh) LHD_SECTSIZE off = Inr ()" "0 < d_blocks lh" "d_blocks lh < 2 ^ 32"
  shows "8 * i + 8 \<le> 2 ^ 32" "lhd_io cur (page_uio b off rw 0) m lh =
    (if u32 (8 * i + 8) > d_blocks lh then Some (Inl EINVAL, page_uio b off rw 0, m, lh)
     else lhd_loop cur (8 * i) (if rw = UIO_WRITE then LHD_WORKING OR LHD_ISWRITE else LHD_WORKING) [0..<8] (page_uio b off rw 0) m lh)"
proof -
  have o: "off = int (4096 * i)" using assms(1) by (simp add: PAGE_SIZE_def)
  have "cdiv off (int LHD_SECTSIZE) = int (8 * i)" "cmod off (int LHD_SECTSIZE) = int 0"
    unfolding o LHD_SECTSIZE_def cdiv_nat by simp_all
  moreover from this have b: "8 * i < d_blocks lh" using assms(2,3) by (auto simp: dev_tryseek_def split: if_splits)
  ultimately have "to_u32 (cdiv off (int LHD_SECTSIZE)) = 8 * i" "to_u32 (cmod off (int LHD_SECTSIZE)) = 0"
    using assms(4) by (simp_all only: to_u32_small less_trans)
  moreover have "uio_offset (page_uio b off rw 0) = off" "uio_resid (page_uio b off rw 0) div LHD_SECTSIZE = 8"
    "uio_resid (page_uio b off rw 0) mod LHD_SECTSIZE = 0" "uio_dir (page_uio b off rw 0) = rw"
    by (simp_all add: page_uio_def LHD_SECTSIZE_def)
  ultimately show "8 * i + 8 \<le> 2 ^ 32" "lhd_io cur (page_uio b off rw 0) m lh =
    (if u32 (8 * i + 8) > d_blocks lh then Some (Inl EINVAL, page_uio b off rw 0, m, lh)
     else lhd_loop cur (8 * i) (if rw = UIO_WRITE then LHD_WORKING OR LHD_ISWRITE else LHD_WORKING) [0..<8] (page_uio b off rw 0) m lh)"
    using assms(4) b by (simp_all add: lhd_io_def Let_def)
qed

definition lhd_slot :: "swap_disk \<Rightarrow> nat \<Rightarrow> page" where
  "lhd_slot d i = (\<lambda>j. d_sectors (Rep_swap_disk d) (8 * i + unat j div 512) (word_of_nat (unat j mod 512)))"

lemma unat_12:
  fixes j :: "12 word"
  shows "unat j div 512 < 8" "512 * (unat j div 512) + unat (word_of_nat (unat j mod 512) :: 9 word) = unat j"
proof -
  have "unat j < 4096" using unsigned_less [of j] by simp
  then show "unat j div 512 < 8" by (simp add: less_mult_imp_div_less)
  have "unat (word_of_nat (unat j mod 512) :: 9 word) = unat j mod 512" by (simp add: unat_of_nat take_bit_eq_mod)
  then show "512 * (unat j div 512) + unat (word_of_nat (unat j mod 512) :: 9 word) = unat j" by simp
qed

lemma lhd_write_page:
  "\<exists>r d'. vop_write lhd_swapdev pg (int i * int PAGE_SIZE) d = Some (r, d') \<and> (\<forall>j. j \<noteq> i \<longrightarrow> lhd_slot d' j = lhd_slot d j) \<and>
     (r = Inr 0 \<longrightarrow> lhd_slot d' i = pg)"
proof -
  let ?lh = "lhd_idle (Rep_swap_disk d)" and ?off = "int i * int PAGE_SIZE" and ?m = "page_mem MIPS_KSEG0 pg"
  let ?u = "page_uio MIPS_KSEG0 ?off UIO_WRITE 0"
  have d: "0 < d_blocks ?lh" "d_blocks ?lh < 2 ^ 32" using Rep_swap_disk [of d] by simp_all
  have "\<exists>r u lh. dev_write None ?u ?m ?lh = Some (r, u, ?m, lh) \<and> d_blocks lh = d_blocks ?lh \<and>
     (\<forall>t. t < 8 * i \<or> 8 * i + 8 \<le> t \<longrightarrow> d_sectors lh t = d_sectors ?lh t) \<and>
     (r = Inr () \<longrightarrow> (\<forall>k < 8. d_sectors lh (8 * i + k) = (\<lambda>j. pg (word_of_nat (512 * k + unat j)))))"
  proof (cases "dev_tryseek (d_blocks ?lh) LHD_SECTSIZE ?off")
    case (Inl e)
    then show ?thesis by (simp add: dev_write_def page_uio_def)
  next
    case (Inr y)
    then have t: "dev_tryseek (d_blocks ?lh) LHD_SECTSIZE ?off = Inr ()" by simp
    note L = lhd_io_page [OF refl t d]
    have w: "dev_write None ?u ?m ?lh = lhd_io None ?u ?m ?lh" using Inr by (simp add: dev_write_def page_uio_def)
    show ?thesis
    proof (cases "u32 (8 * i + 8) > d_blocks ?lh")
      case True
      then show ?thesis using w L(2) by simp
    next
      case False
      then show ?thesis using w L(2) loop_write [of 0 ?lh "8 * i" None MIPS_KSEG0 ?off ?m] L(1)
        by (auto simp: page_mem_def)
    qed
  qed
  then obtain r u lh where R: "dev_write None ?u ?m ?lh = Some (r, u, ?m, lh)" "d_blocks lh = d_blocks ?lh"
     "\<And>t. t < 8 * i \<or> 8 * i + 8 \<le> t \<Longrightarrow> d_sectors lh t = d_sectors ?lh t"
     "r = Inr () \<longrightarrow> (\<forall>k < 8. d_sectors lh (8 * i + k) = (\<lambda>j. pg (word_of_nat (512 * k + unat j))))" by blast
  let ?d = "Abs_swap_disk (disk.truncate lh)"
  have rep: "Rep_swap_disk ?d = disk.truncate lh" using d R(2) by (intro Abs_swap_disk_inverse) simp
  have "lhd_slot ?d j = lhd_slot d j" if "j \<noteq> i" for j
  proof
    fix x :: "12 word"
    have "8 * j + unat x div 512 < 8 * i \<or> 8 * i + 8 \<le> 8 * j + unat x div 512" using that unat_12(1) [of x] by linarith
    then show "lhd_slot ?d j x = lhd_slot d j x" using R(3) by (simp add: lhd_slot_def rep)
  qed
  moreover have "lhd_slot ?d i = pg" if "r = Inr ()"
  proof
    fix j :: "12 word"
    let ?w = "word_of_nat (unat j mod 512) :: 9 word"
    have "d_sectors lh (8 * i + unat j div 512) = (\<lambda>w. pg (word_of_nat (512 * (unat j div 512) + unat w)))"
      using R(4) that unat_12(1) [of j] by blast
    then have "lhd_slot ?d i j = pg (word_of_nat (512 * (unat j div 512) + unat ?w))" unfolding lhd_slot_def rep truncate_frame by metis
    then show "lhd_slot ?d i j = pg j" unfolding unat_12(2) by simp
  qed
  ultimately show ?thesis using R(1)
    by (cases r) (simp_all add: lhd_swapdev_def kinit_page_uio)
qed

lemma lhd_read_page:
  "\<exists>r pg d'. vop_read lhd_swapdev pg0 (int i * int PAGE_SIZE) d = Some (r, pg, d') \<and> lhd_slot d' = lhd_slot d \<and>
     (r = Inr 0 \<longrightarrow> pg = lhd_slot d i)"
proof -
  let ?lh = "lhd_idle (Rep_swap_disk d)" and ?off = "int i * int PAGE_SIZE" and ?m = "page_mem MIPS_KSEG0 pg0"
  let ?u = "page_uio MIPS_KSEG0 ?off UIO_READ 0"
  have d: "0 < d_blocks ?lh" "d_blocks ?lh < 2 ^ 32" using Rep_swap_disk [of d] by simp_all
  have "\<exists>r u m lh. dev_read None ?u ?m ?lh = Some (r, u, m, lh) \<and> d_blocks lh = d_blocks ?lh \<and> d_sectors lh = d_sectors ?lh \<and>
     (r = Inr () \<longrightarrow> (\<forall>k < 8. \<forall>j. km_kern m (MIPS_KSEG0 + 512 * k + unat j) = d_sectors ?lh (8 * i + k) (j :: 9 word)))"
  proof (cases "dev_tryseek (d_blocks ?lh) LHD_SECTSIZE ?off")
    case (Inl e)
    then show ?thesis by (simp add: dev_read_def page_uio_def)
  next
    case (Inr y)
    then have t: "dev_tryseek (d_blocks ?lh) LHD_SECTSIZE ?off = Inr ()" by simp
    note L = lhd_io_page [OF refl t d]
    have w: "dev_read None ?u ?m ?lh = lhd_io None ?u ?m ?lh" using Inr by (simp add: dev_read_def page_uio_def)
    show ?thesis
    proof (cases "u32 (8 * i + 8) > d_blocks ?lh")
      case True
      then show ?thesis using w L(2) by simp
    next
      case False
      then show ?thesis using w L(2) loop_read [of 0 ?lh "8 * i" None MIPS_KSEG0 ?off ?m] L(1)
        by auto
    qed
  qed
  then obtain r u m lh where R: "dev_read None ?u ?m ?lh = Some (r, u, m, lh)" "d_blocks lh = d_blocks ?lh" "d_sectors lh = d_sectors ?lh"
     "r = Inr () \<longrightarrow> (\<forall>k < 8. \<forall>j. km_kern m (MIPS_KSEG0 + 512 * k + unat j) = d_sectors ?lh (8 * i + k) (j :: 9 word))" by blast
  let ?d = "Abs_swap_disk (disk.truncate lh)"
  have rep: "Rep_swap_disk ?d = disk.truncate lh" using d R(2) by (intro Abs_swap_disk_inverse) simp
  have "lhd_slot ?d = lhd_slot d" using R(3) by (intro ext) (simp add: lhd_slot_def rep)
  moreover have "mem_page MIPS_KSEG0 m = lhd_slot d i" if "r = Inr ()"
  proof
    fix j :: "12 word"
    have "km_kern m (MIPS_KSEG0 + 512 * (unat j div 512) + unat (word_of_nat (unat j mod 512) :: 9 word)) = lhd_slot d i j"
      using R(4) that unat_12(1) [of j] by (simp add: lhd_slot_def)
    then show "mem_page MIPS_KSEG0 m j = lhd_slot d i j" using unat_12(2) [of j] by (simp add: mem_page_def add.assoc)
  qed
  ultimately show ?thesis using R(1)
    by (cases r) (simp_all add: lhd_swapdev_def kinit_page_uio)
qed

interpretation lhd: swap_device lhd_swapdev lhd_slot
proof
  fix pg pg0 :: page and i j :: nat and d d' :: swap_disk and r
  show "vop_write lhd_swapdev pg (int i * int PAGE_SIZE) d = Some (Inr 0, d') \<Longrightarrow> lhd_slot d' i = pg"
    using lhd_write_page [of pg i d] by auto
  show "vop_write lhd_swapdev pg (int i * int PAGE_SIZE) d = Some (r, d') \<Longrightarrow> j \<noteq> i \<Longrightarrow> lhd_slot d' j = lhd_slot d j"
    using lhd_write_page [of pg i d] by auto
  show "\<exists>r d'. vop_write lhd_swapdev pg (int i * int PAGE_SIZE) d = Some (r, d')"
    using lhd_write_page [of pg i d] by auto
  show "vop_read lhd_swapdev pg0 (int i * int PAGE_SIZE) d = Some (Inr 0, pg, d') \<Longrightarrow> pg = lhd_slot d i"
    using lhd_read_page [of pg0 i d] by auto
  show "vop_read lhd_swapdev pg0 (int i * int PAGE_SIZE) d = Some (r, pg, d') \<Longrightarrow> lhd_slot d' = lhd_slot d"
    using lhd_read_page [of pg0 i d] by auto
  show "\<exists>r pg d'. vop_read lhd_swapdev pg0 (int i * int PAGE_SIZE) d = Some (r, pg, d')"
    using lhd_read_page [of pg0 i d] by auto
qed

end
