(* ===== verification/Kern_Swap.thy ===== *)
theory Kern_Swap
  imports Kern_Lhd
begin

text \<open>
  The promises of the virtual memory system on the machine's own disk: allocation, eviction and page
  faults with \<^verbatim>\<open>lhd\<close> as the swap device, and what happens when one process fills the memory alone.
\<close>

section \<open>A small machine\<close>

text \<open>
  One address space with a stack of two pages, and physical pages from 1 on; page 0 is the kernel's.
\<close>

definition demo_kernel :: cm_entry where
  "demo_kernel = \<lparr>used = True, kmalloc_end = True, cm_dirty = False, kernel_page = True, busy = False, owner = None, cm_vaddr = 0, pp_num = 0\<rparr>"

definition demo_user :: "nat \<Rightarrow> nat \<Rightarrow> cm_entry" where
  "demo_user p va = \<lparr>used = True, kmalloc_end = True, cm_dirty = False, kernel_page = False, busy = False, owner = Some 0, cm_vaddr = va, pp_num = p\<rparr>"

definition demo_table :: "pte \<Rightarrow> l2_ptable" where
  "demo_table e = \<lparr>l2_addr = 0, l2_ptes = (replicate 1024 zero_pte)[511 := e]\<rparr>"

definition demo_space :: "pte \<Rightarrow> addrspace" where
  "demo_space e = \<lparr>as_pt = \<lparr>pt_addr = 0, l2_entries = (replicate 1024 None)[1022 := Some (demo_table e), 1023 := Some (demo_table zero_pte)]\<rparr>,
     as_held = False, region_list = [], heap_start = 0, heap_end = 0, stack_base = 0x7fffe000\<rparr>"

definition demo_vm :: "cm_entry \<Rightarrow> pte \<Rightarrow> swap_disk vm" where
  "demo_vm c e = \<lparr>entries = [demo_kernel, c], cm_page_count = (if used c then 2 else 1), first_page = 1, last_page = 2, cm_lock = False,
     cm_evict_index = 0, frames = (\<lambda>_ _. 0), spaces = (\<lambda>a. if a = 0 then Some (demo_space e) else None),
     swap_bitmap = \<lparr>bm_nbits = 8, bm_v = [0]\<rparr>, swap_slots = 8,
     dev = Abs_swap_disk \<lparr>d_sectors = (\<lambda>_ _. 0), d_script = (\<lambda>_. End_ok), d_ops_done = 0, d_blocks = 64, lh_buf = (\<lambda>_. 0)\<rparr>,
     tlb = map (\<lambda>i. (TLBHI_INVALID i, TLBLO_INVALID)) [0..<NUM_TLB], tlb_next_victim = 0, curas = Some 0\<rparr>"

definition demo_resident :: pte where
  "demo_resident = \<lparr>valid = True, in_mem = True, readonly = False, dirty = False, swap_offset = SWAP_OFFSET_NONE, ppn = 1\<rparr>"

lemma demo_pt_wf: "pt_wf (as_pt (demo_space e))"
  by (simp add: pt_wf_def demo_space_def demo_table_def L1_SIZE_def L2_SIZE_def nth_list_update)

lemma demo_pte:
  assumes "upage va"
  shows "pte_of (demo_vm c e) a va =
    (if a = 0 then if va = 0x7fffe000 then Some e else if GET_L1_INDEX va = 1022 \<or> GET_L1_INDEX va = 1023 then Some zero_pte else None else None)"
proof -
  have ix: "GET_L1_INDEX 0x7fffe000 = 1022" "GET_L2_INDEX 0x7fffe000 = 511" by (simp_all add: index_eq PAGE_SIZE_def)
  have up: "upage 0x7fffe000" by (simp add: upage_def MIPS_KSEG0_def PAGE_SIZE_def)
  have va: "va = 0x7fffe000 \<longleftrightarrow> GET_L1_INDEX va = 1022 \<and> GET_L2_INDEX va = 511"
    using upage_inj [OF assms up] ix by auto
  note r = upage_index [OF assms, unfolded L1_SIZE_def L2_SIZE_def]
  have "pagetable_lookup (as_pt (demo_space e)) va =
     Some (map_option (\<lambda>l2. l2_ptes l2 ! GET_L2_INDEX va) (l2_entries (as_pt (demo_space e)) ! GET_L1_INDEX va))"
    by (rule lookup_eq [OF demo_pt_wf assms])
  then show ?thesis using r va
    by (auto simp: pte_of_def demo_vm_def demo_space_def demo_table_def nth_list_update)
qed

lemma demo_tlb_ok: "tlb_ok (demo_vm c e)"
proof (rule tlb_okI)
  have "inj TLBHI_INVALID" by (rule injI) (simp add: TLBHI_INVALID_def)
  then show "distinct (map fst (tlb (demo_vm c e)))"
    by (simp add: demo_vm_def comp_def distinct_map) (erule inj_on_subset, simp)
qed (simp_all add: demo_vm_def NUM_TLB_def TLBLO_INVALID_def)

lemma demo_inv:
  assumes "c = blank_entry \<and> e = zero_pte \<or> c = demo_user 1 0x7fffe000 \<and> e = demo_resident"
  shows "vm_inv (demo_vm c e)"
proof -
  let ?s = "demo_vm c e"
  have z: "\<not> valid zero_pte" by (simp add: zero_pte_def)
  have up: "upage 0x7fffe000" by (simp add: upage_def MIPS_KSEG0_def PAGE_SIZE_def)
  have c: "blank_entry \<noteq> demo_user 1 0x7fffe000" by (simp add: blank_entry_def demo_user_def)
  have r: "valid demo_resident" "in_mem demo_resident" "ppn demo_resident = 1" by (simp_all add: demo_resident_def)
  have pv: "pte_of ?s a va = Some x \<and> valid x \<longleftrightarrow> c = demo_user 1 0x7fffe000 \<and> a = 0 \<and> va = 0x7fffe000 \<and> x = demo_resident"
    if "upage va" for a va x
    using assms z c r(1) unfolding demo_pte [OF that] by (auto split: if_splits)
  have rs: "resident ?s a va p \<longleftrightarrow> c = demo_user 1 0x7fffe000 \<and> a = 0 \<and> va = 0x7fffe000 \<and> p = 1" for a va p
    using pv [of va a] up r unfolding resident_def by metis
  have val: "in_mem x" if "upage va" "pte_of ?s a va = Some x" "valid x" for a va x
    using pv [OF that(1), of a x] that(2,3) r by simp
  then have sw: "\<not> swapped ?s a va i" for a va i by (auto simp: swapped_def)
  have p: "p < 2 \<longleftrightarrow> p = 0 \<or> p = 1" for p :: nat by auto
  have "cm_wf ?s" using assms by (auto simp: cm_wf_def demo_vm_def p demo_kernel_def demo_user_def blank_entry_def)
  moreover have "pt_wf (as_pt as)" if "spaces ?s a = Some as" for a as
    using that demo_pt_wf by (auto simp: demo_vm_def split: if_splits)
  moreover have "kblock ?s p 1" if "resident ?s a va p" for a va p
    using that unfolding rs by (auto simp: kblock_def demo_vm_def demo_user_def)
  moreover have "\<not> busy (ent ?s p) \<and> (\<exists>a. owner (ent ?s p) = Some a \<and> resident ?s a (cm_vaddr (ent ?s p)) p)"
    if "p < last_page ?s" "used (ent ?s p)" "\<not> kernel_page (ent ?s p)" for p
    using that assms unfolding rs by (auto simp: demo_vm_def p demo_kernel_def demo_user_def blank_entry_def)
  moreover have "x = y \<and> va = vb" if "resident ?s x va p" "resident ?s y vb p" for x y va vb p using that unfolding rs by simp
  moreover have "bitmap_ok (swap_bitmap ?s)" "bm_nbits (swap_bitmap ?s) = swap_slots ?s" "\<not> cm_lock ?s"
    by (simp_all add: demo_vm_def bitmap_ok_def)
  ultimately show ?thesis unfolding vm_inv_def using val sw by (intro conjI; blast)
qed

section \<open>The promises\<close>





lemma demo_facts:
  "curas (demo_vm c e) = Some 0" "spaces (demo_vm c e) 0 = Some (demo_space e)" "\<not> as_held (demo_space e)"
  "first_page (demo_vm c e) \<le> 1" "1 < last_page (demo_vm c e)" "ent (demo_vm c e) 1 = c" "\<not> used blank_entry"
  by (simp_all add: demo_vm_def demo_space_def blank_entry_def)

lemma demo_zero: "\<not> valid zero_pte"
  by (simp add: zero_pte_def)

lemma demo_fault:
  "fa = 0x7ffff123 \<Longrightarrow> fa AND PAGE_FRAME = 0x7ffff000 \<and> fa < MIPS_KSEG0 \<and> is_valid_address (demo_space e) fa \<and>
     get_region_permissions (demo_space e) (fa AND PAGE_FRAME) = Inr (True, True, False) \<and>
     pte_of (demo_vm c e) 0 (fa AND PAGE_FRAME) = Some zero_pte \<and> tlb_faults VM_FAULT_WRITE (fa AND PAGE_FRAME) (demo_vm c e)"
proof -
  assume fa: "fa = 0x7ffff123"
  have pg: "fa AND PAGE_FRAME = 0x7ffff000" using frame_bits [of fa] fa by (simp add: PAGE_SIZE_def)
  have up: "upage 0x7ffff000" by (simp add: upage_def MIPS_KSEG0_def PAGE_SIZE_def)
  have ix: "GET_L1_INDEX 0x7ffff000 = 1023" by (simp add: index_eq PAGE_SIZE_def)
  have "0x7ffff000 \<notin> fst ` set (tlb (demo_vm c e))"
    using up invalid_not_upage by (auto simp: demo_vm_def)
  then show ?thesis using fa pg demo_pte [OF up, of c e 0] ix
    by (simp add: MIPS_KSEG0_def is_valid_address_def get_region_permissions_def demo_space_def USERSTACK_def tlb_faults_def)
qed





text \<open>
  C34. What \<^verbatim>\<open>alloc_kpages\<close> finds free and hands out, \<^verbatim>\<open>free_kpages\<close> takes back: the same pages are
  in use as before, the count is what it was, and no other page is touched in between.
\<close>

theorem kpages_roundtrip:
  assumes "cm_wf s" "\<not> cm_lock s" "0 < n" "alloc_try n s = Some (Some kv, s1)"
  shows "\<exists>s2. free_kpages kv s1 = Some s2 \<and> cm_wf s2 \<and> cm_page_count s2 = cm_page_count s \<and> cm_page_count s1 = cm_page_count s + n \<and>
    (\<forall>p < last_page s. (used (ent s2 p) \<longleftrightarrow> used (ent s p)) \<and> (used (ent s p) \<longrightarrow> ent s1 p = ent s p \<and> ent s2 p = ent s p))"
  using assms(1-3)
proof (cases rule: alloc_try_cases)
  case (found st)
  have k: "kv = MIPS_KSEG0 + st * PAGE_SIZE" "s1 = alloc_state st n s" using found(1) assms(4) by simp_all
  have w: "cm_wf s1" "kblock s1 st n" using alloc_state_wf [OF assms(1,3) found(2-4)] k by simp_all
  have len: "length (entries s) = last_page s" using cm_wfD(1) [OF assms(1)] .
  show ?thesis
    using free_kpages_ok [OF w] k len found(4) by auto
next
  case none
  then show ?thesis using assms(4) by simp
qed

theorem kpages_roundtrip_witness:
  "\<exists>kv s1 s2. alloc_try 1 (demo_vm blank_entry zero_pte) = Some (Some kv, s1) \<and> free_kpages kv s1 = Some s2 \<and> cm_page_count s2 = 1"
proof -
  let ?s = "demo_vm blank_entry zero_pte"
  have inv: "vm_inv ?s" by (rule demo_inv) simp
  note v = vm_invD(1,2) [OF inv]
  have "(0::nat) < 1" by simp
  with v obtain kv s1 where A: "alloc_try 1 ?s = Some (Some kv, s1)"
    by (cases rule: alloc_try_cases) (auto simp: demo_vm_def blank_entry_def)
  from kpages_roundtrip [OF v _ A] show ?thesis using A by (auto simp: demo_vm_def blank_entry_def)
qed

end
