(* ===== verification/Spec2Isabelle.thy ===== *)
theory Spec2Isabelle
  imports Kern_Bitmap Kern_Array Kern_Threadlist Kern_Pid Kern_Uio Libc_String Libc_Printf
    User_Qsort Sfs_Format Sfsck_Base Sfsck_Freemap Sfsck_Inode Sfsck_Pass Sfsck_Tree Millicode_Div Millicode
    Kern_Coremap Kern_Vm Kern_Vm_Inv Kern_Vm_Fault Kern_Lhd Kern_Swap
begin

text \<open>
  \<^bold>\<open>A verification library for the OS/161 kernel of this repository.\<close>

  The program is an instructional operating system: a kernel (\<^verbatim>\<open>kern/\<close>) for a simulated 32-bit MIPS
  machine, a C library shared by kernel and userland and the compiler's support routines (\<^verbatim>\<open>common/\<close>), and
  the user programs (\<^verbatim>\<open>userland/\<close>).  The library models the parts below and proves what each promises.

  \<^bold>\<open>Conventions.\<close>  \<^verbatim>\<open>Kern_Prelude\<close> explains them: a kernel function takes and returns its state, has the result
  \<open>None\<close> when it does not come back (a failed \<^verbatim>\<open>KASSERT\<close>, a panic, an access out of bounds, a lock somebody holds already), and
  otherwise the errno as \<^verbatim>\<open>Inl\<close> or the value as \<^verbatim>\<open>Inr\<close>.  Unsigned 32-bit arithmetic is written out with \<open>u32\<close> and
  \<open>usub32\<close> on natural numbers, or uses words where the bits matter.  The answers of \<^verbatim>\<open>kmalloc\<close> are an input.

  \<^bold>\<open>Kernel data structures.\<close>
  \<^item> \<^verbatim>\<open>Kern_Bitmap\<close>: \<^verbatim>\<open>kern/lib/bitmap.c\<close>, bytes with the unused bits of the last one marked.  Any sequence of
    calls behaves as a set of indices; the locale \<open>slot_allocator\<close> is the contract its clients use.
  \<^item> \<^verbatim>\<open>Kern_Array\<close>: \<^verbatim>\<open>kern/lib/array.c\<close> with its doubling loop; locale \<open>growable\<close>.
  \<^item> \<^verbatim>\<open>Kern_Threadlist\<close>: \<^verbatim>\<open>kern/thread/threadlist.c\<close> on an explicit pointer store, refined to sequences; locale
    \<open>thread_queues\<close>.
  \<^item> \<^verbatim>\<open>Kern_Pid\<close>: \<^verbatim>\<open>kern/proc/pid.c\<close> and, as an inductive step relation, the processes that use it.  No
    assertion fails in a reachable state, pids are fresh, no wait is forgotten, statuses are delivered.
  \<^item> \<^verbatim>\<open>Kern_Uio\<close>: \<^verbatim>\<open>kern/vm/copyinout.c\<close> and \<^verbatim>\<open>kern/lib/uio.c\<close> over a user memory whose bytes may fault.

  \<^bold>\<open>Virtual memory\<close>, from the frames up.
  \<^item> \<^verbatim>\<open>Kern_Coremap\<close>: \<^verbatim>\<open>kern/arch/mips/vm/ram.c\<close> and the core map of \<^verbatim>\<open>kern/arch/mips/vm/vm.c\<close> (frames, blocks, the
    spinlock).  The record \<open>coremap\<close> is extended by the state of the rest.
  \<^item> \<^verbatim>\<open>Kern_Vm\<close>: page tables (\<^verbatim>\<open>kern/vm/pagetable.c\<close>), swap slots (\<^verbatim>\<open>kern/vm/swap.c\<close>), the TLB, eviction,
    \<^verbatim>\<open>alloc_kpages\<close> and \<^verbatim>\<open>vm_fault\<close>.  A page is a function from 12-bit offsets to bytes; an address space is named by a
    number.  \<^verbatim>\<open>alloc_kpages\<close> retries after each eviction and is a partial function.
  \<^item> \<^verbatim>\<open>Kern_Vm_Inv\<close>: the invariant (every user page in one frame or one slot of its own, frames know their
    owner), the contents of a page wherever it is (\<open>view\<close>), and in the locale \<open>swap_device\<close>, whose laws are
    what a disk promises about reading and writing pages, that eviction and allocation keep both.  The
    retries end because each eviction frees a frame.
  \<^item> \<^verbatim>\<open>Kern_Vm_Fault\<close>: the same for page faults, with the TLB; when they return; and that a process which fills the
    memory alone does not get another page.
  \<^item> \<^verbatim>\<open>Kern_Lhd\<close>: the disk driver \<^verbatim>\<open>kern/dev/lamebus/lhd.c\<close> under the read and write operations of
    \<^verbatim>\<open>kern/vfs/device.c\<close>, moving data with the \<^verbatim>\<open>uiomove\<close> of \<^verbatim>\<open>Kern_Uio\<close>.  The card is hardware: a store of sectors whose
    operations end as an arbitrary script says.  It interprets \<open>swap_device\<close>.
  \<^item> \<^verbatim>\<open>Kern_Swap\<close>: the resulting theorems about the kernel with its own disk, and a small machine on which
    they are tried.

  \<^bold>\<open>C library.\<close>
  \<^item> \<^verbatim>\<open>Libc_String\<close>: \<^verbatim>\<open>common/libc/string\<close>, \<^verbatim>\<open>common/libc/stdlib/atoi.c\<close> and the user library's \<^verbatim>\<open>memcmp.c\<close>; memory as a function, so blocks may overlap.
  \<^item> \<^verbatim>\<open>Libc_Printf\<close>: \<^verbatim>\<open>common/libc/printf\<close>; locale \<open>pf_client\<close> for the callback, interpreted by \<^verbatim>\<open>snprintf\<close>.
  \<^item> \<^verbatim>\<open>User_Qsort\<close>: \<^verbatim>\<open>userland/lib/libc/stdlib/qsort.c\<close>; locale \<open>comparator\<close>, interpreted by the comparison
    functions of the file system checker.
  \<^item> \<^verbatim>\<open>Millicode_Div\<close> and \<^verbatim>\<open>Millicode\<close>: \<^verbatim>\<open>common/gcc-millicode\<close>, 64-bit arithmetic on 32-bit halves.

  \<^bold>\<open>File system checker.\<close>
  \<^item> \<^verbatim>\<open>Sfs_Format\<close>: the on-disk format, \<^verbatim>\<open>kern/include/kern/sfs.h\<close>.
  \<^item> \<^verbatim>\<open>Sfsck_Base\<close>, \<^verbatim>\<open>Sfsck_Freemap\<close>, \<^verbatim>\<open>Sfsck_Inode\<close>, \<^verbatim>\<open>Sfsck_Pass\<close>, \<^verbatim>\<open>Sfsck_Tree\<close>: \<^verbatim>\<open>userland/sbin/sfsck\<close> and the disk
    access of \<^verbatim>\<open>userland/sbin/mksfs/disk.c\<close>: the bitmap it leaves on disk is the set of blocks noted in use, the link
    counts are those counted, both passes end on every volume, and the phases of pass 2 on the entries of one
    directory fail no assertion.

  \<^bold>\<open>Fuel and partial functions.\<close>  The two recursive passes of the checker take fuel; running out of it is a result
  of its own, and the number of blocks plus 2 is proved to be enough on every volume.  \<^verbatim>\<open>alloc_kpages\<close>, the
  doubling loop of \<^verbatim>\<open>array_preallocate\<close> (up to 2 ^ 31 elements) and the searches of the string functions for a terminator are partial functions
  in the option monad; that they return is part of the theorems.  All other loops are structural or have a
  termination proof, as the allocation loop of \<^verbatim>\<open>pid_alloc\<close>, whose count is limited by its assertion.

  \<^bold>\<open>Concurrency.\<close>  One thread runs at a time in the virtual memory system and the other kernel structures; locks are
  modelled by whether this thread holds them.  \<^verbatim>\<open>Kern_Pid\<close> interleaves the calls of many processes.

  \<^bold>\<open>Not modelled\<close>: the scheduler, context switches and interrupts, and the semaphores, locks and condition variables
  built on them (assembly and shared stacks); the subpage allocator \<^verbatim>\<open>kern/vm/kmalloc.c\<close> (its clients take its
  answers as input); processes, open files and system calls, the VFS layer and the kernel side of SFS and semfs,
  which dispatch through tables of function pointers; the operations of \<^verbatim>\<open>kern/vm/addrspace.c\<close> that build address
  spaces (page faults read the finished ones); drivers other than the disk, boot code, the menu and tests, and the
  user programs other than the checker, which mainly make system calls.
\<close>

end
